(* ===== verification/Prelude.thy ===== *)
theory Prelude
  imports Main "HOL-Library.Word"
begin

text \<open>
  Shared vocabulary of the development: the C integer types as words, byte strings as lists,
  the memory-copy primitives, the conversions between byte strings and machine integers, and
  the generic lemmas on lists, options and words that the component theories rely on.
\<close>

unbundle bit_operations_syntax

section \<open>C types\<close>

type_synonym u8 = "8 word"
type_synonym u16 = "16 word"
type_synonym u32 = "32 word"
type_synonym u64 = "64 word"
type_synonym bytes = "8 word list"

text \<open>Collections: \<open>ct_simps\<close> holds the value of every constant-time primitive,
  \<open>byte_simps\<close> the list facts used by readers and writers.\<close>

named_theorems ct_simps
named_theorems byte_simps

section \<open>Memory primitives\<close>

text \<open>\<^verbatim>\<open>memcpy(&buf[i], src, n)\<close> on a buffer held as a list.\<close>

definition memcpy_at :: "'a list \<Rightarrow> nat \<Rightarrow> 'a list \<Rightarrow> 'a list" where
  "memcpy_at buf i src = take i buf @ src @ drop (i + length src) buf"

section \<open>Word lemmas\<close>

lemma unat_lt_u8: "unat (a :: u8) < 256"
  using unsigned_less [of a, where ?'a = nat] by simp

lemma unat_lt_u16: "unat (a :: u16) < 65536"
  using unsigned_less [of a, where ?'a = nat] by simp

lemma unat_lt_u32: "unat (a :: u32) < 2 ^ 32"
  using unsigned_less [of a, where ?'a = nat] by simp

lemma unat_lt_u64: "unat (a :: u64) < 2 ^ 64"
  using unsigned_less [of a, where ?'a = nat] by simp

lemma unat_ucast_up:
  "LENGTH('a) \<le> LENGTH('b) \<Longrightarrow> unat (ucast (a :: 'a::len word) :: 'b::len word) = unat a"
  by (simp add: unsigned_ucast_eq take_bit_nat_eq_self_iff)
    (metis le_trans less_le_trans nat_less_le power_increasing one_le_numeral unsigned_less)

lemma unat_word_of_nat: "n < 2 ^ LENGTH('a) \<Longrightarrow> unat (word_of_nat n :: 'a::len word) = n"
  by (simp add: unsigned_of_nat take_bit_nat_eq_self_iff)

text \<open>Widening a byte is injective, so comparisons move across it.\<close>

lemma ucast_u8_u64 [simp]:
  "unat (ucast (a :: u8) :: u64) = unat a" "unat (ucast (a :: u8) :: u32) = unat a"
  "unat (ucast (a :: u8) :: u16) = unat a" "unat (ucast (c :: u32) :: u64) = unat c"
  "unat (ucast (b :: u16) :: u32) = unat b" "unat (ucast (b :: u16) :: u64) = unat b"
  by (simp_all add: unat_ucast_up)

lemma unat_word_of_int: "0 \<le> z \<Longrightarrow> z < 2 ^ 64 \<Longrightarrow> unat (word_of_int z :: u64) = nat z"
  by (simp add: unsigned_of_int take_bit_int_eq_self)

section \<open>Byte order\<close>

text \<open>Little-endian numbers.\<close>

fun le_value :: "bytes \<Rightarrow> nat" where
  "le_value [] = 0"
| "le_value (b # bs) = unat b + 256 * le_value bs"

fun le_bytes :: "nat \<Rightarrow> nat \<Rightarrow> bytes" where
  "le_bytes 0 n = []"
| "le_bytes (Suc k) n = word_of_nat n # le_bytes k (n div 256)"

lemma length_le_bytes [simp]: "length (le_bytes k n) = k"
  by (induction k arbitrary: n) auto

lemma le_value_bound: "le_value bs < 256 ^ length bs"
proof (induction bs)
  case (Cons b bs)
  then show ?case using unat_lt_u8 [of b] by simp
qed simp

lemma le_bytes_value: "le_bytes (length bs) (le_value bs) = bs"
proof (induction bs)
  case (Cons b bs)
  have z: "(256 :: u8) = 0" by simp
  have "(word_of_nat (unat b + 256 * n) :: u8) = b" for n
    by (simp add: z)
  moreover have "(unat b + 256 * n) div 256 = n" for n
    using unat_lt_u8 [of b] by simp
  ultimately show ?case using Cons by simp
qed simp

lemma le_value_bytes: "n < 256 ^ k \<Longrightarrow> le_value (le_bytes k n) = n"
proof (induction k arbitrary: n)
  case (Suc k)
  then have "n div 256 < 256 ^ k" by (simp add: less_mult_imp_div_less mult.commute)
  from Suc.IH [OF this] show ?case
    by (simp add: unsigned_of_nat take_bit_eq_mod)
qed simp

lemma byte_of_word32: "ucast (drop_bit k v AND 0xFF) = (word_of_nat (unat v div 2 ^ k) :: u8)" for v :: u32
proof -
  have "(0xFF :: u32) = mask 8" by (simp add: mask_eq_exp_minus_1)
  then have "drop_bit k v AND 0xFF = take_bit 8 (drop_bit k v)" by (simp add: take_bit_eq_mask)
  moreover have "(ucast (take_bit 8 x) :: u8) = ucast x" for x :: u32
    by (rule bit_word_eqI) (auto simp: bit_simps)
  moreover have "unat (drop_bit k v) = unat v div 2 ^ k"
    by (subst unsigned_drop_bit_eq) (simp add: drop_bit_eq_div take_bit_nat_eq_self unat_lt_u64 [simplified] unat_lt_u32 [simplified])
  ultimately show ?thesis by (metis of_nat_unat)
qed

lemma byte_of_word64: "ucast (drop_bit k v AND 0xFF) = (word_of_nat (unat v div 2 ^ k) :: u8)" for v :: u64
proof -
  have "(0xFF :: u64) = mask 8" by (simp add: mask_eq_exp_minus_1)
  then have "drop_bit k v AND 0xFF = take_bit 8 (drop_bit k v)" by (simp add: take_bit_eq_mask)
  moreover have "(ucast (take_bit 8 x) :: u8) = ucast x" for x :: u64
    by (rule bit_word_eqI) (auto simp: bit_simps)
  moreover have "unat (drop_bit k v) = unat v div 2 ^ k"
    by (subst unsigned_drop_bit_eq) (simp add: drop_bit_eq_div take_bit_nat_eq_self unat_lt_u64 [simplified] unat_lt_u32 [simplified])
  ultimately show ?thesis by (metis of_nat_unat)
qed

lemma le_bytes_4: "le_bytes 4 n = map word_of_nat [n, n div 2 ^ 8, n div 2 ^ 16, n div 2 ^ 24]"
proof -
  have "le_bytes (Suc (Suc (Suc (Suc 0)))) n = map word_of_nat [n, n div 2 ^ 8, n div 2 ^ 16, n div 2 ^ 24]"
    by (simp add: div_mult2_eq [symmetric])
  moreover have "Suc (Suc (Suc (Suc 0))) = 4" by simp
  ultimately show ?thesis by metis
qed

lemma le_bytes_8: "le_bytes 8 n = map word_of_nat [n, n div 2 ^ 8, n div 2 ^ 16, n div 2 ^ 24, n div 2 ^ 32, n div 2 ^ 40, n div 2 ^ 48, n div 2 ^ 56]"
proof -
  have "le_bytes (Suc (Suc (Suc (Suc 4)))) n = map word_of_nat [n, n div 2 ^ 8, n div 2 ^ 16, n div 2 ^ 24, n div 2 ^ 32, n div 2 ^ 40, n div 2 ^ 48, n div 2 ^ 56]"
    by (simp only: le_bytes.simps le_bytes_4 list.map) (simp add: div_mult2_eq [symmetric])
  moreover have "Suc (Suc (Suc (Suc 4))) = 8" by simp
  ultimately show ?thesis by metis
qed

section \<open>Big-endian numbers\<close>

definition be_bytes :: "nat \<Rightarrow> nat \<Rightarrow> bytes" where
  "be_bytes k n = rev (le_bytes k n)"

definition be_value :: "bytes \<Rightarrow> nat" where
  "be_value bs = le_value (rev bs)"

lemma length_be_bytes [simp]: "length (be_bytes k n) = k"
  by (simp add: be_bytes_def)

lemma be_value_bound: "be_value bs < 256 ^ length bs"
  using le_value_bound [of "rev bs"] by (simp add: be_value_def)

lemma be_value_bytes: "n < 256 ^ k \<Longrightarrow> be_value (be_bytes k n) = n"
  by (simp add: be_value_def be_bytes_def le_value_bytes)

lemma be_bytes_value: "be_bytes (length bs) (be_value bs) = bs"
  using le_bytes_value [of "rev bs"] by (simp add: be_bytes_def be_value_def)

lemma be_value_snoc: "be_value (bs @ [b]) = 256 * be_value bs + unat b"
  by (simp add: be_value_def)

lemma be_value_Nil [simp]: "be_value [] = 0" by (simp add: be_value_def)

lemma le_value_append_list: "le_value (xs @ ys) = le_value xs + 256 ^ length xs * le_value ys"
  by (induction xs) (simp_all add: algebra_simps)

lemma be_value_Cons: "be_value (b # bs) = 256 ^ length bs * unat b + be_value bs"
  by (simp add: be_value_def le_value_append_list)

lemma be_bytes_Suc: "be_bytes (Suc k) n = be_bytes k (n div 256) @ [word_of_nat n]"
  by (simp add: be_bytes_def)

lemma be_bytes_0 [simp]: "be_bytes 0 n = []" by (simp add: be_bytes_def)

section \<open>Bits of words\<close>

lemma low3: "q mod 8 = 0 \<longleftrightarrow> even q \<and> even (q div 2) \<and> even (q div 4)" for q :: nat
proof -
  have "q mod 8 = 2 * (q div 2 mod 4) + q mod 2" using mod_mult2_eq [of q 2 4] by simp
  then have a: "q mod 8 = 0 \<longleftrightarrow> even q \<and> q div 2 mod 4 = 0"
    unfolding even_iff_mod_2_eq_zero by (simp only: add_is_0 mult_is_0) auto
  have "r mod 4 = 2 * (r div 2 mod 2) + r mod 2" for r :: nat using mod_mult2_eq [of r 2 2] by simp
  then have b: "r mod 4 = 0 \<longleftrightarrow> even r \<and> even (r div 2)" for r :: nat
    unfolding even_iff_mod_2_eq_zero by (simp only: add_is_0 mult_is_0) auto
  have "q div 2 div 2 = q div 4" by (simp add: div_mult2_eq [symmetric])
  then show ?thesis unfolding a b by simp
qed

lemma high_bit [byte_simps]: "b AND 0x80 = 0 \<longleftrightarrow> b < 0x80" "b AND 0x7F = word_of_nat (unat b mod 128)"
    "b AND 0x70 = 0 \<longleftrightarrow> unat b mod 128 < 16" for b :: u8
proof -
  have bit: "bit b n \<longleftrightarrow> odd (unat b div 2 ^ n)" for n
    using bit_iff_odd [of "unat b" n] by (simp add: bit_unsigned_iff)
  have "b AND 2 ^ 7 = 0 \<longleftrightarrow> \<not> bit b 7" by (rule and_exp_eq_0_iff_not_bit)
  then show "b AND 0x80 = 0 \<longleftrightarrow> b < 0x80"
    using unat_lt_u8 [of b] by (cases "unat b < 128") (simp_all add: bit word_less_nat_alt le_div_geq)
  have "b AND 0x7F = take_bit 7 b" by (simp add: take_bit_eq_mask mask_eq_exp_minus_1)
  also have "\<dots> = word_of_nat (unat (b mod 128))" by (simp add: take_bit_eq_mod)
  finally show "b AND 0x7F = word_of_nat (unat b mod 128)" by (simp only: unat_mod) simp
  have "b AND 0x70 = b AND (2 ^ 4 OR 2 ^ 5 OR 2 ^ 6)" by simp
  also have "\<dots> = 0 \<longleftrightarrow> \<not> bit b 4 \<and> \<not> bit b 5 \<and> \<not> bit b 6"
    unfolding bit.conj_disj_distrib or_eq_0_iff and_exp_eq_0_iff_not_bit by simp
  also have "\<dots> \<longleftrightarrow> unat b div 16 mod 8 = 0"
    using low3 [of "unat b div 16"] by (simp add: bit div_mult2_eq [symmetric])
  also have "\<dots> \<longleftrightarrow> unat b mod 128 < 16"
    using mod_mult2_eq [of "unat b" 16 8] by auto
  finally show "b AND 0x70 = 0 \<longleftrightarrow> unat b mod 128 < 16" .
qed

lemma or_disjoint_add:
  fixes r :: nat
  assumes "r < 2 ^ k"
  shows "(word_of_nat r OR push_bit k w :: 'a::len word) = word_of_nat r + push_bit k w"
proof -
  have "word_of_nat r AND push_bit k w = (0 :: 'a word)"
  proof (rule bit_word_eqI)
    fix n
    have "\<not> bit r n" if "k \<le> n"
      using assms that by (metis bit_take_bit_iff leD take_bit_nat_eq_self_iff)
    then show "bit (word_of_nat r AND push_bit k w) n = bit (0 :: 'a word) n"
      by (auto simp: bit_simps)
  qed
  from disjunctive_add_eq_or [OF this] show ?thesis by simp
qed

lemma or_low_add: "r * 2 ^ k + m < 2 ^ LENGTH('a) \<Longrightarrow> m < 2 ^ k \<Longrightarrow>
  (push_bit k (word_of_nat r) OR word_of_nat m :: 'a::len word) = word_of_nat (r * 2 ^ k + m)"
proof -
  assume "r * 2 ^ k + m < 2 ^ LENGTH('a)" and m: "m < 2 ^ k"
  have "push_bit k (word_of_nat r) AND word_of_nat m = (0 :: 'a word)"
  proof (rule bit_word_eqI)
    fix n
    have "\<not> bit m n" if "k \<le> n"
      using m that by (metis bit_take_bit_iff leD take_bit_nat_eq_self_iff)
    then show "bit (push_bit k (word_of_nat r) AND word_of_nat m) n = bit (0 :: 'a word) n"
      by (auto simp: bit_simps)
  qed
  from disjunctive_add_eq_or [OF this] show ?thesis by (simp add: push_bit_eq_mult mult.commute)
qed

lemma high_half: "128 \<le> n \<Longrightarrow> n < 256 \<Longrightarrow> n = 128 + n mod (128 :: nat)"
  by (simp add: le_mod_geq)

section \<open>Sequencing\<close>

text \<open>\<^verbatim>\<open>if (!f(state, &x)) return 0;\<close> followed by the rest.\<close>

definition rbind :: "'a option \<times> 's \<Rightarrow> ('a \<Rightarrow> 's \<Rightarrow> 'b option \<times> 's) \<Rightarrow> 'b option \<times> 's" where
  "rbind r k = (case r of (None, s) \<Rightarrow> (None, s) | (Some x, s) \<Rightarrow> k x s)"

lemma rbind_simps [simp]: "rbind (None, s) k = (None, s)" "rbind (Some x, s) k = k x s"
  by (simp_all add: rbind_def)

section \<open>Memory lemmas\<close>

lemma memcpy_at_0 [simp]: "memcpy_at buf 0 xs = xs @ drop (length xs) buf"
  by (simp add: memcpy_at_def)

lemma length_memcpy_at [simp]:
  "i + length xs \<le> length buf \<Longrightarrow> length (memcpy_at buf i xs) = length buf"
  by (simp add: memcpy_at_def)

lemma take_memcpy_at: "i \<le> length buf \<Longrightarrow> take (i + length xs) (memcpy_at buf i xs) = take i buf @ xs"
  by (simp add: memcpy_at_def)

section \<open>Incremental processing\<close>

text \<open>
  Several components take their input in pieces (base64 contexts, digests). The contract they
  share: a state transformer that may fail, whose effect on a concatenation is the composition of
  its effects. A client may then cut the input anywhere.
\<close>

fun run_chunks :: "('s \<Rightarrow> 'a list \<Rightarrow> ('s \<times> 'b list) option) \<Rightarrow> 's \<Rightarrow> 'a list list \<Rightarrow> ('s \<times> 'b list) option" where
  "run_chunks upd s [] = Some (s, [])"
| "run_chunks upd s (c # cs) =
     (case upd s c of None \<Rightarrow> None
      | Some (s1, o1) \<Rightarrow> (case run_chunks upd s1 cs of None \<Rightarrow> None | Some (s2, o2) \<Rightarrow> Some (s2, o1 @ o2)))"

locale chunked =
  fixes inv :: "'s \<Rightarrow> bool"
    and upd :: "'s \<Rightarrow> 'a list \<Rightarrow> ('s \<times> 'b list) option"
  assumes upd_Nil: "inv s \<Longrightarrow> upd s [] = Some (s, [])"
    and upd_append: "inv s \<Longrightarrow> upd s (xs @ ys) =
      (case upd s xs of None \<Rightarrow> None
       | Some (s1, o1) \<Rightarrow> (case upd s1 ys of None \<Rightarrow> None | Some (s2, o2) \<Rightarrow> Some (s2, o1 @ o2)))"
    and inv_upd: "inv s \<Longrightarrow> upd s xs = Some (s', out) \<Longrightarrow> inv s'"
begin

lemma run_chunks_concat: "inv s \<Longrightarrow> run_chunks upd s cs = upd s (concat cs)"
proof (induction cs arbitrary: s)
  case (Cons c cs)
  then show ?case
    by (auto simp: upd_append dest: inv_upd split: option.splits)
qed (simp add: upd_Nil)

lemma run_chunks_inv: "inv s \<Longrightarrow> run_chunks upd s cs = Some (s', out) \<Longrightarrow> inv s'"
  by (simp add: run_chunks_concat inv_upd)

end

section \<open>Prefix codes\<close>

text \<open>
  The contract between a writer and a reader of self-delimiting values: the reader returns the value
  that was written and what follows it. Two consequences hold for every such pair: no encoding is a
  prefix of another one, so a byte string has at most one decomposition, and sequences of values
  can be read back.
\<close>

fun read_many :: "(bytes \<Rightarrow> 'a option \<times> bytes) \<Rightarrow> nat \<Rightarrow> bytes \<Rightarrow> 'a list option \<times> bytes" where
  "read_many dec 0 bs = (Some [], bs)"
| "read_many dec (Suc n) bs = rbind (dec bs) (\<lambda>x bs1. rbind (read_many dec n bs1) (\<lambda>xs bs2. (Some (x # xs), bs2)))"

locale prefix_code =
  fixes ok :: "'a \<Rightarrow> bool" and enc :: "'a \<Rightarrow> bytes" and dec :: "bytes \<Rightarrow> 'a option \<times> bytes"
  assumes dec_enc: "ok x \<Longrightarrow> length (enc x @ rest) < 2 ^ 63 \<Longrightarrow> dec (enc x @ rest) = (Some x, rest)"
begin

lemma prefix_free:
  assumes "ok x" "ok y" "enc x @ r = enc y @ s" "length (enc x @ r) < 2 ^ 63"
  shows "x = y \<and> r = s"
proof -
  have "dec (enc x @ r) = (Some x, r)" "dec (enc x @ r) = (Some y, s)"
    using dec_enc [OF assms(1,4)] dec_enc [OF assms(2), of s] assms(3,4) by simp_all
  then show ?thesis by simp
qed

lemma read_many_enc:
  "list_all ok xs \<Longrightarrow> length (concat (map enc xs) @ rest) < 2 ^ 63 \<Longrightarrow>
   read_many dec (length xs) (concat (map enc xs) @ rest) = (Some xs, rest)"
proof (induction xs)
  case (Cons x xs)
  then have "dec (enc x @ concat (map enc xs) @ rest) = (Some x, concat (map enc xs) @ rest)"
    by (intro dec_enc) auto
  with Cons show ?case by simp
qed simp

end

text \<open>A reader that moreover accepts nothing but encodings: it determines the input it consumed.\<close>

locale canonical_code = prefix_code +
  assumes enc_dec: "length bs < 2 ^ 63 \<Longrightarrow> dec bs = (Some x, rest) \<Longrightarrow> ok x \<and> bs = enc x @ rest"
begin

lemma accepts_iff: "length bs < 2 ^ 63 \<Longrightarrow> dec bs = (Some x, rest) \<longleftrightarrow> ok x \<and> bs = enc x @ rest"
  using dec_enc enc_dec by blast

lemma consumed: "length bs < 2 ^ 63 \<Longrightarrow> dec bs = (Some x, rest) \<Longrightarrow> length bs = length (enc x) + length rest"
  using enc_dec by fastforce

end

section \<open>Operations that may run out of memory\<close>

text \<open>
  The contract of an abstract data type in C whose operations report failure: each operation
  implements a step of a reference type. It may fail although the reference step succeeds only when
  memory is short, and it then marks the object as dead; no operation revives a dead object, so a client may
  check the result at the end only.
\<close>

fun run_ops :: "('op \<Rightarrow> 's \<Rightarrow> bool \<times> 's) \<Rightarrow> 'op list \<Rightarrow> 's \<Rightarrow> bool \<times> 's" where
  "run_ops exec [] s = (True, s)"
| "run_ops exec (x # xs) s = (case exec x s of (ok, s') \<Rightarrow> if ok then run_ops exec xs s' else (False, s'))"

fun run_all :: "('op \<Rightarrow> 's \<Rightarrow> bool \<times> 's) \<Rightarrow> 'op list \<Rightarrow> 's \<Rightarrow> 's" where
  "run_all exec [] s = s"
| "run_all exec (x # xs) s = run_all exec xs (snd (exec x s))"

fun run_spec :: "('op \<Rightarrow> 'a \<Rightarrow> 'a option) \<Rightarrow> 'op list \<Rightarrow> 'a \<Rightarrow> 'a option" where
  "run_spec spec [] a = Some a"
| "run_spec spec (x # xs) a = Option.bind (spec x a) (run_spec spec xs)"

locale fallible_refinement =
  fixes rel :: "'s \<Rightarrow> 'a \<Rightarrow> bool" and exec :: "'op \<Rightarrow> 's \<Rightarrow> bool \<times> 's" and spec :: "'op \<Rightarrow> 'a \<Rightarrow> 'a option"
    and valid :: "'op \<Rightarrow> bool" and ample dead :: "'s \<Rightarrow> bool"
  assumes step_True: "valid x \<Longrightarrow> rel s a \<Longrightarrow> exec x s = (True, s') \<Longrightarrow>
      \<exists>a'. spec x a = Some a' \<and> rel s' a' \<and> ample s' = ample s"
    and step_False: "valid x \<Longrightarrow> rel s a \<Longrightarrow> exec x s = (False, s') \<Longrightarrow> spec x a = None \<or> dead s' \<and> \<not> ample s"
    and step_dead: "dead s \<Longrightarrow> dead (snd (exec x s))"
begin

lemma run_True:
  "list_all valid xs \<Longrightarrow> rel s a \<Longrightarrow> run_ops exec xs s = (True, s') \<Longrightarrow>
     \<exists>a'. run_spec spec xs a = Some a' \<and> rel s' a' \<and> ample s' = ample s"
proof (induction xs arbitrary: s a)
  case (Cons x xs)
  then obtain s1 where s1: "exec x s = (True, s1)" "run_ops exec xs s1 = (True, s')" by (auto split: prod.splits if_splits)
  from step_True [OF _ Cons.prems(2) s1(1)] Cons.prems(1)
  obtain a1 where "spec x a = Some a1" "rel s1 a1" "ample s1 = ample s" by auto
  with Cons.IH [OF _ this(2) s1(2)] Cons.prems(1) show ?case by auto
qed auto

lemma run_False:
  "list_all valid xs \<Longrightarrow> rel s a \<Longrightarrow> run_ops exec xs s = (False, s') \<Longrightarrow>
     run_spec spec xs a = None \<or> dead s' \<and> \<not> ample s"
proof (induction xs arbitrary: s a)
  case (Cons x xs)
  obtain ok s1 where s1: "exec x s = (ok, s1)" by (cases "exec x s")
  show ?case
  proof (cases ok)
    case True
    with step_True [OF _ Cons.prems(2), of x s1] Cons.prems(1) s1
    obtain a1 where "spec x a = Some a1" "rel s1 a1" "ample s1 = ample s" by auto
    with Cons.IH [OF _ this(2)] Cons.prems(1,3) s1 True show ?thesis by auto
  next
    case False
    with step_False [OF _ Cons.prems(2), of x s1] Cons.prems(1,3) s1 show ?thesis by auto
  qed
qed simp

lemma run_ample:
  assumes "list_all valid xs" "rel s a" "ample s"
  shows "fst (run_ops exec xs s) \<longleftrightarrow> run_spec spec xs a \<noteq> None"
proof (cases "run_ops exec xs s")
  case (Pair ok s')
  then show ?thesis using run_True [OF assms(1,2)] run_False [OF assms(1,2)] assms(3) by (cases ok) auto
qed

lemma run_dead: "dead s \<Longrightarrow> dead (run_all exec xs s)"
  by (induction xs arbitrary: s) (auto dest: step_dead)

text \<open>Results may be ignored: the state at the end tells whether memory ran short on the way.\<close>

lemma run_all_checked:
  "list_all valid xs \<Longrightarrow> rel s a \<Longrightarrow> run_spec spec xs a = Some a' \<Longrightarrow> \<not> dead (run_all exec xs s) \<Longrightarrow>
     rel (run_all exec xs s) a'"
proof (induction xs arbitrary: s a)
  case (Cons x xs)
  obtain ok s1 where s1: "exec x s = (ok, s1)" by (cases "exec x s")
  obtain a1 where a1: "spec x a = Some a1" "run_spec spec xs a1 = Some a'"
    using Cons.prems(3) by (auto simp: bind_eq_Some_conv)
  have "\<not> dead s1" using Cons.prems(4) run_dead s1 by auto
  then have ok using step_False [OF _ Cons.prems(2), of x s1] Cons.prems(1) s1 a1 by (cases ok) auto
  with step_True [OF _ Cons.prems(2), of x s1] Cons.prems(1) s1 a1(1) have "rel s1 a1" by auto
  with Cons.IH [OF _ this a1(2)] Cons.prems(1,4) s1 show ?case by simp
qed simp

end

end
