(* ===== verification/Constant_Time.thy ===== *)
theory Constant_Time
  imports Prelude
begin

text \<open>
  The branch-free primitives of \<^verbatim>\<open>BoringSSL-GRPC/src/crypto/internal.h\<close>. A mask is all ones for
  true and zero for false; the lemmas give each primitive the value of the comparison that the
  comment above it promises. The model takes the 64-bit build, so \<open>crypto_word_t\<close> is \<open>u64\<close>.
\<close>

type_synonym crypto_word_t = "64 word"

definition CONSTTIME_TRUE_W :: crypto_word_t where
  "CONSTTIME_TRUE_W = NOT 0"

definition CONSTTIME_FALSE_W :: crypto_word_t where
  "CONSTTIME_FALSE_W = 0"

definition value_barrier_w :: "crypto_word_t \<Rightarrow> crypto_word_t" where
  "value_barrier_w a = a"

definition constant_time_msb_w :: "crypto_word_t \<Rightarrow> crypto_word_t" where
  "constant_time_msb_w a = 0 - drop_bit (8 * 8 - 1) a"

definition constant_time_lt_w :: "crypto_word_t \<Rightarrow> crypto_word_t \<Rightarrow> crypto_word_t" where
  "constant_time_lt_w a b = constant_time_msb_w (a XOR ((a XOR b) OR ((a - b) XOR a)))"

definition constant_time_lt_8 :: "crypto_word_t \<Rightarrow> crypto_word_t \<Rightarrow> u8" where
  "constant_time_lt_8 a b = ucast (constant_time_lt_w a b)"

definition constant_time_ge_w :: "crypto_word_t \<Rightarrow> crypto_word_t \<Rightarrow> crypto_word_t" where
  "constant_time_ge_w a b = NOT (constant_time_lt_w a b)"

definition constant_time_ge_8 :: "crypto_word_t \<Rightarrow> crypto_word_t \<Rightarrow> u8" where
  "constant_time_ge_8 a b = ucast (constant_time_ge_w a b)"

definition constant_time_is_zero_w :: "crypto_word_t \<Rightarrow> crypto_word_t" where
  "constant_time_is_zero_w a = constant_time_msb_w (NOT a AND (a - 1))"

definition constant_time_is_zero_8 :: "crypto_word_t \<Rightarrow> u8" where
  "constant_time_is_zero_8 a = ucast (constant_time_is_zero_w a)"

definition constant_time_eq_w :: "crypto_word_t \<Rightarrow> crypto_word_t \<Rightarrow> crypto_word_t" where
  "constant_time_eq_w a b = constant_time_is_zero_w (a XOR b)"

definition constant_time_eq_8 :: "crypto_word_t \<Rightarrow> crypto_word_t \<Rightarrow> u8" where
  "constant_time_eq_8 a b = ucast (constant_time_eq_w a b)"

text \<open>The casts from \<open>int\<close> sign-extend to the word.\<close>

definition constant_time_eq_int :: "32 word \<Rightarrow> 32 word \<Rightarrow> crypto_word_t" where
  "constant_time_eq_int a b = constant_time_eq_w (scast a) (scast b)"

definition constant_time_eq_int_8 :: "32 word \<Rightarrow> 32 word \<Rightarrow> u8" where
  "constant_time_eq_int_8 a b = constant_time_eq_8 (scast a) (scast b)"

definition constant_time_select_w ::
    "crypto_word_t \<Rightarrow> crypto_word_t \<Rightarrow> crypto_word_t \<Rightarrow> crypto_word_t" where
  "constant_time_select_w m a b =
     (value_barrier_w m AND a) OR (value_barrier_w (NOT m) AND b)"

definition constant_time_select_8 :: "u8 \<Rightarrow> u8 \<Rightarrow> u8 \<Rightarrow> u8" where
  "constant_time_select_8 m a b =
     ucast (constant_time_select_w (ucast m) (ucast a) (ucast b))"

definition constant_time_select_int :: "crypto_word_t \<Rightarrow> 32 word \<Rightarrow> 32 word \<Rightarrow> 32 word" where
  "constant_time_select_int m a b =
     ucast (constant_time_select_w m (scast a) (scast b))"

section \<open>Masks and truth values\<close>

text \<open>The mask that stands for a truth value, at word and at byte width.\<close>

definition mask_w :: "bool \<Rightarrow> crypto_word_t" where
  "mask_w p = (if p then CONSTTIME_TRUE_W else CONSTTIME_FALSE_W)"

definition mask_8 :: "bool \<Rightarrow> u8" where
  "mask_8 p = (if p then - 1 else 0)"

lemma bit_63_iff_unat: "bit (a :: u64) 63 \<longleftrightarrow> 2 ^ 63 \<le> unat a"
proof -
  have "bit a 63 \<longleftrightarrow> odd (unat a div 2 ^ 63)"
    using bit_unsigned_iff [of a 63, where ?'a = nat] by (simp add: bit_iff_odd)
  moreover have "unat a div 2 ^ 63 < 2"
    using unat_lt_u64 [of a] by (simp add: less_mult_imp_div_less)
  moreover have "2 ^ 63 \<le> unat a \<longleftrightarrow> 1 \<le> unat a div 2 ^ 63"
    by (simp add: Suc_le_eq div_greater_zero_iff)
  ultimately show ?thesis
    by (cases "unat a div 2 ^ 63 = 0") (auto simp: less_2_cases_iff)
qed

lemma msb_w_mask [ct_simps]: "constant_time_msb_w a = mask_w (bit a 63)"
proof -
  have "drop_bit 63 a = of_bool (bit a 63)"
    proof (rule bit_word_eqI)
    fix n :: nat
    show "bit (drop_bit 63 a) n = bit (of_bool (bit a 63) :: u64) n"
      by (cases n) (auto simp: bit_simps dest: bit_imp_le_length)
  qed
  then show ?thesis
    by (simp add: constant_time_msb_w_def mask_w_def CONSTTIME_TRUE_W_def CONSTTIME_FALSE_W_def)
qed

lemma lt_w_mask [ct_simps]: "constant_time_lt_w a b = mask_w (a < b)"
proof -
  have "bit (a XOR ((a XOR b) OR ((a - b) XOR a))) 63 \<longleftrightarrow>
      (if bit a 63 = bit b 63 then bit (a - b) 63 else bit b 63)"
    by (auto simp: bit_simps)
  also have "\<dots> \<longleftrightarrow> a < b"
    using unat_lt_u64 [of a] unat_lt_u64 [of b]
    by (auto simp: bit_63_iff_unat word_less_nat_alt unat_sub_if')
  finally show ?thesis
    by (simp add: constant_time_lt_w_def msb_w_mask)
qed

lemma ge_w_mask [ct_simps]: "constant_time_ge_w a b = mask_w (b \<le> a)"
  by (auto simp: constant_time_ge_w_def lt_w_mask mask_w_def CONSTTIME_TRUE_W_def CONSTTIME_FALSE_W_def not_le)

lemma is_zero_w_mask [ct_simps]: "constant_time_is_zero_w a = mask_w (a = 0)"
proof -
  have "bit (NOT a AND (a - 1)) 63 \<longleftrightarrow> \<not> bit a 63 \<and> bit (a - 1) 63"
    by (auto simp: bit_simps)
  also have "\<dots> \<longleftrightarrow> a = 0"
    using unat_lt_u64 [of a]
    by (auto simp: bit_63_iff_unat unat_sub_if' word_unat_eq_iff)
  finally show ?thesis
    by (simp add: constant_time_is_zero_w_def msb_w_mask)
qed

lemma eq_w_mask [ct_simps]: "constant_time_eq_w a b = mask_w (a = b)"
proof -
  have "a XOR b = 0 \<longleftrightarrow> a = b"
    by (auto simp: bit_eq_iff bit_simps)
  then show ?thesis by (simp add: constant_time_eq_w_def is_zero_w_mask)
qed

lemma ucast_mask_w [ct_simps]: "(ucast (mask_w p) :: u8) = mask_8 p"
  by (auto simp: mask_w_def mask_8_def CONSTTIME_TRUE_W_def CONSTTIME_FALSE_W_def bit_simps intro!: bit_word_eqI)

lemma select_w_mask [ct_simps]: "constant_time_select_w (mask_w p) a b = (if p then a else b)"
  by (simp add: constant_time_select_w_def mask_w_def value_barrier_w_def CONSTTIME_TRUE_W_def CONSTTIME_FALSE_W_def)

lemma select_8_mask [ct_simps]: "constant_time_select_8 (mask_8 p) a b = (if p then a else b)"
  by (rule bit_word_eqI)
    (auto simp: constant_time_select_8_def constant_time_select_w_def value_barrier_w_def mask_8_def bit_simps)

lemma select_int_mask [ct_simps]: "constant_time_select_int (mask_w p) a b = (if p then a else b)"
  by (rule bit_word_eqI) (auto simp: constant_time_select_int_def select_w_mask bit_simps)

lemma mask_8_and [ct_simps]: "mask_8 p AND a = (if p then a else 0)"
  by (simp add: mask_8_def)

lemma mask_8_or [ct_simps]: "mask_8 p OR mask_8 q = mask_8 (p \<or> q)"
  by (simp add: mask_8_def)

lemma mask_8_not [ct_simps]: "NOT (mask_8 p) = mask_8 (\<not> p)"
  by (simp add: mask_8_def)

lemma lt_8_mask [ct_simps]: "constant_time_lt_8 a b = mask_8 (a < b)"
  by (simp add: constant_time_lt_8_def ct_simps)

lemma ge_8_mask [ct_simps]: "constant_time_ge_8 a b = mask_8 (b \<le> a)"
  by (simp add: constant_time_ge_8_def ct_simps)

lemma is_zero_8_mask [ct_simps]: "constant_time_is_zero_8 a = mask_8 (a = 0)"
  by (simp add: constant_time_is_zero_8_def ct_simps)

lemma eq_8_mask [ct_simps]: "constant_time_eq_8 a b = mask_8 (a = b)"
  by (simp add: constant_time_eq_8_def ct_simps)

lemma scast_u32_inj: "(scast (a :: 32 word) :: u64) = scast b \<longleftrightarrow> a = b"
proof
  assume eq: "(scast a :: u64) = scast b"
  show "a = b"
  proof (rule bit_word_eqI)
    fix n assume "n < LENGTH(32)"
    with eq show "bit a n = bit b n"
      by (auto simp: bit_simps dest!: arg_cong [where f = "\<lambda>w. bit w n"])
  qed
qed simp

lemma eq_int_mask [ct_simps]: "constant_time_eq_int a b = mask_w (a = b)"
  by (simp add: constant_time_eq_int_def ct_simps scast_u32_inj)

lemma eq_int_8_mask [ct_simps]: "constant_time_eq_int_8 a b = mask_8 (a = b)"
  by (simp add: constant_time_eq_int_8_def ct_simps scast_u32_inj)

end
