(* ===== verification/Base64.thy ===== *)
theory Base64
  imports Constant_Time
begin

text \<open>
  \<^verbatim>\<open>BoringSSL-GRPC/src/crypto/base64/base64.c\<close>: the block encoder and decoder, the two length
  functions, and the streaming interface over \<open>EVP_ENCODE_CTX\<close>. A buffer the C code fills is the
  list of the bytes it writes, in order; input pointers with a length are byte lists.
\<close>

section \<open>Constant-time helpers and the alphabet\<close>

definition constant_time_lt_args_8 :: "u8 \<Rightarrow> u8 \<Rightarrow> u8" where
  "constant_time_lt_args_8 a b =
     (let aw = ucast a :: crypto_word_t; bw = ucast b in ucast (constant_time_msb_w (aw - bw)))"

definition constant_time_in_range_8 :: "u8 \<Rightarrow> u8 \<Rightarrow> u8 \<Rightarrow> u8" where
  "constant_time_in_range_8 a lo hi = constant_time_lt_args_8 (a - lo) (hi - lo + 1)"

definition conv_bin2ascii :: "u8 \<Rightarrow> u8" where
  "conv_bin2ascii a0 =
     (let a = a0 AND 0x3f;
          ret = constant_time_select_8 (constant_time_eq_8 (ucast a) 62) 43 47;
          ret = constant_time_select_8 (constant_time_lt_args_8 a 62) (a - 52 + 48) ret;
          ret = constant_time_select_8 (constant_time_lt_args_8 a 52) (a - 26 + 97) ret;
          ret = constant_time_select_8 (constant_time_lt_args_8 a 26) (a + 65) ret
      in ret)"

definition base64_ascii_to_bin :: "u8 \<Rightarrow> u8" where
  "base64_ascii_to_bin a =
     (let is_upper = constant_time_in_range_8 a 65 90;
          is_lower = constant_time_in_range_8 a 97 122;
          is_digit = constant_time_in_range_8 a 48 57;
          is_plus = constant_time_eq_8 (ucast a) 43;
          is_slash = constant_time_eq_8 (ucast a) 47;
          is_equals = constant_time_eq_8 (ucast a) 61;
          ret = 0;
          ret = ret OR (is_upper AND (a - 65));
          ret = ret OR (is_lower AND (a - 97 + 26));
          ret = ret OR (is_digit AND (a - 48 + 52));
          ret = ret OR (is_plus AND 62);
          ret = ret OR (is_slash AND 63);
          is_valid = is_upper OR is_lower OR is_digit OR is_plus OR is_slash OR is_equals
      in ret OR NOT is_valid)"

section \<open>Encoding\<close>

definition EVP_EncodedLength :: "u64 \<Rightarrow> u64 option" where
  "EVP_EncodedLength len0 =
     (if len0 + 2 < len0 then None
      else let len = (len0 + 2) div 3 in
        if drop_bit 2 (push_bit 2 len) \<noteq> len then None
        else let len = push_bit 2 len in
          if len + 1 < len then None else Some (len + 1))"

text \<open>The loop of \<open>EVP_EncodeBlock\<close>: three source bytes per turn, the last turn padded.\<close>

fun EVP_EncodeBlock_loop :: "bytes \<Rightarrow> bytes" where
  "EVP_EncodeBlock_loop [] = []"
| "EVP_EncodeBlock_loop [s0] =
     (let l = push_bit 16 (ucast s0 :: u32) in
      [conv_bin2ascii (ucast (drop_bit 18 l)), conv_bin2ascii (ucast (drop_bit 12 l)), 61, 61])"
| "EVP_EncodeBlock_loop [s0, s1] =
     (let l = push_bit 16 (ucast s0 :: u32); l = l OR push_bit 8 (ucast s1) in
      [conv_bin2ascii (ucast (drop_bit 18 l)), conv_bin2ascii (ucast (drop_bit 12 l)),
       conv_bin2ascii (ucast (drop_bit 6 l)), 61])"
| "EVP_EncodeBlock_loop (s0 # s1 # s2 # src) =
     (let l = push_bit 16 (ucast s0 :: u32) OR push_bit 8 (ucast s1) OR ucast s2 in
      [conv_bin2ascii (ucast (drop_bit 18 l)), conv_bin2ascii (ucast (drop_bit 12 l)),
       conv_bin2ascii (ucast (drop_bit 6 l)), conv_bin2ascii (ucast l)]
      @ EVP_EncodeBlock_loop src)"

text \<open>What \<open>EVP_EncodeBlock\<close> stores at \<open>dst\<close>, the terminating NUL included, and what it returns.\<close>

definition EVP_EncodeBlock :: "bytes \<Rightarrow> bytes \<times> nat" where
  "EVP_EncodeBlock src = (let d = EVP_EncodeBlock_loop src in (d @ [0], length d))"

record EVP_ENCODE_CTX =
  data_used :: nat
  ctx_data :: bytes
  eof_seen :: bool
  error_encountered :: bool

definition EVP_EncodeInit :: EVP_ENCODE_CTX where
  "EVP_EncodeInit = \<lparr>data_used = 0, ctx_data = replicate 48 0, eof_seen = False, error_encountered = False\<rparr>"

definition INT_MAX :: nat where
  "INT_MAX = 2147483647"

text \<open>
  The loop of \<open>EVP_EncodeUpdate\<close> over full 48-byte lines. The result is the rest of the input,
  the output so far without its trailing NUL, the running total, and whether the overflow return
  was taken.
\<close>

function EVP_EncodeUpdate_loop :: "bytes \<Rightarrow> bytes \<Rightarrow> u64 \<Rightarrow> bytes \<times> bytes \<times> u64 \<times> bool" where
  "EVP_EncodeUpdate_loop inp out tot =
     (if 48 \<le> length inp then
        let (d, encoded) = EVP_EncodeBlock (take 48 inp);
            out' = out @ take encoded d @ [10];
            e1 = word_of_nat encoded + 1
        in if tot + e1 < tot then (drop 48 inp, out', tot, True)
           else EVP_EncodeUpdate_loop (drop 48 inp) out' (tot + e1)
      else (inp, out, tot, False))"
  by pat_completeness auto
termination
  by (relation "measure (\<lambda>(inp, out, tot). length inp)") auto

text \<open>The result of an update: the new context, the bytes stored at \<open>out\<close>, and \<open>*out_len\<close>.\<close>

definition EVP_EncodeUpdate :: "EVP_ENCODE_CTX \<Rightarrow> bytes \<Rightarrow> EVP_ENCODE_CTX \<times> bytes \<times> nat" where
  "EVP_EncodeUpdate ctx inp =
     (if inp = [] then (ctx, [], 0)
      else if length inp < 48 - data_used ctx then
        (ctx\<lparr>ctx_data := memcpy_at (ctx_data ctx) (data_used ctx) inp,
             data_used := data_used ctx + length inp\<rparr>, [], 0)
      else
        let todo = 48 - data_used ctx;
            (ctx1, inp1, out1, total1) =
              (if data_used ctx \<noteq> 0 then
                 let d = memcpy_at (ctx_data ctx) (data_used ctx) (take todo inp);
                     (blk, encoded) = EVP_EncodeBlock d
                 in (ctx\<lparr>ctx_data := d, data_used := 0\<rparr>, drop todo inp,
                     take encoded blk @ [10], word_of_nat (encoded + 1))
               else (ctx, inp, [], 0));
            (inp2, out2, total2, overflow) = EVP_EncodeUpdate_loop inp1 out1 total1
        in if overflow then (ctx1, out2 @ [0], 0)
           else
             let ctx2 = (if inp2 \<noteq> [] then ctx1\<lparr>ctx_data := memcpy_at (ctx_data ctx1) 0 inp2\<rparr> else ctx1);
                 ctx3 = ctx2\<lparr>data_used := length inp2\<rparr>;
                 total3 = (if INT_MAX < unat total2 then 0 else total2)
             in (ctx3, (if out2 = [] then [] else out2 @ [0]), unat total3))"

definition EVP_EncodeFinal :: "EVP_ENCODE_CTX \<Rightarrow> EVP_ENCODE_CTX \<times> bytes \<times> nat" where
  "EVP_EncodeFinal ctx =
     (if data_used ctx = 0 then (ctx, [], 0)
      else
        let (blk, encoded) = EVP_EncodeBlock (take (data_used ctx) (ctx_data ctx))
        in (ctx\<lparr>data_used := 0\<rparr>, take encoded blk @ [10, 0], encoded + 1))"

section \<open>Decoding\<close>

definition EVP_DecodedLength :: "u64 \<Rightarrow> u64 option" where
  "EVP_DecodedLength len = (if len mod 4 \<noteq> 0 then None else Some (len div 4 * 3))"

definition EVP_DecodeInit :: EVP_ENCODE_CTX where
  "EVP_DecodeInit = \<lparr>data_used = 0, ctx_data = replicate 48 0, eof_seen = False, error_encountered = False\<rparr>"

text \<open>One quad of characters; \<open>None\<close> is the return value zero.\<close>

definition base64_decode_quad :: "u8 \<Rightarrow> u8 \<Rightarrow> u8 \<Rightarrow> u8 \<Rightarrow> bytes option" where
  "base64_decode_quad in0 in1 in2 in3 =
     (let a = base64_ascii_to_bin in0; b = base64_ascii_to_bin in1;
          c = base64_ascii_to_bin in2; d = base64_ascii_to_bin in3
      in if a = 0xff \<or> b = 0xff \<or> c = 0xff \<or> d = 0xff then None
         else
           let v = push_bit 18 (ucast a :: u32) OR push_bit 12 (ucast b) OR push_bit 6 (ucast c) OR ucast d;
               padding_pattern = push_bit 3 (of_bool (in0 = 61) :: u32) OR push_bit 2 (of_bool (in1 = 61))
                 OR push_bit 1 (of_bool (in2 = 61)) OR of_bool (in3 = 61)
           in if padding_pattern = 0 then
                Some [ucast (drop_bit 16 v), ucast (drop_bit 8 v), ucast v]
              else if padding_pattern = 1 then Some [ucast (drop_bit 16 v), ucast (drop_bit 8 v)]
              else if padding_pattern = 3 then Some [ucast (drop_bit 16 v)]
              else None)"

definition is_base64_space :: "u8 \<Rightarrow> bool" where
  "is_base64_space c \<longleftrightarrow> c = 32 \<or> c = 9 \<or> c = 13 \<or> c = 10"

text \<open>
  One turn of the loop of \<open>EVP_DecodeUpdate\<close>, for the character \<open>c\<close>: \<open>Inl\<close> is the return with
  \<open>-1\<close>, \<open>Inr\<close> the new context and the bytes stored in this turn.
\<close>

definition EVP_DecodeUpdate_char :: "EVP_ENCODE_CTX \<Rightarrow> u8 \<Rightarrow> EVP_ENCODE_CTX + (EVP_ENCODE_CTX \<times> bytes)" where
  "EVP_DecodeUpdate_char ctx c =
     (if is_base64_space c then Inr (ctx, [])
      else if eof_seen ctx then Inl (ctx\<lparr>error_encountered := True\<rparr>)
      else
        let ctx1 = ctx\<lparr>ctx_data := (ctx_data ctx)[data_used ctx := c], data_used := data_used ctx + 1\<rparr>
        in if data_used ctx1 = 4 then
             let d = ctx_data ctx1 in
             case base64_decode_quad (d ! 0) (d ! 1) (d ! 2) (d ! 3) of
               None \<Rightarrow> Inl (ctx1\<lparr>error_encountered := True\<rparr>)
             | Some bs \<Rightarrow>
                 let ctx2 = ctx1\<lparr>data_used := 0\<rparr>
                 in Inr (if length bs < 3 then ctx2\<lparr>eof_seen := True\<rparr> else ctx2, bs)
           else Inr (ctx1, []))"

fun EVP_DecodeUpdate_loop :: "EVP_ENCODE_CTX \<Rightarrow> bytes \<Rightarrow> bytes \<Rightarrow>
    (EVP_ENCODE_CTX \<times> bytes) + (EVP_ENCODE_CTX \<times> bytes)" where
  "EVP_DecodeUpdate_loop ctx out [] = Inr (ctx, out)"
| "EVP_DecodeUpdate_loop ctx out (c # cs) =
     (case EVP_DecodeUpdate_char ctx c of
        Inl ctx' \<Rightarrow> Inl (ctx', out)
      | Inr (ctx', bs) \<Rightarrow> EVP_DecodeUpdate_loop ctx' (out @ bs) cs)"

text \<open>The result of a decoder update: the return value, \<open>*out_len\<close>, the bytes stored, the context.\<close>

definition EVP_DecodeUpdate :: "EVP_ENCODE_CTX \<Rightarrow> bytes \<Rightarrow> int \<times> nat \<times> bytes \<times> EVP_ENCODE_CTX" where
  "EVP_DecodeUpdate ctx inp =
     (if error_encountered ctx then (-1, 0, [], ctx)
      else case EVP_DecodeUpdate_loop ctx [] inp of
        Inl (ctx', out) \<Rightarrow> (-1, 0, out, ctx')
      | Inr (ctx', out) \<Rightarrow>
          if INT_MAX < length out then (-1, 0, out, ctx'\<lparr>error_encountered := True\<rparr>)
          else (if eof_seen ctx' then 0 else 1, length out, out, ctx'))"

definition EVP_DecodeFinal :: "EVP_ENCODE_CTX \<Rightarrow> int \<times> nat" where
  "EVP_DecodeFinal ctx = (if error_encountered ctx \<or> data_used ctx \<noteq> 0 then (-1, 0) else (1, 0))"

text \<open>The loop of \<open>EVP_DecodeBase64\<close>: \<open>Inl\<close> carries what was stored before the failing return.\<close>

fun EVP_DecodeBase64_loop :: "bytes \<Rightarrow> bytes \<Rightarrow> bytes + bytes" where
  "EVP_DecodeBase64_loop out (i0 # i1 # i2 # i3 # inp) =
     (case base64_decode_quad i0 i1 i2 i3 of
        None \<Rightarrow> Inl out
      | Some bs \<Rightarrow>
          if length bs \<noteq> 3 \<and> inp \<noteq> [] then Inl (out @ bs)
          else EVP_DecodeBase64_loop (out @ bs) inp)"
| "EVP_DecodeBase64_loop out _ = Inr out"

text \<open>Whether it succeeds, \<open>*out_len\<close>, and the bytes stored at \<open>out\<close>.\<close>

definition EVP_DecodeBase64 :: "nat \<Rightarrow> bytes \<Rightarrow> bool \<times> nat \<times> bytes" where
  "EVP_DecodeBase64 max_out inp =
     (if length inp mod 4 \<noteq> 0 then (False, 0, [])
      else case EVP_DecodedLength (word_of_nat (length inp)) of
        None \<Rightarrow> (False, 0, [])
      | Some max_len \<Rightarrow>
          if max_out < unat max_len then (False, 0, [])
          else case EVP_DecodeBase64_loop [] inp of
            Inl out \<Rightarrow> (False, 0, out)
          | Inr out \<Rightarrow> (True, length out, out))"

text \<open>The trims at both ends, and the padding with NULs up to a multiple of three.\<close>

definition trim_base64_line :: "bytes \<Rightarrow> bytes" where
  "trim_base64_line src =
     rev (dropWhile is_base64_space (rev (dropWhile (\<lambda>c. c = 32 \<or> c = 9) src)))"

function pad_to_multiple_of_3 :: "bytes \<Rightarrow> bytes" where
  "pad_to_multiple_of_3 dst =
     (if length dst mod 3 = 0 then dst else pad_to_multiple_of_3 (dst @ [0]))"
  by pat_completeness auto
termination
  by (relation "measure (\<lambda>dst. (3 - length dst mod 3) mod 3)") (auto simp: mod_Suc)

definition EVP_DecodeBlock :: "bytes \<Rightarrow> int \<times> bytes" where
  "EVP_DecodeBlock src0 =
     (let src = trim_base64_line src0 in
      case EVP_DecodedLength (word_of_nat (length src)) of
        None \<Rightarrow> (-1, [])
      | Some dst_len \<Rightarrow>
          if INT_MAX < unat dst_len then (-1, [])
          else let (ok, out_len, out) = EVP_DecodeBase64 (unat dst_len) src in
            if \<not> ok then (-1, out)
            else let dst = pad_to_multiple_of_3 out in (int (length dst), dst))"

section \<open>Reference functions and invariants\<close>

text \<open>The alphabet of RFC 4648, as the reference for the branch-free lookups.\<close>

definition base64_alphabet :: bytes where
  "base64_alphabet = map (\<lambda>n. word_of_nat (n + 65)) [0..<26] @ map (\<lambda>n. word_of_nat (n + 97)) [0..<26]
     @ map (\<lambda>n. word_of_nat (n + 48)) [0..<10] @ [43, 47]"

text \<open>
  The reference for the streaming encoder: a line per 48 bytes. The context of an encoder holds the
  bytes not yet emitted; a decoder's context holds fewer than four characters.
\<close>

function base64_lines :: "bytes \<Rightarrow> bytes" where
  "base64_lines s = (if s = [] then [] else EVP_EncodeBlock_loop (take 48 s) @ [10] @ base64_lines (drop 48 s))"
  by pat_completeness auto
termination
  by (relation "measure length") auto

declare base64_lines.simps [simp del] EVP_EncodeUpdate_loop.simps [simp del]

definition encode_ctx_ok :: "EVP_ENCODE_CTX \<Rightarrow> bool" where
  "encode_ctx_ok ctx \<longleftrightarrow> data_used ctx < 48 \<and> length (ctx_data ctx) = 48"

definition pending :: "EVP_ENCODE_CTX \<Rightarrow> bytes" where
  "pending ctx = take (data_used ctx) (ctx_data ctx)"

text \<open>A caller of the encoder: one update per piece, then the final call; it keeps \<open>*out_len\<close> bytes of each.\<close>

fun encode_chunks :: "EVP_ENCODE_CTX \<Rightarrow> bytes list \<Rightarrow> bytes" where
  "encode_chunks ctx [] = (let (_, out, n) = EVP_EncodeFinal ctx in take n out)"
| "encode_chunks ctx (c # cs) = (let (ctx', out, n) = EVP_EncodeUpdate ctx c in take n out @ encode_chunks ctx' cs)"

definition decode_ctx_ok :: "EVP_ENCODE_CTX \<Rightarrow> bool" where
  "decode_ctx_ok ctx \<longleftrightarrow> data_used ctx < 4 \<and> length (ctx_data ctx) = 48"

definition between_quads :: "EVP_ENCODE_CTX \<Rightarrow> bool" where
  "between_quads ctx \<longleftrightarrow> data_used ctx = 0 \<and> length (ctx_data ctx) = 48 \<and> \<not> error_encountered ctx"

text \<open>A caller of the decoder: one update per piece, then the final call; \<open>None\<close> on any \<open>-1\<close>.\<close>

fun decode_chunks :: "EVP_ENCODE_CTX \<Rightarrow> bytes list \<Rightarrow> bytes option" where
  "decode_chunks ctx [] = (if fst (EVP_DecodeFinal ctx) = 1 then Some [] else None)"
| "decode_chunks ctx (c # cs) =
     (let (r, n, out, ctx') = EVP_DecodeUpdate ctx c in
      if r = -1 then None else map_option ((@) (take n out)) (decode_chunks ctx' cs))"

definition decode_upd :: "EVP_ENCODE_CTX \<Rightarrow> bytes \<Rightarrow> (EVP_ENCODE_CTX \<times> bytes) option" where
  "decode_upd ctx inp = (case EVP_DecodeUpdate_loop ctx [] inp of Inl _ \<Rightarrow> None | Inr r \<Rightarrow> Some r)"

section \<open>The alphabet and single quads\<close>

lemma lt_args_8_mask [ct_simps]: "constant_time_lt_args_8 a b = mask_8 (a < b)"
proof -
  have "bit (ucast a - ucast b :: u64) 63 \<longleftrightarrow> a < b"
    using unat_lt_u8 [of a] unat_lt_u8 [of b]
    by (auto simp: bit_63_iff_unat word_less_nat_alt unat_sub_if')
  then show ?thesis
    by (simp add: constant_time_lt_args_8_def Let_def ct_simps)
qed

lemma and_63_take_bit: "(a :: u8) AND 63 = take_bit 6 a"
  by (simp add: take_bit_eq_mask mask_eq_exp_minus_1)

lemma take_bit_6_less: "take_bit 6 (a :: u8) < 64"
  using take_bit_nat_less_exp [of 6 "unat a"]
  by (simp only: word_less_nat_alt unsigned_take_bit_eq unat_numeral) simp

lemma conv_bin2ascii_cases:
  "conv_bin2ascii a0 =
     (let a = take_bit 6 a0 in
      if a < 26 then a + 65 else if a < 52 then a + 71 else if a < 62 then a - 4
      else if a = 62 then 43 else 47)"
proof -
  have "(ucast (take_bit 6 a0) :: u64) = 62 \<longleftrightarrow> take_bit 6 a0 = 62"
    using word_unat_eq_iff[of "ucast (take_bit 6 a0) :: u64" 62]
    by (simp add: word_unat_eq_iff)
  then show ?thesis
  by (simp add: conv_bin2ascii_def Let_def ct_simps and_63_take_bit)
qed

lemma base64_ascii_to_bin_cases:
  "base64_ascii_to_bin a =
     (if 65 \<le> a \<and> a \<le> 90 then a - 65 else if 97 \<le> a \<and> a \<le> 122 then a - 71
      else if 48 \<le> a \<and> a \<le> 57 then a + 4 else if a = 43 then 62 else if a = 47 then 63
      else if a = 61 then 0 else 255)"
proof -
  have r: "constant_time_in_range_8 a 65 90 = mask_8 (65 \<le> a \<and> a \<le> 90)"
    "constant_time_in_range_8 a 97 122 = mask_8 (97 \<le> a \<and> a \<le> 122)"
    "constant_time_in_range_8 a 48 57 = mask_8 (48 \<le> a \<and> a \<le> 57)"
    using unat_lt_u8 [of a]
    by (auto simp: constant_time_in_range_8_def ct_simps word_less_nat_alt word_le_nat_alt unat_sub_if' intro!: arg_cong [where f = mask_8])
  have e: "(ucast a :: u64) = 43 \<longleftrightarrow> a = 43" "(ucast a :: u64) = 47 \<longleftrightarrow> a = 47" "(ucast a :: u64) = 61 \<longleftrightarrow> a = 61"
    by (simp_all add: word_unat_eq_iff)
  show ?thesis
    unfolding base64_ascii_to_bin_def Let_def r ct_simps e
    by (auto simp: word_le_nat_alt mask_8_def)
qed
lemma ascii_to_bin_conv: "base64_ascii_to_bin (conv_bin2ascii a) = take_bit 6 a"
proof -
  define b where "b = take_bit 6 a"
  have "unat b < 64"
    using take_bit_6_less [of a] by (simp add: b_def word_less_nat_alt)
  then show ?thesis
    unfolding conv_bin2ascii_cases base64_ascii_to_bin_cases b_def [symmetric] Let_def
    by (auto simp: word_le_nat_alt word_less_nat_alt unat_sub_if' unat_word_ariths word_unat_eq_iff)
qed

lemma conv_not_equals: "conv_bin2ascii a \<noteq> 61"
proof -
  define b where "b = take_bit 6 a"
  have "unat b < 64"
    using take_bit_6_less [of a] by (simp add: b_def word_less_nat_alt)
  then show ?thesis
    unfolding conv_bin2ascii_cases b_def [symmetric] Let_def
    by (auto simp: word_le_nat_alt word_less_nat_alt unat_sub_if' unat_word_ariths word_unat_eq_iff)
qed

lemma quad_value:
  fixes l :: u32
  shows "push_bit 18 (ucast (take_bit 6 (ucast (drop_bit 18 l) :: u8)) :: u32) OR
     push_bit 12 (ucast (take_bit 6 (ucast (drop_bit 12 l) :: u8))) OR
     push_bit 6 (ucast (take_bit 6 (ucast (drop_bit 6 l) :: u8))) OR
     ucast (take_bit 6 (ucast l :: u8)) = take_bit 24 l" (is "?v = _")
proof (rule bit_word_eqI)
  fix n assume n: "n < LENGTH(32)"
  consider "n < 6" | "6 \<le> n" "n < 12" | "12 \<le> n" "n < 18" | "18 \<le> n" "n < 24" | "24 \<le> n"
    by linarith
  then show "bit ?v n = bit (take_bit 24 l) n"
    using n by cases (auto simp: bit_simps)
qed

lemma triple_24: "take_bit 24 (push_bit 16 (ucast (s0 :: u8) :: u32) OR push_bit 8 (ucast (s1 :: u8)) OR ucast (s2 :: u8))
    = push_bit 16 (ucast s0) OR push_bit 8 (ucast s1) OR ucast s2"
  by (rule bit_word_eqI) (auto simp: bit_simps dest: bit_imp_le_length)
lemma quad_bytes:
  fixes s0 s1 s2 :: u8
  defines "l \<equiv> push_bit 16 (ucast s0 :: u32) OR push_bit 8 (ucast s1) OR ucast s2"
  shows "ucast (drop_bit 16 l) = s0" "ucast (drop_bit 8 l) = s1" "ucast l = s2"
  unfolding l_def
  by (rule bit_word_eqI; auto simp: bit_simps dest: bit_imp_le_length)+

lemma take_bit_6_not_255: "take_bit 6 (a :: u8) \<noteq> 255"
  using take_bit_6_less [of a] by auto

lemma ascii_to_bin_equals: "base64_ascii_to_bin 61 = 0"
  by (simp add: base64_ascii_to_bin_cases)

lemmas quad_simps = take_bit_6_not_255 ascii_to_bin_equals ascii_to_bin_conv conv_not_equals

lemma decode_quad_gen:
  fixes l :: u32
  shows "base64_decode_quad (conv_bin2ascii (ucast (drop_bit 18 l))) (conv_bin2ascii (ucast (drop_bit 12 l)))
       (conv_bin2ascii (ucast (drop_bit 6 l))) (conv_bin2ascii (ucast l)) =
     Some [ucast (drop_bit 16 (take_bit 24 l)), ucast (drop_bit 8 (take_bit 24 l)), ucast (take_bit 24 l)]"
  unfolding base64_decode_quad_def Let_def quad_simps quad_value
  by (simp add: take_bit_6_not_255 conv_not_equals)

lemma decode_quad_gen_pad1:
  fixes l :: u32
  assumes "take_bit 6 (ucast l :: u8) = 0"
  shows "base64_decode_quad (conv_bin2ascii (ucast (drop_bit 18 l))) (conv_bin2ascii (ucast (drop_bit 12 l)))
       (conv_bin2ascii (ucast (drop_bit 6 l))) 61 =
     Some [ucast (drop_bit 16 (take_bit 24 l)), ucast (drop_bit 8 (take_bit 24 l))]"
  using quad_value [of l] unfolding base64_decode_quad_def Let_def quad_simps assms
  by (simp add: take_bit_6_not_255 conv_not_equals)

lemma decode_quad_gen_pad2:
  fixes l :: u32
  assumes "take_bit 6 (ucast l :: u8) = 0" "take_bit 6 (ucast (drop_bit 6 l) :: u8) = 0"
  shows "base64_decode_quad (conv_bin2ascii (ucast (drop_bit 18 l))) (conv_bin2ascii (ucast (drop_bit 12 l)))
       61 61 = Some [ucast (drop_bit 16 (take_bit 24 l))]"
  using quad_value [of l] unfolding base64_decode_quad_def Let_def quad_simps assms
  by (simp add: take_bit_6_not_255 conv_not_equals)

lemma decode_quad_3:
  fixes s0 s1 s2 :: u8
  defines "l \<equiv> push_bit 16 (ucast s0 :: u32) OR push_bit 8 (ucast s1) OR ucast s2"
  shows "base64_decode_quad (conv_bin2ascii (ucast (drop_bit 18 l))) (conv_bin2ascii (ucast (drop_bit 12 l)))
       (conv_bin2ascii (ucast (drop_bit 6 l))) (conv_bin2ascii (ucast l)) = Some [s0, s1, s2]"
  unfolding decode_quad_gen unfolding l_def triple_24 quad_bytes ..

lemma pad_zero_2: 
  fixes s0 s1 :: u8
  defines "l \<equiv> push_bit 16 (ucast s0 :: u32) OR push_bit 8 (ucast s1)"
  shows "take_bit 6 (ucast l :: u8) = 0"
  unfolding l_def by (rule bit_word_eqI) (auto simp: bit_simps)

lemma pad_zero_1: 
  fixes s0 :: u8
  defines "l \<equiv> push_bit 16 (ucast s0 :: u32)"
  shows "take_bit 6 (ucast l :: u8) = 0" "take_bit 6 (ucast (drop_bit 6 l) :: u8) = 0"
  unfolding l_def by (rule bit_word_eqI; auto simp: bit_simps)+

lemma decode_quad_2:
  fixes s0 s1 :: u8
  defines "l \<equiv> push_bit 16 (ucast s0 :: u32) OR push_bit 8 (ucast s1)"
  shows "base64_decode_quad (conv_bin2ascii (ucast (drop_bit 18 l))) (conv_bin2ascii (ucast (drop_bit 12 l)))
       (conv_bin2ascii (ucast (drop_bit 6 l))) 61 = Some [s0, s1]"
proof -
  have l: "l = push_bit 16 (ucast s0 :: u32) OR push_bit 8 (ucast s1) OR ucast (0 :: u8)"
    by (simp add: l_def)
  have z: "take_bit 6 (ucast l :: u8) = 0"
    unfolding l_def by (rule pad_zero_2)
  show ?thesis
    unfolding decode_quad_gen_pad1 [OF z] unfolding l triple_24 quad_bytes ..
qed

lemma decode_quad_1:
  fixes s0 :: u8
  defines "l \<equiv> push_bit 16 (ucast s0 :: u32)"
  shows "base64_decode_quad (conv_bin2ascii (ucast (drop_bit 18 l))) (conv_bin2ascii (ucast (drop_bit 12 l))) 61 61 = Some [s0]"
proof -
  have l: "l = push_bit 16 (ucast s0 :: u32) OR push_bit 8 (ucast (0 :: u8)) OR ucast (0 :: u8)"
    by (simp add: l_def)
  have z: "take_bit 6 (ucast l :: u8) = 0" "take_bit 6 (ucast (drop_bit 6 l) :: u8) = 0"
    unfolding l_def by (rule pad_zero_1)+
  show ?thesis
    unfolding decode_quad_gen_pad2 [OF z] unfolding l triple_24 quad_bytes ..
qed

lemma decode_encode_loop: "EVP_DecodeBase64_loop out (EVP_EncodeBlock_loop src) = Inr (out @ src)"
  by (induction src arbitrary: out rule: EVP_EncodeBlock_loop.induct)
    (simp_all only: EVP_EncodeBlock_loop.simps EVP_DecodeBase64_loop.simps Let_def append.simps
      decode_quad_1 decode_quad_2 decode_quad_3 option.case append_assoc list.size append_Nil2, simp_all)

lemma third_step: "(5 + n) div 3 = Suc (Suc (Suc n) div 3)" for n :: nat
  using div_add_self2 [of 3 "n + 2"] by simp

lemma length_EncodeBlock_loop: "length (EVP_EncodeBlock_loop src) = 4 * ((length src + 2) div 3)"
  by (induction src rule: EVP_EncodeBlock_loop.induct) (simp_all add: Let_def third_step)

section \<open>The streaming encoder\<close>

lemma base64_lines_Nil [simp]: "base64_lines [] = []"
  by (simp add: base64_lines.simps)

lemma base64_lines_line: "length l = 48 \<Longrightarrow> base64_lines (l @ s) = EVP_EncodeBlock_loop l @ 10 # base64_lines s"
  by (subst base64_lines.simps) auto

lemma EncodeUpdate_loop_spec:
  "unat tot + 65 * (length inp div 48) < 2 ^ 64 \<Longrightarrow>
   EVP_EncodeUpdate_loop inp out tot =
     (drop (48 * (length inp div 48)) inp,
      out @ base64_lines (take (48 * (length inp div 48)) inp),
      tot + word_of_nat (65 * (length inp div 48)), False)"
proof (induction inp out tot rule: EVP_EncodeUpdate_loop.induct)
  case (1 inp out tot)
  show ?case
  proof (cases "48 \<le> length inp")
    case False
    then show ?thesis by (simp add: EVP_EncodeUpdate_loop.simps [of inp])
  next
    case True
    define k where "k = (length inp - 48) div 48"
    have k: "length inp div 48 = Suc k"
      using True by (simp add: k_def le_div_geq)
    have len: "length (EVP_EncodeBlock_loop (take 48 inp)) = 64"
      using True by (simp add: length_EncodeBlock_loop)
    have blk: "EVP_EncodeBlock (take 48 inp) = (EVP_EncodeBlock_loop (take 48 inp) @ [0], 64)"
      by (simp add: EVP_EncodeBlock_def len)
    have tot: "unat (tot + 65) = unat tot + 65"
      using "1.prems" k by (simp add: unat_word_ariths)
    have no_ov: "\<not> tot + 65 < tot"
      by (simp add: word_less_nat_alt tot)
    have lines: "base64_lines (take (48 + k * 48) inp) =
        EVP_EncodeBlock_loop (take 48 inp) @ 10 # base64_lines (take (k * 48) (drop 48 inp))"
      using True by (simp add: take_add base64_lines_line)
    have "EVP_EncodeUpdate_loop (drop 48 inp) (out @ EVP_EncodeBlock_loop (take 48 inp) @ [10]) (tot + 65) =
      (drop (48 * k) (drop 48 inp),
       (out @ EVP_EncodeBlock_loop (take 48 inp) @ [10]) @ base64_lines (take (48 * k) (drop 48 inp)),
       tot + 65 + word_of_nat (65 * k), False)"
      using "1.IH" [OF True refl blk [symmetric] refl refl] no_ov "1.prems"
      by (simp add: len tot k_def [symmetric] k)
    then show ?thesis
      using True no_ov
      by (subst EVP_EncodeUpdate_loop.simps)
        (simp add: blk Let_def len k lines ac_simps)
  qed
qed

lemma div_mult_le_mod: "n - 48 * (n div 48) < (48 :: nat)"
  by (simp add: minus_mult_div_eq_mod)

lemma stored_rest:
  assumes "length (ctx_data ctx) = 48" "length r < 48"
  defines "c \<equiv> (if r \<noteq> [] then ctx\<lparr>ctx_data := memcpy_at (ctx_data ctx) 0 r\<rparr> else ctx)\<lparr>data_used := length r\<rparr>"
  shows "encode_ctx_ok c \<and> pending c = r"
  using assms by (auto simp: encode_ctx_ok_def pending_def)

lemma EncodeUpdate_full:
  assumes ok: "encode_ctx_ok ctx" and inp: "inp \<noteq> []" "48 \<le> data_used ctx + length inp"
  defines "s \<equiv> pending ctx @ inp"
  defines "n \<equiv> length s div 48"
  assumes small: "65 * n \<le> INT_MAX"
  shows "\<exists>ctx'. EVP_EncodeUpdate ctx inp = (ctx', base64_lines (take (48 * n) s) @ [0], 65 * n) \<and>
         encode_ctx_ok ctx' \<and> pending ctx' = drop (48 * n) s"
proof -
  have len: "data_used ctx < 48" "length (ctx_data ctx) = 48" "length (pending ctx) = data_used ctx"
    using ok by (auto simp: encode_ctx_ok_def pending_def)
  have n: "0 < n"
    using inp len by (simp add: n_def s_def div_greater_zero_iff)
  have bound: "65 * n < 2 ^ 64" and tot: "unat (65 * word_of_nat n :: u64) = 65 * n"
    using small by (simp_all add: INT_MAX_def unat_word_ariths unsigned_of_nat take_bit_eq_mod)
  have nonempty: "base64_lines (take (48 * n) s) \<noteq> []"
    using n inp by (subst base64_lines.simps) (auto simp: s_def)
  have short: "length (drop (48 * n) s) < 48"
    by (simp add: n_def div_mult_le_mod)
  show ?thesis
  proof (cases "data_used ctx = 0")
    case True
    then have s: "s = inp" by (simp add: s_def pending_def)
    have "EVP_EncodeUpdate_loop inp [] 0 = (drop (48 * n) s, base64_lines (take (48 * n) s), word_of_nat (65 * n), False)"
      using EncodeUpdate_loop_spec [of 0 inp "[]"] bound by (simp add: n_def s)
    with True inp stored_rest [OF len(2) short] show ?thesis
      using small nonempty by (auto simp: EVP_EncodeUpdate_def Let_def tot)
  next
    case False
    define todo where "todo = 48 - data_used ctx"
    define d where "d = memcpy_at (ctx_data ctx) (data_used ctx) (take todo inp)"
    define m where "m = (length inp - todo) div 48"
    have todo: "todo \<le> length inp" using inp by (simp add: todo_def)
    have d: "d = pending ctx @ take todo inp" "length d = 48"
      using todo len by (auto simp: d_def memcpy_at_def pending_def todo_def)
    have s: "s = d @ drop todo inp"
      using todo by (simp add: s_def d)
    have m: "n = Suc m"
      using len todo by (simp add: n_def m_def s d(2) le_div_geq)
    have "EVP_EncodeUpdate_loop (drop todo inp) (EVP_EncodeBlock_loop d @ [10]) 65 =
       (drop (48 * n) s, base64_lines (take (48 * n) s), word_of_nat (65 * n), False)"
      using EncodeUpdate_loop_spec [of 65 "drop todo inp" "EVP_EncodeBlock_loop d @ [10]"] bound
      by (simp add: m_def [symmetric] m s d(2) base64_lines_line)
    moreover have "length (ctx_data (ctx\<lparr>ctx_data := d, data_used := 0\<rparr>)) = 48"
      by (simp add: d(2))
    ultimately show ?thesis
      using False inp todo stored_rest [OF _ short, of "ctx\<lparr>ctx_data := d, data_used := 0\<rparr>"] small nonempty
      by (auto simp: EVP_EncodeUpdate_def Let_def tot d(2) EVP_EncodeBlock_def length_EncodeBlock_loop
          d_def [symmetric] todo_def [symmetric])
  qed
qed

lemma length_base64_lines: "48 * n \<le> length s \<Longrightarrow> length (base64_lines (take (48 * n) s)) = 65 * n"
proof (induction n arbitrary: s)
  case (Suc n)
  have "take (48 * Suc n) s = take 48 s @ take (48 * n) (drop 48 s)"
    by (simp add: take_add)
  with Suc show ?case by (simp add: base64_lines_line length_EncodeBlock_loop)
qed simp

lemma EncodeUpdate_buffered:
  assumes "encode_ctx_ok ctx" "inp = [] \<or> data_used ctx + length inp < 48"
  shows "\<exists>ctx'. EVP_EncodeUpdate ctx inp = (ctx', [], 0) \<and> encode_ctx_ok ctx' \<and> pending ctx' = pending ctx @ inp"
proof (cases "inp = []")
  case False
  with assms show ?thesis
    by (auto simp: EVP_EncodeUpdate_def encode_ctx_ok_def pending_def take_memcpy_at)
qed (use assms in \<open>simp add: EVP_EncodeUpdate_def\<close>)

text \<open>One update, on any branch: the caller's \<open>*out_len\<close> bytes are the complete lines.\<close>

lemma EncodeUpdate_spec:
  fixes inp :: bytes
  assumes ok: "encode_ctx_ok ctx"
  defines "s \<equiv> pending ctx @ inp"
  defines "n \<equiv> length s div 48"
  assumes small: "65 * n \<le> INT_MAX"
  shows "\<exists>ctx' out. EVP_EncodeUpdate ctx inp = (ctx', out, 65 * n) \<and> encode_ctx_ok ctx' \<and>
         take (65 * n) out = base64_lines (take (48 * n) s) \<and> pending ctx' = drop (48 * n) s"
proof (cases "inp = [] \<or> data_used ctx + length inp < 48")
  case True
  have "n = 0"
    using True ok by (auto simp: n_def s_def pending_def encode_ctx_ok_def)
  then show ?thesis
    using EncodeUpdate_buffered [OF ok True] by (auto simp: s_def)
next
  case False
  have "length (base64_lines (take (48 * n) s)) = 65 * n"
    by (rule length_base64_lines) (simp add: n_def)
  then show ?thesis
    using EncodeUpdate_full [OF ok, of inp] small False by (auto simp: s_def n_def)
qed

lemma base64_lines_append:
  "48 * n \<le> length s \<Longrightarrow> base64_lines (take (48 * n) s) @ base64_lines (drop (48 * n) s) = base64_lines s"
proof (induction n arbitrary: s)
  case (Suc n)
  have t: "take (48 + 48 * n) s = take 48 s @ take (48 * n) (drop 48 s)"
    and d: "drop (48 + 48 * n) s = drop (48 * n) (drop 48 s)"
    by (simp_all add: take_add add.commute)
  have "base64_lines s = base64_lines (take 48 s @ drop 48 s)" by simp
  with Suc show ?case
    by (simp add: t d base64_lines_line del: append_take_drop_id drop_drop)
qed simp

lemma EncodeFinal_spec:
  assumes "encode_ctx_ok ctx"
  shows "\<exists>ctx' out. EVP_EncodeFinal ctx = (ctx', out, length (base64_lines (pending ctx))) \<and>
    take (length (base64_lines (pending ctx))) out = base64_lines (pending ctx) \<and> data_used ctx' = 0"
  using assms by (auto simp: EVP_EncodeFinal_def EVP_EncodeBlock_def Let_def encode_ctx_ok_def pending_def base64_lines.simps)

lemma encode_chunks_lines:
  assumes "encode_ctx_ok ctx" "2 * (length (pending ctx) + length (concat cs)) \<le> INT_MAX"
  shows "encode_chunks ctx cs = base64_lines (pending ctx @ concat cs)"
  using assms
proof (induction cs arbitrary: ctx)
  case Nil
  then show ?case using EncodeFinal_spec [of ctx] by auto
next
  case (Cons c cs)
  define s where "s = pending ctx @ c"
  define n where "n = length s div 48"
  have small: "65 * n \<le> INT_MAX"
    using Cons.prems(2) by (simp add: n_def s_def)
  obtain ctx' out where u: "EVP_EncodeUpdate ctx c = (ctx', out, 65 * n)" "encode_ctx_ok ctx'"
      "take (65 * n) out = base64_lines (take (48 * n) s)" "pending ctx' = drop (48 * n) s"
    using EncodeUpdate_spec [OF Cons.prems(1), of c] small by (auto simp: s_def n_def)
  have "encode_chunks ctx' cs = base64_lines (drop (48 * n) s @ concat cs)"
    using Cons.IH [OF u(2)] Cons.prems(2) by (simp add: u(4) s_def)
  moreover have "48 * n \<le> length s" by (simp add: n_def)
  ultimately show ?case
    using base64_lines_append [of n "s @ concat cs"] by (simp add: u s_def)
qed

section \<open>The streaming decoder\<close>

lemma DecodeUpdate_loop_append:
  "EVP_DecodeUpdate_loop ctx out (xs @ ys) =
     (case EVP_DecodeUpdate_loop ctx out xs of Inl e \<Rightarrow> Inl e
      | Inr (ctx', out') \<Rightarrow> EVP_DecodeUpdate_loop ctx' out' ys)"
  by (induction xs arbitrary: ctx out) (auto split: sum.splits)

lemma DecodeUpdate_loop_out:
  "EVP_DecodeUpdate_loop ctx (out @ out2) inp =
     (case EVP_DecodeUpdate_loop ctx out2 inp of Inl (c, o') \<Rightarrow> Inl (c, out @ o') | Inr (c, o') \<Rightarrow> Inr (c, out @ o'))"
  by (induction inp arbitrary: ctx out2) (auto split: sum.splits)

lemma DecodeUpdate_char_ok:
  "decode_ctx_ok ctx \<Longrightarrow> EVP_DecodeUpdate_char ctx c = Inr (ctx', bs) \<Longrightarrow> decode_ctx_ok ctx'"
  by (auto simp: EVP_DecodeUpdate_char_def decode_ctx_ok_def Let_def split: if_splits option.splits)

lemma DecodeUpdate_loop_ok:
  "decode_ctx_ok ctx \<Longrightarrow> EVP_DecodeUpdate_loop ctx out xs = Inr (ctx', out') \<Longrightarrow> decode_ctx_ok ctx'"
  by (induction xs arbitrary: ctx out) (auto split: sum.splits dest: DecodeUpdate_char_ok)

lemma conv_not_space: "\<not> is_base64_space (conv_bin2ascii a)"
proof -
  define b where "b = take_bit 6 a"
  have "unat b < 64"
    using take_bit_6_less [of a] by (simp add: b_def word_less_nat_alt)
  then show ?thesis
    unfolding conv_bin2ascii_cases b_def [symmetric] Let_def is_base64_space_def
    by (auto simp: word_le_nat_alt word_less_nat_alt unat_sub_if' unat_word_ariths word_unat_eq_iff)
qed

lemma decode_quad_stream:
  assumes "between_quads ctx" "\<not> eof_seen ctx"
    "\<not> is_base64_space a" "\<not> is_base64_space b" "\<not> is_base64_space c" "\<not> is_base64_space d"
    "base64_decode_quad a b c d = Some bs"
  shows "\<exists>ctx'. EVP_DecodeUpdate_loop ctx out [a, b, c, d] = Inr (ctx', out @ bs) \<and>
    between_quads ctx' \<and> eof_seen ctx' = (length bs < 3)"
  using assms by (auto simp: between_quads_def EVP_DecodeUpdate_char_def Let_def nth_list_update)

lemma decode_quad_then:
  assumes "between_quads ctx" "\<not> eof_seen ctx"
    "\<not> is_base64_space a" "\<not> is_base64_space b" "\<not> is_base64_space c" "\<not> is_base64_space d"
    "base64_decode_quad a b c d = Some bs"
  shows "\<exists>ctx'. EVP_DecodeUpdate_loop ctx out ([a, b, c, d] @ rest) = EVP_DecodeUpdate_loop ctx' (out @ bs) rest \<and>
    between_quads ctx' \<and> eof_seen ctx' = (length bs < 3)"
proof -
  obtain ctx' where "EVP_DecodeUpdate_loop ctx out [a, b, c, d] = Inr (ctx', out @ bs)"
      "between_quads ctx'" "eof_seen ctx' = (length bs < 3)"
    using decode_quad_stream [OF assms] by blast
  then show ?thesis by (simp only: DecodeUpdate_loop_append sum.case prod.case) blast
qed

lemma equals_not_space: "\<not> is_base64_space 61"
  by (simp add: is_base64_space_def)

lemma decode_block_stream:
  "between_quads ctx \<Longrightarrow> \<not> eof_seen ctx \<Longrightarrow>
   \<exists>ctx'. EVP_DecodeUpdate_loop ctx out (EVP_EncodeBlock_loop l @ rest) = EVP_DecodeUpdate_loop ctx' (out @ l) rest \<and>
     between_quads ctx' \<and> eof_seen ctx' = (length l mod 3 \<noteq> 0)"
proof (induction l arbitrary: ctx out rule: EVP_EncodeBlock_loop.induct)
  case 1
  then show ?case by auto
next
  case (2 s0)
  from decode_quad_then [OF 2 conv_not_space conv_not_space equals_not_space equals_not_space decode_quad_1]
  show ?case by (simp only: EVP_EncodeBlock_loop.simps Let_def) simp
next
  case (3 s0 s1)
  from decode_quad_then [OF 3 conv_not_space conv_not_space conv_not_space equals_not_space decode_quad_2]
  show ?case by (simp only: EVP_EncodeBlock_loop.simps Let_def) simp
next
  case (4 s0 s1 s2 src)
  have "\<exists>ctx1. EVP_DecodeUpdate_loop ctx out (EVP_EncodeBlock_loop (s0 # s1 # s2 # src) @ rest) =
      EVP_DecodeUpdate_loop ctx1 (out @ [s0, s1, s2]) (EVP_EncodeBlock_loop src @ rest) \<and>
      between_quads ctx1 \<and> eof_seen ctx1 = (length [s0, s1, s2] < 3)"
    unfolding EVP_EncodeBlock_loop.simps Let_def append_assoc
    by (rule decode_quad_then [OF 4(2,3) conv_not_space conv_not_space conv_not_space conv_not_space decode_quad_3])
  then obtain ctx1 where c1: "EVP_DecodeUpdate_loop ctx out (EVP_EncodeBlock_loop (s0 # s1 # s2 # src) @ rest) =
      EVP_DecodeUpdate_loop ctx1 (out @ [s0, s1, s2]) (EVP_EncodeBlock_loop src @ rest)"
    "between_quads ctx1" "\<not> eof_seen ctx1"
    by auto
  have "length (s0 # s1 # s2 # src) mod 3 = length src mod 3"
    by simp
  with 4(1) [OF refl c1(2,3), of "out @ [s0, s1, s2]"] show ?case
    unfolding c1(1) by simp
qed

lemma decode_lines_stream:
  "between_quads ctx \<Longrightarrow> \<not> eof_seen ctx \<Longrightarrow>
   \<exists>ctx'. EVP_DecodeUpdate_loop ctx out (base64_lines s) = Inr (ctx', out @ s) \<and>
     between_quads ctx' \<and> eof_seen ctx' = (length s mod 3 \<noteq> 0)"
proof (induction s arbitrary: ctx out rule: base64_lines.induct)
  case (1 s)
  show ?case
  proof (cases "s = []")
    case False
    let ?rest = "10 # base64_lines (drop 48 s)"
    obtain ctx1 where c1: "EVP_DecodeUpdate_loop ctx out (base64_lines s) = EVP_DecodeUpdate_loop ctx1 (out @ take 48 s) ?rest"
      "between_quads ctx1" "eof_seen ctx1 = (length (take 48 s) mod 3 \<noteq> 0)"
      using decode_block_stream [OF 1(2,3), of out "take 48 s" ?rest] False
      by (auto simp: base64_lines.simps [of s])
    have nl: "EVP_DecodeUpdate_loop ctx1 o' ?rest = EVP_DecodeUpdate_loop ctx1 o' (base64_lines (drop 48 s))" for o'
      by (simp add: EVP_DecodeUpdate_char_def is_base64_space_def)
    show ?thesis
    proof (cases "length s < 48")
      case True
      with c1 nl show ?thesis by simp
    next
      case False
      with c1(3) have "\<not> eof_seen ctx1" by simp
      moreover have "length (drop 48 s) mod 3 = length s mod 3"
        using False mod_mult_self1 [of "length s - 48" 16 3] by simp
      ultimately show ?thesis
        using 1(1) [OF \<open>s \<noteq> []\<close> c1(2), of "out @ take 48 s"] c1(1) nl by simp
    qed
  qed (use 1 in simp)
qed

lemma DecodeUpdate_char_no_error:
  "EVP_DecodeUpdate_char ctx c = Inr (ctx', bs) \<Longrightarrow> error_encountered ctx' = error_encountered ctx"
  by (auto simp: EVP_DecodeUpdate_char_def Let_def split: if_splits option.splits)

lemma DecodeUpdate_loop_no_error:
  "EVP_DecodeUpdate_loop ctx out xs = Inr (ctx', out') \<Longrightarrow> error_encountered ctx' = error_encountered ctx"
  by (induction xs arbitrary: ctx out) (auto split: sum.splits dest: DecodeUpdate_char_no_error)

interpretation b64_decode: chunked "\<lambda>ctx. decode_ctx_ok ctx \<and> \<not> error_encountered ctx" decode_upd
proof unfold_locales
  fix ctx xs ys
  have "(case EVP_DecodeUpdate_loop c o1 ys of Inl _ \<Rightarrow> None | Inr r \<Rightarrow> Some r) =
      (case decode_upd c ys of None \<Rightarrow> None | Some (c', o2) \<Rightarrow> Some (c', o1 @ o2))" for c o1
    using DecodeUpdate_loop_out [of c o1 "[]" ys] by (auto simp: decode_upd_def split: sum.splits)
  then show "decode_upd ctx (xs @ ys) =
      (case decode_upd ctx xs of None \<Rightarrow> None
       | Some (s1, o1) \<Rightarrow> (case decode_upd s1 ys of None \<Rightarrow> None | Some (s2, o2) \<Rightarrow> Some (s2, o1 @ o2)))"
    by (cases "EVP_DecodeUpdate_loop ctx [] xs")
      (auto simp: decode_upd_def [of ctx] DecodeUpdate_loop_append)
qed (auto simp: decode_upd_def split: sum.splits dest: DecodeUpdate_loop_ok DecodeUpdate_loop_no_error)

lemma decode_chunks_run:
  assumes "\<not> error_encountered ctx" "run_chunks decode_upd ctx cs = Some (ctx', out)" "length out \<le> INT_MAX" "data_used ctx' = 0"
  shows "decode_chunks ctx cs = Some out"
  using assms
proof (induction cs arbitrary: ctx out)
  case (Cons c cs)
  then obtain ctx1 o1 o2 where "decode_upd ctx c = Some (ctx1, o1)"
      and r: "run_chunks decode_upd ctx1 cs = Some (ctx', o2)" "out = o1 @ o2"
    by (auto split: option.splits)
  then have "EVP_DecodeUpdate_loop ctx [] c = Inr (ctx1, o1)"
    by (simp add: decode_upd_def split: sum.splits)
  with Cons r show ?case
    by (auto simp: EVP_DecodeUpdate_def dest: DecodeUpdate_loop_no_error)
qed (simp add: EVP_DecodeFinal_def)

section \<open>Lengths\<close>

lemma shift2_roundtrip: "drop_bit 2 (push_bit 2 (w :: u64)) = w \<longleftrightarrow> unat w < 2 ^ 62"
proof -
  have "unat (drop_bit 2 (push_bit 2 w)) = unat w * 4 mod 2 ^ 64 div 4"
    by (simp add: unat_drop_bit_eq push_bit_eq_mult drop_bit_eq_div unat_word_ariths)
  also have "\<dots> = unat w mod 2 ^ 62"
    by (simp add: mod_mult_mult2 [of _ 4 "2 ^ 62", simplified])
  finally show ?thesis
    by (simp add: word_unat_eq_iff mod_eq_self_iff_div_eq_0 div_eq_0_iff)
qed

lemma EncodedLength_exact:
  "EVP_EncodedLength len =
     (if unat len + 2 < 2 ^ 64 \<and> 4 * ((unat len + 2) div 3) + 1 < 2 ^ 64
      then Some (word_of_nat (4 * ((unat len + 2) div 3) + 1)) else None)"
proof (cases "unat len + 2 < 2 ^ 64")
  case True
  define k where "k = (unat len + 2) div 3"
  have no: "\<not> len + 2 < len"
    using True by (simp add: word_less_nat_alt unat_plus_if')
  have k: "(len + 2) div 3 = word_of_nat k" "k < 2 ^ 64"
    using True by (simp_all add: k_def word_unat_eq_iff unat_div unat_plus_if' unsigned_of_nat take_bit_eq_mod)
  then have uk: "unat (word_of_nat k :: u64) = k"
    by (simp add: unsigned_of_nat take_bit_eq_mod)
  have p: "push_bit 2 (word_of_nat k :: u64) = word_of_nat (4 * k)"
    by (simp add: push_bit_eq_mult)
  show ?thesis
  proof (cases "k < 2 ^ 62")
    case fits: True
    then have "unat (word_of_nat (4 * k) :: u64) = 4 * k"
      by (intro unat_word_of_nat) simp
    with fits have "\<not> word_of_nat (4 * k) + (1 :: u64) < word_of_nat (4 * k)"
      by (simp add: word_less_nat_alt unat_plus_if' del: of_nat_mult)
    moreover have "drop_bit 2 (push_bit 2 (word_of_nat k :: u64)) = word_of_nat k"
      using fits by (simp add: shift2_roundtrip uk)
    ultimately show ?thesis
      using True no fits k k_def [symmetric]
      unfolding EVP_EncodedLength_def Let_def k(1) p by (simp add: ac_simps)
  next
    case False
    then have "drop_bit 2 (push_bit 2 (word_of_nat k :: u64)) \<noteq> word_of_nat k"
      by (simp add: shift2_roundtrip uk)
    with no False show ?thesis
      unfolding EVP_EncodedLength_def Let_def k(1) k_def [symmetric] by simp
  qed
next
  case False
  then have "len + 2 < len"
    using unat_lt_u64 [of len] by (simp add: word_less_nat_alt unat_plus_if')
  with False show ?thesis by (simp add: EVP_EncodedLength_def)
qed

section \<open>Properties\<close>

text \<open>
  C9: decoding what \<open>EVP_EncodeBlock\<close> wrote gives back the source, its length and success,
  whenever the lengths are representable and the caller's buffer is as large as
  \<open>EVP_DecodedLength\<close> asks.
\<close>

theorem base64_block_roundtrip:
  assumes "4 * ((length src + 2) div 3) < 2 ^ 64" "3 * ((length src + 2) div 3) \<le> max_out"
  shows "EVP_DecodeBase64 max_out (take (snd (EVP_EncodeBlock src)) (fst (EVP_EncodeBlock src))) =
    (True, length src, src)"
proof -
  define k where "k = (length src + 2) div 3"
  have k: "k < 2 ^ 62" using assms(1) by (simp add: k_def)
  have u: "unat (word_of_nat (4 * k) :: u64) = 4 * k" "unat (word_of_nat (3 * k) :: u64) = 3 * k"
    using k by (intro unat_word_of_nat; simp)+
  have "EVP_DecodedLength (word_of_nat (4 * k)) = Some (word_of_nat (3 * k))"
    using u k by (simp add: EVP_DecodedLength_def word_unat_eq_iff unat_mod unat_div unat_word_ariths del: of_nat_mult)
  then show ?thesis
    using assms(2) u decode_encode_loop [of "[]" src]
    by (simp add: EVP_EncodeBlock_def EVP_DecodeBase64_def length_EncodeBlock_loop k_def del: of_nat_mult)
qed

theorem base64_block_roundtrip_witness:
  "EVP_DecodeBase64 6 (take (snd (EVP_EncodeBlock [77, 97, 110, 33])) (fst (EVP_EncodeBlock [77, 97, 110, 33]))) =
    (True, 4, [77, 97, 110, 33])"
  using base64_block_roundtrip [of "[77, 97, 110, 33]" 6] by simp

text \<open>
  C23: the branch-free alphabet lookups. \<open>conv_bin2ascii\<close> is the table of RFC 4648 indexed by the
  low six bits of its argument, and \<open>base64_ascii_to_bin\<close> inverts it.
\<close>

theorem base64_alphabet_correct:
  "conv_bin2ascii a = base64_alphabet ! unat (take_bit 6 a) \<and> base64_ascii_to_bin (conv_bin2ascii a) = take_bit 6 a"
proof -
  define b where "b = take_bit 6 a"
  have b: "unat b < 64"
    using take_bit_6_less [of a] by (simp add: b_def word_less_nat_alt)
  have "b = word_of_nat (unat b)" by simp
  moreover have "\<forall>n \<in> set [0..<64]. conv_bin2ascii (word_of_nat n) = base64_alphabet ! n"
    by code_simp
  ultimately have "conv_bin2ascii b = base64_alphabet ! unat b"
    using b by (metis atLeastLessThan_iff le0 set_upt)
  moreover have "conv_bin2ascii a = conv_bin2ascii b"
    by (simp add: conv_bin2ascii_cases b_def)
  ultimately show ?thesis
    using ascii_to_bin_conv [of a] by (simp only: b_def)
qed

text \<open>
  C11: the streaming interface is independent of how the caller cuts its data. Feeding any pieces
  to the encoder and then any pieces of the resulting text to the decoder returns the
  concatenated input, as long as \<open>int\<close> can hold the lengths.
\<close>

theorem base64_stream_roundtrip:
  assumes "2 * length (concat cs) \<le> INT_MAX" "concat ds = encode_chunks EVP_EncodeInit cs"
  shows "decode_chunks EVP_DecodeInit ds = Some (concat cs)"
proof -
  have "encode_chunks EVP_EncodeInit cs = base64_lines (concat cs)"
    using encode_chunks_lines [of EVP_EncodeInit cs] assms(1)
    by (simp add: EVP_EncodeInit_def encode_ctx_ok_def pending_def)
  moreover obtain ctx' where "EVP_DecodeUpdate_loop EVP_DecodeInit [] (base64_lines (concat cs)) = Inr (ctx', concat cs)"
      and "between_quads ctx'"
    using decode_lines_stream [of EVP_DecodeInit "[]" "concat cs"]
    by (auto simp: EVP_DecodeInit_def between_quads_def)
  moreover have "run_chunks decode_upd EVP_DecodeInit ds = decode_upd EVP_DecodeInit (concat ds)"
    by (rule b64_decode.run_chunks_concat) (simp add: EVP_DecodeInit_def decode_ctx_ok_def)
  ultimately show ?thesis
    using assms by (intro decode_chunks_run [where ctx' = ctx'])
      (auto simp: decode_upd_def between_quads_def EVP_DecodeInit_def)
qed

theorem base64_stream_roundtrip_witness:
  "decode_chunks EVP_DecodeInit [encode_chunks EVP_EncodeInit [[1, 2], [], [3, 4, 5]]] = Some [1, 2, 3, 4, 5]"
  using base64_stream_roundtrip [of "[[1, 2], [], [3, 4, 5]]" "[encode_chunks EVP_EncodeInit [[1, 2], [], [3, 4, 5]]]"]
  by (simp add: INT_MAX_def)

text \<open>
  C24: \<open>EVP_EncodedLength\<close> returns exactly the size \<open>EVP_EncodeBlock\<close> fills, NUL included, and
  fails exactly when that size, or the intermediate sum, does not fit in \<open>size_t\<close>.
\<close>

theorem EncodedLength_is_block_size:
  assumes "length src < 2 ^ 64"
  shows "EVP_EncodedLength (word_of_nat (length src)) =
    (if length src + 2 < 2 ^ 64 \<and> length (fst (EVP_EncodeBlock src)) < 2 ^ 64
     then Some (word_of_nat (length (fst (EVP_EncodeBlock src)))) else None)"
proof -
  have "unat (word_of_nat (length src) :: u64) = length src"
    using assms by (intro unat_word_of_nat) simp
  then show ?thesis
    unfolding EncodedLength_exact by (simp add: EVP_EncodeBlock_def length_EncodeBlock_loop)
qed

theorem EncodedLength_is_block_size_witness:
  "EVP_EncodedLength (word_of_nat (length [1, 2, 3, 4 :: u8])) = Some 9"
  using EncodedLength_is_block_size [of "[1, 2, 3, 4]"] by (simp add: EVP_EncodeBlock_def)

end
