(* ===== verification/Nanopb_Common.thy ===== *)
theory Nanopb_Common
  imports Prelude
begin

text \<open>
  The data model of nanopb (\<^verbatim>\<open>Pods/nanopb/pb.h\<close>) and its field iterator (\<^verbatim>\<open>pb_common.c\<close>), in the
  configuration the project builds (\<^verbatim>\<open>PB_FIELD_32BIT\<close>, \<^verbatim>\<open>PB_NO_PACKED_STRUCTS\<close>, \<^verbatim>\<open>PB_ENABLE_MALLOC\<close>,
  64-bit pointers, little-endian memory). Message structures live in a byte-addressed memory;
  field descriptors are constant data, found by the address that \<open>pb_field_t.ptr\<close> holds.
\<close>

section \<open>Field types\<close>

definition PB_LTYPE_BOOL :: u8 where "PB_LTYPE_BOOL = 0x00"
definition PB_LTYPE_VARINT :: u8 where "PB_LTYPE_VARINT = 0x01"
definition PB_LTYPE_UVARINT :: u8 where "PB_LTYPE_UVARINT = 0x02"
definition PB_LTYPE_SVARINT :: u8 where "PB_LTYPE_SVARINT = 0x03"
definition PB_LTYPE_FIXED32 :: u8 where "PB_LTYPE_FIXED32 = 0x04"
definition PB_LTYPE_FIXED64 :: u8 where "PB_LTYPE_FIXED64 = 0x05"
definition PB_LTYPE_LAST_PACKABLE :: u8 where "PB_LTYPE_LAST_PACKABLE = 0x05"
definition PB_LTYPE_BYTES :: u8 where "PB_LTYPE_BYTES = 0x06"
definition PB_LTYPE_STRING :: u8 where "PB_LTYPE_STRING = 0x07"
definition PB_LTYPE_SUBMESSAGE :: u8 where "PB_LTYPE_SUBMESSAGE = 0x08"
definition PB_LTYPE_EXTENSION :: u8 where "PB_LTYPE_EXTENSION = 0x09"
definition PB_LTYPE_FIXED_LENGTH_BYTES :: u8 where "PB_LTYPE_FIXED_LENGTH_BYTES = 0x0A"

definition PB_HTYPE_REQUIRED :: u8 where "PB_HTYPE_REQUIRED = 0x00"
definition PB_HTYPE_OPTIONAL :: u8 where "PB_HTYPE_OPTIONAL = 0x10"
definition PB_HTYPE_REPEATED :: u8 where "PB_HTYPE_REPEATED = 0x20"
definition PB_HTYPE_ONEOF :: u8 where "PB_HTYPE_ONEOF = 0x30"

definition PB_ATYPE_STATIC :: u8 where "PB_ATYPE_STATIC = 0x00"
definition PB_ATYPE_POINTER :: u8 where "PB_ATYPE_POINTER = 0x80"
definition PB_ATYPE_CALLBACK :: u8 where "PB_ATYPE_CALLBACK = 0x40"

definition PB_ATYPE :: "u8 \<Rightarrow> u8" where "PB_ATYPE x = x AND 0xC0"
definition PB_HTYPE :: "u8 \<Rightarrow> u8" where "PB_HTYPE x = x AND 0x30"
definition PB_LTYPE :: "u8 \<Rightarrow> u8" where "PB_LTYPE x = x AND 0x0F"

lemmas pb_type_defs = PB_LTYPE_BOOL_def PB_LTYPE_VARINT_def PB_LTYPE_UVARINT_def PB_LTYPE_SVARINT_def
  PB_LTYPE_FIXED32_def PB_LTYPE_FIXED64_def PB_LTYPE_LAST_PACKABLE_def PB_LTYPE_BYTES_def
  PB_LTYPE_STRING_def PB_LTYPE_SUBMESSAGE_def PB_LTYPE_EXTENSION_def PB_LTYPE_FIXED_LENGTH_BYTES_def
  PB_HTYPE_REQUIRED_def PB_HTYPE_OPTIONAL_def PB_HTYPE_REPEATED_def PB_HTYPE_ONEOF_def
  PB_ATYPE_STATIC_def PB_ATYPE_POINTER_def PB_ATYPE_CALLBACK_def PB_ATYPE_def PB_HTYPE_def PB_LTYPE_def

datatype pb_wire_type_t = PB_WT_VARINT | PB_WT_64BIT | PB_WT_STRING | PB_WT_32BIT | PB_WT_OTHER u32

fun wire_type_value :: "pb_wire_type_t \<Rightarrow> u32" where
  "wire_type_value PB_WT_VARINT = 0"
| "wire_type_value PB_WT_64BIT = 1"
| "wire_type_value PB_WT_STRING = 2"
| "wire_type_value PB_WT_32BIT = 5"
| "wire_type_value (PB_WT_OTHER n) = n"

definition wire_type_of :: "u32 \<Rightarrow> pb_wire_type_t" where
  "wire_type_of n = (if n = 0 then PB_WT_VARINT else if n = 1 then PB_WT_64BIT else if n = 2 then PB_WT_STRING
     else if n = 5 then PB_WT_32BIT else PB_WT_OTHER n)"

section \<open>Descriptors and memory\<close>

record pb_field_t =
  tag :: u32
  type :: u8
  data_offset :: u32
  size_offset :: "32 word" \<comment> \<open>signed\<close>
  data_size :: u32
  array_size :: u32
  ptr :: u64

definition PB_LAST_FIELD :: pb_field_t where
  "PB_LAST_FIELD = \<lparr>tag = 0, type = 0, data_offset = 0, size_offset = 0, data_size = 0, array_size = 0, ptr = 0\<rparr>"

definition PB_SIZE_MAX :: u32 where
  "PB_SIZE_MAX = - 1"

type_synonym memory = "u64 \<Rightarrow> u8"

text \<open>Reads and writes of little-endian objects.\<close>

definition mem_bytes :: "memory \<Rightarrow> u64 \<Rightarrow> nat \<Rightarrow> bytes" where
  "mem_bytes mem a n = map (\<lambda>i. mem (a + word_of_nat i)) [0..<n]"

definition mem_u8 :: "memory \<Rightarrow> u64 \<Rightarrow> u8" where
  "mem_u8 mem a = mem a"

definition mem_u16 :: "memory \<Rightarrow> u64 \<Rightarrow> u16" where
  "mem_u16 mem a = word_of_nat (le_value (mem_bytes mem a 2))"

definition mem_u32 :: "memory \<Rightarrow> u64 \<Rightarrow> u32" where
  "mem_u32 mem a = word_of_nat (le_value (mem_bytes mem a 4))"

definition mem_u64 :: "memory \<Rightarrow> u64 \<Rightarrow> u64" where
  "mem_u64 mem a = word_of_nat (le_value (mem_bytes mem a 8))"

section \<open>The field iterator\<close>

record pb_field_iter_t =
  start :: "pb_field_t list"
  pos :: nat
  required_field_index :: nat
  dest_struct :: u64
  pData :: u64
  pSize :: u64

text \<open>The entry \<open>iter->pos\<close> points to; a field array ends with \<open>PB_LAST_FIELD\<close>.\<close>

definition field_at :: "pb_field_t list \<Rightarrow> nat \<Rightarrow> pb_field_t" where
  "field_at fs i = (if i < length fs then fs ! i else PB_LAST_FIELD)"

definition iter_field :: "pb_field_iter_t \<Rightarrow> pb_field_t" where
  "iter_field iter = field_at (start iter) (pos iter)"

definition pb_field_iter_begin :: "pb_field_t list \<Rightarrow> u64 \<Rightarrow> bool \<times> pb_field_iter_t" where
  "pb_field_iter_begin fs dest =
     (let f = field_at fs 0;
          pd = (if dest = 0 then 0 else dest + ucast (data_offset f));
          ps = (if dest = 0 then 0 else pd + scast (size_offset f))
      in (tag f \<noteq> 0,
          \<lparr>start = fs, pos = 0, required_field_index = 0, dest_struct = dest, pData = pd, pSize = ps\<rparr>))"

definition pb_field_iter_next :: "pb_field_iter_t \<Rightarrow> bool \<times> pb_field_iter_t" where
  "pb_field_iter_next iter =
     (let prev_field = iter_field iter in
      if tag prev_field = 0 then (False, iter)
      else
        let iter1 = iter\<lparr>pos := pos iter + 1\<rparr>; f = iter_field iter1 in
        if tag f = 0 then (False, snd (pb_field_iter_begin (start iter1) (dest_struct iter1)))
        else if PB_HTYPE (type prev_field) = PB_HTYPE_ONEOF \<and> PB_HTYPE (type f) = PB_HTYPE_ONEOF
                \<and> data_offset f = PB_SIZE_MAX then (True, iter1)
        else
          let prev_size =
                (if PB_ATYPE (type prev_field) = PB_ATYPE_STATIC \<and> PB_HTYPE (type prev_field) = PB_HTYPE_REPEATED
                 then ucast (data_size prev_field) * ucast (array_size prev_field)
                 else if PB_ATYPE (type prev_field) = PB_ATYPE_POINTER then 8
                 else ucast (data_size prev_field) :: u64);
              iter2 = (if PB_HTYPE (type prev_field) = PB_HTYPE_REQUIRED
                       then iter1\<lparr>required_field_index := required_field_index iter1 + 1\<rparr> else iter1);
              pd = pData iter2 + prev_size + ucast (data_offset f)
          in (True, iter2\<lparr>pData := pd, pSize := pd + scast (size_offset f)\<rparr>))"

text \<open>
  The loop of \<open>pb_field_iter_find\<close> stops when it is back at the position it started from; the fuel
  bounds the turns, and \<open>None\<close> stands for a loop that does not come back.
\<close>

fun pb_field_iter_find_loop :: "nat \<Rightarrow> nat \<Rightarrow> pb_field_iter_t \<Rightarrow> u32 \<Rightarrow> (bool \<times> pb_field_iter_t) option" where
  "pb_field_iter_find_loop 0 startpos iter tg = None"
| "pb_field_iter_find_loop (Suc n) startpos iter tg =
     (if tag (iter_field iter) = tg \<and> PB_LTYPE (type (iter_field iter)) \<noteq> PB_LTYPE_EXTENSION
      then Some (True, iter)
      else let iter' = snd (pb_field_iter_next iter) in
        if pos iter' \<noteq> startpos then pb_field_iter_find_loop n startpos iter' tg
        else Some (False, iter'))"

definition pb_field_iter_find :: "pb_field_iter_t \<Rightarrow> u32 \<Rightarrow> (bool \<times> pb_field_iter_t) option" where
  "pb_field_iter_find iter tg = pb_field_iter_find_loop (length (start iter) + 1) (pos iter) iter tg"

section \<open>Memory lemmas\<close>

lemma length_mem_bytes [simp]: "length (mem_bytes m a n) = n"
  by (simp add: mem_bytes_def)

lemma unat_mem_u32: "unat (mem_u32 m a) = le_value (mem_bytes m a 4)"
  using le_value_bound [of "mem_bytes m a 4"] by (simp add: mem_u32_def unat_word_of_nat)

lemma unat_mem_u64: "unat (mem_u64 m a) = le_value (mem_bytes m a 8)"
  using le_value_bound [of "mem_bytes m a 8"] by (simp add: mem_u64_def unat_word_of_nat)

lemma mem_bytes_Suc: "mem_bytes m a (Suc n) = m a # mem_bytes m (a + 1) n"
  by (simp add: mem_bytes_def map_upt_Suc add.assoc del: upt_Suc)

lemma take_mem_bytes: "k \<le> n \<Longrightarrow> take k (mem_bytes m a n) = mem_bytes m a k"
  by (simp add: mem_bytes_def take_map)

section \<open>Iterator invariant\<close>

text \<open>
  A descriptor array without inner terminators, positions inside it. This is what \<open>begin\<close>
  establishes and \<open>next\<close> keeps.
\<close>

definition fields_ok :: "pb_field_t list \<Rightarrow> bool" where
  "fields_ok fs \<longleftrightarrow> (\<forall>f \<in> set fs. tag f \<noteq> 0)"

definition iter_ok :: "pb_field_iter_t \<Rightarrow> bool" where
  "iter_ok iter \<longleftrightarrow> fields_ok (start iter) \<and> (start iter = [] \<and> pos iter = 0 \<or> pos iter < length (start iter))"

text \<open>The byte offset of every field's data from the start of the structure, as the array describes it.\<close>

definition field_extent :: "pb_field_t \<Rightarrow> u64" where
  "field_extent f =
     (if PB_ATYPE (type f) = PB_ATYPE_STATIC \<and> PB_HTYPE (type f) = PB_HTYPE_REPEATED
      then ucast (data_size f) * ucast (array_size f)
      else if PB_ATYPE (type f) = PB_ATYPE_POINTER then 8 else ucast (data_size f))"

definition shares_union :: "pb_field_t \<Rightarrow> pb_field_t \<Rightarrow> bool" where
  "shares_union p f \<longleftrightarrow> PB_HTYPE (type p) = PB_HTYPE_ONEOF \<and> PB_HTYPE (type f) = PB_HTYPE_ONEOF
     \<and> data_offset f = PB_SIZE_MAX"

fun field_offset :: "pb_field_t list \<Rightarrow> nat \<Rightarrow> u64" where
  "field_offset fs 0 = ucast (data_offset (field_at fs 0))"
| "field_offset fs (Suc i) =
     (if shares_union (field_at fs i) (field_at fs (Suc i)) then field_offset fs i
      else field_offset fs i + field_extent (field_at fs i) + ucast (data_offset (field_at fs (Suc i))))"

text \<open>The iterator is at its \<open>i\<close>-th field, with the data pointer the layout gives it.\<close>

definition iter_at :: "pb_field_t list \<Rightarrow> u64 \<Rightarrow> nat \<Rightarrow> pb_field_iter_t \<Rightarrow> bool" where
  "iter_at fs dest i iter \<longleftrightarrow> start iter = fs \<and> dest_struct iter = dest \<and> pos iter = i
     \<and> pData iter = dest + field_offset fs i
     \<and> required_field_index iter =
         length (filter (\<lambda>j. PB_HTYPE (type (field_at fs j)) = PB_HTYPE_REQUIRED) [0..<i])"

lemma field_at_tag: "fields_ok fs \<Longrightarrow> tag (field_at fs i) = 0 \<longleftrightarrow> length fs \<le> i"
  by (auto simp: fields_ok_def field_at_def PB_LAST_FIELD_def)

lemma iter_begin_at:
  "dest \<noteq> 0 \<Longrightarrow> iter_at fs dest 0 (snd (pb_field_iter_begin fs dest))"
  by (simp add: pb_field_iter_begin_def iter_at_def Let_def)

lemma iter_begin_True: "fields_ok fs \<Longrightarrow> fst (pb_field_iter_begin fs dest) \<longleftrightarrow> fs \<noteq> []"
  using field_at_tag [of fs 0] by (auto simp: pb_field_iter_begin_def Let_def)

lemma required_oneof: "PB_HTYPE_ONEOF \<noteq> PB_HTYPE_REQUIRED" "PB_HTYPE_REQUIRED \<noteq> PB_HTYPE_ONEOF"
  by (simp_all add: PB_HTYPE_ONEOF_def PB_HTYPE_REQUIRED_def)

lemma iter_next_at:
  assumes "fields_ok fs" "dest \<noteq> 0" "iter_at fs dest i iter" "i < length fs"
  shows "if Suc i < length fs then fst (pb_field_iter_next iter) \<and> iter_at fs dest (Suc i) (snd (pb_field_iter_next iter))
         else \<not> fst (pb_field_iter_next iter) \<and> iter_at fs dest 0 (snd (pb_field_iter_next iter))"
  using assms field_at_tag [OF assms(1)]
  by (auto simp: pb_field_iter_next_def iter_at_def iter_field_def Let_def iter_begin_at field_extent_def
      shares_union_def required_oneof iter_begin_at [unfolded iter_at_def])

text \<open>The positions a search from \<open>i\<close> visits before it is back at \<open>s\<close>.\<close>

definition search_range :: "nat \<Rightarrow> nat \<Rightarrow> nat \<Rightarrow> nat set" where
  "search_range len i s = (if i < s then {i..<s} else {i..<len} \<union> {0..<s})"

definition field_matches :: "pb_field_t \<Rightarrow> u32 \<Rightarrow> bool" where
  "field_matches f tg \<longleftrightarrow> tag f = tg \<and> PB_LTYPE (type f) \<noteq> PB_LTYPE_EXTENSION"

lemma search_range_next:
  assumes "i < len" "s < len"
  defines "i' \<equiv> (if Suc i < len then Suc i else 0)"
  shows "search_range len i s = (if i' = s then {i} else insert i (search_range len i' s))"
  using assms by (auto simp: search_range_def)

lemma iter_find_loop_at:
  assumes "fields_ok fs" "dest \<noteq> 0" "s < length fs"
  shows "iter_at fs dest i iter \<Longrightarrow> i < length fs \<Longrightarrow> card (search_range (length fs) i s) \<le> n \<Longrightarrow>
    \<exists>b iter' j. pb_field_iter_find_loop n s iter tg = Some (b, iter') \<and> j < length fs \<and> iter_at fs dest j iter' \<and>
      (b \<longrightarrow> field_matches (fs ! j) tg) \<and>
      (b \<longleftrightarrow> (\<exists>k \<in> search_range (length fs) i s. field_matches (fs ! k) tg))"
proof (induction n arbitrary: i iter)
  case 0
  then show ?case
    using assms(3) by (auto simp: search_range_def split: if_splits)
next
  case (Suc n)
  define i' where "i' = (if Suc i < length fs then Suc i else 0)"
  define iter' where "iter' = snd (pb_field_iter_next iter)"
  have at: "iter_at fs dest i' iter'" and i': "i' < length fs"
    using iter_next_at [OF assms(1,2) Suc.prems(1,2)] Suc.prems(2) by (auto simp: i'_def iter'_def split: if_splits)
  have pos: "pos iter' = i'" and fld: "iter_field iter = fs ! i"
    using at Suc.prems by (auto simp: iter_at_def iter_field_def field_at_def)
  have range: "search_range (length fs) i s = (if i' = s then {i} else insert i (search_range (length fs) i' s))"
    using search_range_next [OF Suc.prems(2) assms(3)] by (simp add: i'_def)
  have notin: "i \<notin> search_range (length fs) i' s" if "i' \<noteq> s"
    using that Suc.prems(2) assms(3) by (auto simp: search_range_def i'_def split: if_splits)
  have fin: "finite (search_range (length fs) i' s)"
    by (simp add: search_range_def)
  show ?case
  proof (cases "field_matches (fs ! i) tg")
    case True
    then show ?thesis
      using Suc.prems fld range by (auto simp: field_matches_def)
  next
    case False
    show ?thesis
    proof (cases "i' = s")
      case True
      with False at i' show ?thesis
        by (auto simp: field_matches_def fld range pos iter'_def [symmetric])
    next
      case neq: False
      have "card (search_range (length fs) i' s) \<le> n"
        using Suc.prems(3) notin [OF neq] fin neq by (simp add: range)
      from Suc.IH [OF at i' this] False neq show ?thesis
        by (auto simp: field_matches_def fld range pos iter'_def [symmetric])
    qed
  qed
qed

section \<open>Properties\<close>

text \<open>
  C14: \<open>pb_field_iter_find\<close> always returns. Started anywhere in a well-formed descriptor array it
  reports success exactly when some non-extension field carries the tag, and then stands at such
  a field with the data pointer that the structure layout assigns to it.
\<close>

theorem iter_find_correct:
  assumes "fields_ok fs" "dest \<noteq> 0" "i < length fs" "iter_at fs dest i iter"
  shows "\<exists>b iter' j. pb_field_iter_find iter tg = Some (b, iter') \<and> j < length fs \<and> iter_at fs dest j iter' \<and>
    (b \<longrightarrow> field_matches (fs ! j) tg) \<and> (b \<longleftrightarrow> (\<exists>f \<in> set fs. field_matches f tg))"
proof -
  have all: "search_range (length fs) i i = {0..<length fs}"
    using assms(3) by (auto simp: search_range_def)
  have "start iter = fs" "pos iter = i"
    using assms(4) by (auto simp: iter_at_def)
  then have "pb_field_iter_find iter tg = pb_field_iter_find_loop (length fs + 1) i iter tg"
    by (simp add: pb_field_iter_find_def)
  moreover have "(\<exists>f \<in> set fs. field_matches f tg) \<longleftrightarrow> (\<exists>k \<in> search_range (length fs) i i. field_matches (fs ! k) tg)"
    unfolding all by (metis atLeastLessThan_iff in_set_conv_nth zero_le)
  moreover have "card (search_range (length fs) i i) \<le> length fs + 1"
    by (simp add: all)
  ultimately show ?thesis
    using iter_find_loop_at [OF assms(1,2,3,4,3), of "length fs + 1" tg] by simp
qed

definition example_fields :: "pb_field_t list" where
  "example_fields =
    [\<lparr>tag = 1, type = 0x01, data_offset = 0, size_offset = 0, data_size = 4, array_size = 0, ptr = 0\<rparr>,
     \<lparr>tag = 7, type = 0x12, data_offset = 4, size_offset = -4, data_size = 8, array_size = 0, ptr = 0\<rparr>]"

theorem iter_find_correct_witness:
  "\<exists>b iter' j. pb_field_iter_find (snd (pb_field_iter_begin example_fields 4096)) 7 = Some (b, iter') \<and>
    j < length example_fields \<and> iter_at example_fields 4096 j iter' \<and>
    (b \<longrightarrow> field_matches (example_fields ! j) 7) \<and> (b \<longleftrightarrow> (\<exists>f \<in> set example_fields. field_matches f 7))"
  by (rule iter_find_correct [of _ _ 0]) (simp_all add: iter_begin_at, simp_all add: fields_ok_def example_fields_def)

text \<open>
  C26: a full walk. From the start of a structure the iterator visits every descriptor once, in
  order, each with the data pointer of the layout, and is back at the beginning after the last
  one, where \<open>pb_field_iter_next\<close> reports the end.
\<close>

theorem iter_walk_correct:
  assumes "fields_ok fs" "dest \<noteq> 0" "i < length fs"
  shows "let iter = ((\<lambda>it. snd (pb_field_iter_next it)) ^^ i) (snd (pb_field_iter_begin fs dest)) in
    iter_field iter = fs ! i \<and> pData iter = dest + field_offset fs i \<and>
    fst (pb_field_iter_next iter) = (Suc i < length fs) \<and>
    (Suc i = length fs \<longrightarrow> pos (snd (pb_field_iter_next iter)) = 0)"
proof -
  have at: "iter_at fs dest i (((\<lambda>it. snd (pb_field_iter_next it)) ^^ i) (snd (pb_field_iter_begin fs dest)))"
    using assms(3)
  proof (induction i)
    case 0
    then show ?case using iter_begin_at [OF assms(2)] by simp
  next
    case (Suc i)
    then have "i < length fs" by simp
    from iter_next_at [OF assms(1,2) Suc.IH [OF this] this] Suc.prems show ?case
      by simp
  qed
  from iter_next_at [OF assms(1,2) at assms(3)] at assms(3) show ?thesis
    by (auto simp: Let_def iter_at_def iter_field_def field_at_def split: if_splits)
qed

theorem iter_walk_correct_witness:
  "pData (snd (pb_field_iter_next (snd (pb_field_iter_begin example_fields 4096)))) = 4104"
proof -
  have "field_offset example_fields 1 = 8" "fields_ok example_fields" "1 < length example_fields"
    by code_simp+
  then show ?thesis
    using iter_walk_correct [of example_fields 4096 1] by (simp add: Let_def)
qed

end
