(* ===== verification/Nanopb_Encode.thy ===== *)
theory Nanopb_Encode
  imports Nanopb_Common
begin

text \<open>
  \<^verbatim>\<open>Pods/nanopb/pb_encode.c\<close>: output streams, the wire-format primitives and the message encoder.
  A stream callback is a function on the stream's private state; the callback of a buffer stream
  is \<open>buf_write\<close>, whose state is the content stored before the write pointer. Field callbacks and
  custom extension encoders are user code: they are the functions \<open>encode_cb\<close> and \<open>ext_encode\<close> of
  the environment, indexed by the function pointer found in memory.

  Message structures may be recursive, so the message encoder takes fuel; the outcome \<open>None\<close>
  means that the fuel ran out.
\<close>

section \<open>Output streams\<close>

record 's pb_ostream_t =
  callback :: "('s option \<Rightarrow> bytes \<Rightarrow> bool \<times> 's option) option"
  state :: "'s option" \<comment> \<open>\<open>None\<close> is the null pointer\<close>
  max_size :: u64
  bytes_written :: u64
  errmsg :: "string option"

type_synonym 's ores = "(bool \<times> 's pb_ostream_t) option"

definition PB_SET_ERROR :: "'s pb_ostream_t \<Rightarrow> string \<Rightarrow> 's pb_ostream_t" where
  "PB_SET_ERROR stream msg = stream\<lparr>errmsg := (case errmsg stream of Some e \<Rightarrow> Some e | None \<Rightarrow> Some msg)\<rparr>"

definition PB_RETURN_ERROR :: "'s pb_ostream_t \<Rightarrow> string \<Rightarrow> 's ores" where
  "PB_RETURN_ERROR stream msg = Some (False, PB_SET_ERROR stream msg)"

definition PB_OSTREAM_SIZING :: "'s pb_ostream_t" where
  "PB_OSTREAM_SIZING = \<lparr>callback = None, state = None, max_size = 0, bytes_written = 0, errmsg = None\<rparr>"

text \<open>Storing through a null pointer has no defined result; the model reports it as a failure.\<close>

definition buf_write :: "bytes option \<Rightarrow> bytes \<Rightarrow> bool \<times> bytes option" where
  "buf_write dest buf = (case dest of Some stored \<Rightarrow> (True, Some (stored @ buf)) | None \<Rightarrow> (False, None))"

definition pb_ostream_from_buffer :: "u64 \<Rightarrow> bytes pb_ostream_t" where
  "pb_ostream_from_buffer bufsize =
     \<lparr>callback = Some buf_write, state = Some [], max_size = bufsize, bytes_written = 0, errmsg = None\<rparr>"

definition pb_write :: "'s pb_ostream_t \<Rightarrow> bytes \<Rightarrow> u64 \<Rightarrow> 's ores" where
  "pb_write stream buf count =
     (case callback stream of
        Some cb \<Rightarrow>
          if 0 < count then
            if bytes_written stream + count < bytes_written stream \<or> max_size stream < bytes_written stream + count
            then PB_RETURN_ERROR stream ''stream full''
            else
              let (ok, st') = cb (state stream) (take (unat count) buf); stream' = stream\<lparr>state := st'\<rparr>
              in if \<not> ok then PB_RETURN_ERROR stream' ''io error''
                 else Some (True, stream'\<lparr>bytes_written := bytes_written stream' + count\<rparr>)
          else Some (True, stream\<lparr>bytes_written := bytes_written stream + count\<rparr>)
      | None \<Rightarrow> Some (True, stream\<lparr>bytes_written := bytes_written stream + count\<rparr>))"

text \<open>Statements in sequence: \<open>if (!f(stream)) return false;\<close> followed by the rest.\<close>

definition and_then :: "('s pb_ostream_t \<Rightarrow> 's ores) \<Rightarrow> ('s pb_ostream_t \<Rightarrow> 's ores) \<Rightarrow> 's pb_ostream_t \<Rightarrow> 's ores" where
  "and_then f g stream =
     (case f stream of None \<Rightarrow> None | Some (ok, stream') \<Rightarrow> if \<not> ok then Some (False, stream') else g stream')"

section \<open>Wire-format primitives\<close>

text \<open>The buffer that the loop of \<open>pb_encode_varint\<close> fills, top bits all set.\<close>

function varint_bytes :: "u64 \<Rightarrow> bytes" where
  "varint_bytes value = (if value = 0 then [] else (ucast (value AND 0x7F) OR 0x80) # varint_bytes (drop_bit 7 value))"
  by pat_completeness auto
termination
  by (relation "measure unat")
    (auto simp: drop_bit_eq_div unat_div word_neq_0_conv word_less_nat_alt)

definition pb_encode_varint :: "u64 \<Rightarrow> 's pb_ostream_t \<Rightarrow> 's ores" where
  "pb_encode_varint value stream =
     (if value \<le> 0x7F then pb_write stream [ucast value] 1
      else
        let buffer = varint_bytes value; i = length buffer;
            buffer' = buffer[i - 1 := buffer ! (i - 1) AND 0x7F]
        in pb_write stream buffer' (word_of_nat i))"

definition pb_encode_svarint :: "64 word \<Rightarrow> 's pb_ostream_t \<Rightarrow> 's ores" where
  "pb_encode_svarint value stream =
     (let zigzagged = (if value <s 0 then NOT (push_bit 1 value) else push_bit 1 value)
      in pb_encode_varint zigzagged stream)"

definition pb_encode_fixed32 :: "u32 \<Rightarrow> 's pb_ostream_t \<Rightarrow> 's ores" where
  "pb_encode_fixed32 val stream =
     pb_write stream [ucast (val AND 0xFF), ucast (drop_bit 8 val AND 0xFF), ucast (drop_bit 16 val AND 0xFF),
       ucast (drop_bit 24 val AND 0xFF)] 4"

definition pb_encode_fixed64 :: "u64 \<Rightarrow> 's pb_ostream_t \<Rightarrow> 's ores" where
  "pb_encode_fixed64 val stream =
     pb_write stream [ucast (val AND 0xFF), ucast (drop_bit 8 val AND 0xFF), ucast (drop_bit 16 val AND 0xFF),
       ucast (drop_bit 24 val AND 0xFF), ucast (drop_bit 32 val AND 0xFF), ucast (drop_bit 40 val AND 0xFF),
       ucast (drop_bit 48 val AND 0xFF), ucast (drop_bit 56 val AND 0xFF)] 8"

definition pb_encode_tag :: "pb_wire_type_t \<Rightarrow> u32 \<Rightarrow> 's pb_ostream_t \<Rightarrow> 's ores" where
  "pb_encode_tag wiretype field_number stream =
     pb_encode_varint (push_bit 3 (ucast field_number) OR ucast (wire_type_value wiretype)) stream"

definition pb_encode_tag_for_field :: "pb_field_t \<Rightarrow> 's pb_ostream_t \<Rightarrow> 's ores" where
  "pb_encode_tag_for_field field stream =
     (let lt = PB_LTYPE (type field) in
      if lt = PB_LTYPE_BOOL \<or> lt = PB_LTYPE_VARINT \<or> lt = PB_LTYPE_UVARINT \<or> lt = PB_LTYPE_SVARINT
      then pb_encode_tag PB_WT_VARINT (tag field) stream
      else if lt = PB_LTYPE_FIXED32 then pb_encode_tag PB_WT_32BIT (tag field) stream
      else if lt = PB_LTYPE_FIXED64 then pb_encode_tag PB_WT_64BIT (tag field) stream
      else if lt = PB_LTYPE_BYTES \<or> lt = PB_LTYPE_STRING \<or> lt = PB_LTYPE_SUBMESSAGE
              \<or> lt = PB_LTYPE_FIXED_LENGTH_BYTES
      then pb_encode_tag PB_WT_STRING (tag field) stream
      else PB_RETURN_ERROR stream ''invalid field type'')"

text \<open>\<open>buffer\<close> holds the bytes at the pointer; at least \<open>sz\<close> of them.\<close>

definition pb_encode_string :: "bytes \<Rightarrow> u64 \<Rightarrow> 's pb_ostream_t \<Rightarrow> 's ores" where
  "pb_encode_string buffer sz =
     and_then (pb_encode_varint sz) (\<lambda>stream. pb_write stream buffer sz)"

section \<open>Field encoders\<close>

record 's pb_env =
  mem :: memory
  fields_of :: "u64 \<Rightarrow> pb_field_t list" \<comment> \<open>the descriptor array at an address\<close>
  encode_cb :: "u64 \<Rightarrow> pb_field_t \<Rightarrow> u64 \<Rightarrow> 's pb_ostream_t \<Rightarrow> bool \<times> 's pb_ostream_t"
  ext_encode :: "u64 \<Rightarrow> u64 \<Rightarrow> 's pb_ostream_t \<Rightarrow> bool \<times> 's pb_ostream_t"

definition safe_read_bool :: "memory \<Rightarrow> u64 \<Rightarrow> bool" where
  "safe_read_bool m p \<longleftrightarrow> mem_u8 m p \<noteq> 0"

definition pb_enc_bool :: "memory \<Rightarrow> pb_field_t \<Rightarrow> u64 \<Rightarrow> 's pb_ostream_t \<Rightarrow> 's ores" where
  "pb_enc_bool m field src = pb_encode_varint (if safe_read_bool m src then 1 else 0)"

text \<open>The signed integer of the size the descriptor gives, extended to 64 bits; \<open>None\<close> for an
  invalid \<open>data_size\<close>.\<close>

definition read_signed :: "memory \<Rightarrow> u32 \<Rightarrow> u64 \<Rightarrow> u64 option" where
  "read_signed m sz src =
     (if sz = 1 then Some (scast (mem_u8 m src)) else if sz = 2 then Some (scast (mem_u16 m src))
      else if sz = 4 then Some (scast (mem_u32 m src)) else if sz = 8 then Some (mem_u64 m src) else None)"

definition read_unsigned :: "memory \<Rightarrow> u32 \<Rightarrow> u64 \<Rightarrow> u64 option" where
  "read_unsigned m sz src =
     (if sz = 1 then Some (ucast (mem_u8 m src)) else if sz = 2 then Some (ucast (mem_u16 m src))
      else if sz = 4 then Some (ucast (mem_u32 m src)) else if sz = 8 then Some (mem_u64 m src) else None)"

definition pb_enc_varint :: "memory \<Rightarrow> pb_field_t \<Rightarrow> u64 \<Rightarrow> 's pb_ostream_t \<Rightarrow> 's ores" where
  "pb_enc_varint m field src stream =
     (case read_signed m (data_size field) src of
        None \<Rightarrow> PB_RETURN_ERROR stream ''invalid data_size''
      | Some value \<Rightarrow> pb_encode_varint value stream)"

definition pb_enc_uvarint :: "memory \<Rightarrow> pb_field_t \<Rightarrow> u64 \<Rightarrow> 's pb_ostream_t \<Rightarrow> 's ores" where
  "pb_enc_uvarint m field src stream =
     (case read_unsigned m (data_size field) src of
        None \<Rightarrow> PB_RETURN_ERROR stream ''invalid data_size''
      | Some value \<Rightarrow> pb_encode_varint value stream)"

definition pb_enc_svarint :: "memory \<Rightarrow> pb_field_t \<Rightarrow> u64 \<Rightarrow> 's pb_ostream_t \<Rightarrow> 's ores" where
  "pb_enc_svarint m field src stream =
     (case read_signed m (data_size field) src of
        None \<Rightarrow> PB_RETURN_ERROR stream ''invalid data_size''
      | Some value \<Rightarrow> pb_encode_svarint value stream)"

definition pb_enc_fixed32 :: "memory \<Rightarrow> pb_field_t \<Rightarrow> u64 \<Rightarrow> 's pb_ostream_t \<Rightarrow> 's ores" where
  "pb_enc_fixed32 m field src = pb_encode_fixed32 (mem_u32 m src)"

definition pb_enc_fixed64 :: "memory \<Rightarrow> pb_field_t \<Rightarrow> u64 \<Rightarrow> 's pb_ostream_t \<Rightarrow> 's ores" where
  "pb_enc_fixed64 m field src = pb_encode_fixed64 (mem_u64 m src)"

text \<open>\<open>pb_bytes_array_t\<close>: a 32-bit size at offset 0, the bytes at offset 4.\<close>

definition pb_enc_bytes :: "memory \<Rightarrow> pb_field_t \<Rightarrow> u64 \<Rightarrow> 's pb_ostream_t \<Rightarrow> 's ores" where
  "pb_enc_bytes m field src stream =
     (if src = 0 then pb_encode_string [] 0 stream
      else
        let sz = mem_u32 m src in
        if PB_ATYPE (type field) = PB_ATYPE_STATIC \<and> ucast (data_size field) - (4 :: u64) < ucast sz
        then PB_RETURN_ERROR stream ''bytes size exceeded''
        else pb_encode_string (mem_bytes m (src + 4) (unat sz)) (ucast sz) stream)"

text \<open>The \<open>strnlen\<close> loop of \<open>pb_enc_string\<close>. A pointer field has the limit \<open>(size_t)-1\<close>: the loop
  then ends at a NUL byte or when the address space is exhausted.\<close>

function strnlen_loop :: "memory \<Rightarrow> u64 \<Rightarrow> u64 \<Rightarrow> u64 \<Rightarrow> u64" where
  "strnlen_loop m src limit sz =
     (if sz < limit \<and> mem_u8 m (src + sz) \<noteq> 0 then strnlen_loop m src limit (sz + 1) else sz)"
  by pat_completeness auto
termination
proof (relation "measure (\<lambda>(m, src, limit, sz). unat limit - unat sz)")
  fix m :: memory and src limit sz :: u64
  assume "sz < limit \<and> mem_u8 m (src + sz) \<noteq> 0"
  moreover from this have "unat (sz + 1) = unat sz + 1"
    using unat_lt_u64 [of limit] by (simp add: word_less_nat_alt unat_plus_if')
  ultimately show "((m, src, limit, sz + 1), (m, src, limit, sz)) \<in> measure (\<lambda>(m, src, limit, sz). unat limit - unat sz)"
    by (auto simp: word_less_nat_alt)
qed simp

definition pb_enc_string :: "memory \<Rightarrow> pb_field_t \<Rightarrow> u64 \<Rightarrow> 's pb_ostream_t \<Rightarrow> 's ores" where
  "pb_enc_string m field src stream =
     (let limit = (if PB_ATYPE (type field) = PB_ATYPE_POINTER then - 1 else ucast (data_size field));
          sz = (if src = 0 then 0 else strnlen_loop m src limit 0)
      in pb_encode_string (mem_bytes m src (unat sz)) sz stream)"

definition pb_enc_fixed_length_bytes :: "memory \<Rightarrow> pb_field_t \<Rightarrow> u64 \<Rightarrow> 's pb_ostream_t \<Rightarrow> 's ores" where
  "pb_enc_fixed_length_bytes m field src =
     pb_encode_string (mem_bytes m src (unat (data_size field))) (ucast (data_size field))"

section \<open>Walking over the fields of a structure\<close>

text \<open>\<^verbatim>\<open>do { if (!body) return false; } while (pb_field_iter_next(&iter));\<close>\<close>

function iter_walk ::
    "(pb_field_iter_t \<Rightarrow> 'a \<Rightarrow> (bool \<times> 'a) option) \<Rightarrow> pb_field_iter_t \<Rightarrow> 'a \<Rightarrow> (bool \<times> 'a) option" where
  "iter_walk body iter st =
     (case body iter st of None \<Rightarrow> None
      | Some (ok, st') \<Rightarrow>
          if \<not> ok then Some (False, st')
          else if fst (pb_field_iter_next iter) then iter_walk body (snd (pb_field_iter_next iter)) st'
          else Some (True, st'))"
  by pat_completeness auto
termination
proof (relation "measure (\<lambda>(body, iter, st). length (start iter) - pos iter)")
  fix body :: "pb_field_iter_t \<Rightarrow> 'a \<Rightarrow> (bool \<times> 'a) option" and iter st x1 x2 and ok st'
  assume "fst (pb_field_iter_next iter)"
  then have "start (snd (pb_field_iter_next iter)) = start iter" "pos (snd (pb_field_iter_next iter)) = pos iter + 1"
      "pos iter + 1 < length (start iter)"
    by (auto simp: pb_field_iter_next_def Let_def iter_field_def field_at_def PB_LAST_FIELD_def split: if_splits)
  then show "((body, snd (pb_field_iter_next iter), st'), body, iter, st) \<in>
      measure (\<lambda>(body, iter, st). length (start iter) - pos iter)"
    by simp
qed simp

declare iter_walk.simps [simp del] varint_bytes.simps [simp del] strnlen_loop.simps [simp del]

text \<open>The submessage loop of \<open>pb_check_proto3_default_value\<close> and the function itself.\<close>

definition check_submessage_default ::
    "(pb_field_t \<Rightarrow> u64 \<Rightarrow> bool option) \<Rightarrow> pb_field_t list \<Rightarrow> u64 \<Rightarrow> bool option" where
  "check_submessage_default check fs pd =
     (let (ne, iter) = pb_field_iter_begin fs pd in
      if ne then map_option fst
        (iter_walk (\<lambda>it _. map_option (\<lambda>b. (b, ())) (check (iter_field it) (pData it))) iter ())
      else Some True)"

fun pb_check_proto3_default_value ::
    "nat \<Rightarrow> memory \<Rightarrow> (u64 \<Rightarrow> pb_field_t list) \<Rightarrow> pb_field_t \<Rightarrow> u64 \<Rightarrow> bool option" where
  "pb_check_proto3_default_value 0 m fof field pd = None"
| "pb_check_proto3_default_value (Suc n) m fof field pd =
     (let ty = type field; ps = pd + scast (size_offset field) in
      if PB_HTYPE ty = PB_HTYPE_REQUIRED then Some False
      else if PB_HTYPE ty = PB_HTYPE_REPEATED \<and> size_offset field \<noteq> 0 then Some (mem_u32 m ps = 0)
      else if PB_HTYPE ty = PB_HTYPE_REPEATED \<and> PB_ATYPE ty = PB_ATYPE_STATIC then Some False
      else if PB_HTYPE ty = PB_HTYPE_ONEOF then Some (mem_u32 m ps = 0)
      else if PB_HTYPE ty = PB_HTYPE_OPTIONAL \<and> size_offset field \<noteq> 0 then Some (\<not> safe_read_bool m ps)
      else if PB_ATYPE ty = PB_ATYPE_STATIC \<and> PB_LTYPE ty = PB_LTYPE_BYTES then Some (mem_u32 m pd = 0)
      else if PB_ATYPE ty = PB_ATYPE_STATIC \<and> PB_LTYPE ty = PB_LTYPE_STRING then Some (mem_u8 m pd = 0)
      else if PB_ATYPE ty = PB_ATYPE_STATIC \<and> PB_LTYPE ty = PB_LTYPE_FIXED_LENGTH_BYTES
      then Some (data_size field = 0)
      else if PB_ATYPE ty = PB_ATYPE_STATIC \<and> PB_LTYPE ty = PB_LTYPE_SUBMESSAGE
      then check_submessage_default (pb_check_proto3_default_value n m fof) (fof (ptr field)) pd
      else if PB_ATYPE ty = PB_ATYPE_POINTER \<and> PB_LTYPE_LAST_PACKABLE < PB_LTYPE ty
      then Some (mem_u64 m pd = 0)
      else Some (\<forall>b \<in> set (mem_bytes m pd (unat (data_size field))). b = 0))"

section \<open>Arrays and submessages\<close>

text \<open>\<^verbatim>\<open>for (i = 0; i < count; i++) { if (!func(stream, field, p)) return false; p += data_size; }\<close>\<close>

fun array_loop :: "(u64 \<Rightarrow> 's pb_ostream_t \<Rightarrow> 's ores) \<Rightarrow> u64 \<Rightarrow> nat \<Rightarrow> u64 \<Rightarrow> 's pb_ostream_t \<Rightarrow> 's ores" where
  "array_loop item step 0 p stream = Some (True, stream)"
| "array_loop item step (Suc n) p stream = and_then (item p) (array_loop item step n (p + step)) stream"

text \<open>A packed array: the size of its content, by the fixed width of an item or by a sizing pass, then
  the length and the items. \<open>Some None\<close> is a failed sizing pass.\<close>

definition packed_size :: "pb_field_t \<Rightarrow> u64 \<Rightarrow> u32 \<Rightarrow> (u64 \<Rightarrow> 's pb_ostream_t \<Rightarrow> 's ores) \<Rightarrow> u64 option option" where
  "packed_size field pd count func =
     (if PB_LTYPE (type field) = PB_LTYPE_FIXED32 then Some (Some (4 * ucast count))
      else if PB_LTYPE (type field) = PB_LTYPE_FIXED64 then Some (Some (8 * ucast count))
      else case array_loop func (ucast (data_size field)) (unat count) pd PB_OSTREAM_SIZING of
        None \<Rightarrow> None
      | Some (ok, sizestream) \<Rightarrow> Some (if ok then Some (bytes_written sizestream) else None))"

definition packed_write :: "pb_field_t \<Rightarrow> u64 \<Rightarrow> u32 \<Rightarrow> (u64 \<Rightarrow> 's pb_ostream_t \<Rightarrow> 's ores) \<Rightarrow> 's pb_ostream_t \<Rightarrow> 's ores" where
  "packed_write field pd count func stream =
     (case packed_size field pd count func of
        None \<Rightarrow> None
      | Some None \<Rightarrow> Some (False, stream)
      | Some (Some sz) \<Rightarrow>
          and_then (pb_encode_varint sz)
            (\<lambda>stream. if callback stream = None then pb_write stream [] sz
                      else array_loop func (ucast (data_size field)) (unat count) pd stream) stream)"

definition encode_array :: "memory \<Rightarrow> pb_field_t \<Rightarrow> u64 \<Rightarrow> u32 \<Rightarrow>
    (u64 \<Rightarrow> 's pb_ostream_t \<Rightarrow> 's ores) \<Rightarrow> 's pb_ostream_t \<Rightarrow> 's ores" where
  "encode_array m field pd count func stream =
     (let ty = type field; step = ucast (data_size field) in
      if count = 0 then Some (True, stream)
      else if PB_ATYPE ty \<noteq> PB_ATYPE_POINTER \<and> array_size field < count
      then PB_RETURN_ERROR stream ''array max size exceeded''
      else if PB_LTYPE ty \<le> PB_LTYPE_LAST_PACKABLE then
        and_then (pb_encode_tag PB_WT_STRING (tag field)) (packed_write field pd count func) stream
      else
        array_loop
          (\<lambda>p. and_then (pb_encode_tag_for_field field)
             (func (if PB_ATYPE ty = PB_ATYPE_POINTER \<and>
                       (PB_LTYPE ty = PB_LTYPE_STRING \<or> PB_LTYPE ty = PB_LTYPE_BYTES)
                    then mem_u64 m p else p)))
          step (unat count) pd stream)"

text \<open>\<open>enc\<close> is the call of \<open>pb_encode\<close> on the submessage. The second half of the function writes the
  submessage, whose size the sizing pass has found, through a substream.\<close>

definition submessage_write :: "('s pb_ostream_t \<Rightarrow> 's ores) \<Rightarrow> u64 \<Rightarrow> 's pb_ostream_t \<Rightarrow> 's ores" where
  "submessage_write enc sz stream =
     (if callback stream = None then pb_write stream [] sz
      else if max_size stream < bytes_written stream + sz then PB_RETURN_ERROR stream ''stream full''
      else case enc \<lparr>callback = callback stream, state = state stream, max_size = sz,
                     bytes_written = 0, errmsg = None\<rparr> of
             None \<Rightarrow> None
           | Some (status, sub') \<Rightarrow>
               let stream' = stream\<lparr>bytes_written := bytes_written stream + bytes_written sub',
                     state := state sub', errmsg := errmsg sub'\<rparr>
               in if bytes_written sub' \<noteq> sz then PB_RETURN_ERROR stream' ''submsg size changed''
                  else Some (status, stream'))"

definition pb_encode_submessage :: "('s pb_ostream_t \<Rightarrow> 's ores) \<Rightarrow> 's pb_ostream_t \<Rightarrow> 's ores" where
  "pb_encode_submessage enc stream =
     (case enc PB_OSTREAM_SIZING of
        None \<Rightarrow> None
      | Some (ok, sub) \<Rightarrow>
          if \<not> ok then Some (False, stream\<lparr>errmsg := errmsg sub\<rparr>)
          else and_then (pb_encode_varint (bytes_written sub)) (submessage_write enc (bytes_written sub)) stream)"

definition pb_enc_submessage :: "(pb_field_t list \<Rightarrow> u64 \<Rightarrow> 's pb_ostream_t \<Rightarrow> 's ores) \<Rightarrow> 's pb_env \<Rightarrow>
    pb_field_t \<Rightarrow> u64 \<Rightarrow> 's pb_ostream_t \<Rightarrow> 's ores" where
  "pb_enc_submessage enc env field src stream =
     (if ptr field = 0 then PB_RETURN_ERROR stream ''invalid field descriptor''
      else pb_encode_submessage (enc (fields_of env (ptr field)) src) stream)"

text \<open>
  The table \<open>PB_ENCODERS\<close>. It has no entry for extensions and for numbers past its end; every
  caller has written the field's tag first, which fails for those types.
\<close>

definition PB_ENCODERS :: "(pb_field_t list \<Rightarrow> u64 \<Rightarrow> 's pb_ostream_t \<Rightarrow> 's ores) \<Rightarrow> 's pb_env \<Rightarrow> u8 \<Rightarrow>
    pb_field_t \<Rightarrow> u64 \<Rightarrow> 's pb_ostream_t \<Rightarrow> 's ores" where
  "PB_ENCODERS enc env lt =
     (if lt = PB_LTYPE_BOOL then pb_enc_bool (mem env)
      else if lt = PB_LTYPE_VARINT then pb_enc_varint (mem env)
      else if lt = PB_LTYPE_UVARINT then pb_enc_uvarint (mem env)
      else if lt = PB_LTYPE_SVARINT then pb_enc_svarint (mem env)
      else if lt = PB_LTYPE_FIXED32 then pb_enc_fixed32 (mem env)
      else if lt = PB_LTYPE_FIXED64 then pb_enc_fixed64 (mem env)
      else if lt = PB_LTYPE_BYTES then pb_enc_bytes (mem env)
      else if lt = PB_LTYPE_STRING then pb_enc_string (mem env)
      else if lt = PB_LTYPE_SUBMESSAGE then pb_enc_submessage enc env
      else if lt = PB_LTYPE_FIXED_LENGTH_BYTES then pb_enc_fixed_length_bytes (mem env)
      else (\<lambda>field src stream. Some (False, stream)))"

section \<open>Fields\<close>

definition encode_basic_field :: "nat \<Rightarrow> (pb_field_t list \<Rightarrow> u64 \<Rightarrow> 's pb_ostream_t \<Rightarrow> 's ores) \<Rightarrow> 's pb_env \<Rightarrow>
    pb_field_t \<Rightarrow> u64 \<Rightarrow> 's pb_ostream_t \<Rightarrow> 's ores" where
  "encode_basic_field n enc env field pd0 stream =
     (let m = mem env; ty = type field; func = PB_ENCODERS enc env (PB_LTYPE ty) field;
          ps = pd0 + scast (size_offset field);
          implicit_has0 =
            (if size_offset field \<noteq> 0 then Some True
             else if PB_HTYPE ty = PB_HTYPE_OPTIONAL
             then map_option Not (pb_check_proto3_default_value n m (fields_of env) field pd0)
             else Some True)
      in case implicit_has0 of
           None \<Rightarrow> None
         | Some ih \<Rightarrow>
             let is_ptr = (PB_ATYPE ty = PB_ATYPE_POINTER);
                 pd = (if is_ptr then mem_u64 m pd0 else pd0);
                 implicit_has = (if is_ptr then pd \<noteq> 0 else ih);
                 has = (if size_offset field \<noteq> 0 then safe_read_bool m ps else implicit_has);
                 item = and_then (pb_encode_tag_for_field field) (func pd)
             in if PB_HTYPE ty = PB_HTYPE_REQUIRED then
                  if pd = 0 then PB_RETURN_ERROR stream ''missing required field'' else item stream
                else if PB_HTYPE ty = PB_HTYPE_OPTIONAL then
                  if has then item stream else Some (True, stream)
                else if PB_HTYPE ty = PB_HTYPE_REPEATED then
                  encode_array m field pd (if size_offset field \<noteq> 0 then mem_u32 m ps else array_size field) func stream
                else if mem_u32 m ps = tag field then item stream else Some (True, stream))"

definition encode_callback_field :: "'s pb_env \<Rightarrow> pb_field_t \<Rightarrow> u64 \<Rightarrow> 's pb_ostream_t \<Rightarrow> 's ores" where
  "encode_callback_field env field pd stream =
     (let fn = mem_u64 (mem env) pd in
      if fn \<noteq> 0 then
        let (ok, stream') = encode_cb env fn field (pd + 8) stream
        in if \<not> ok then PB_RETURN_ERROR stream' ''callback error'' else Some (True, stream')
      else Some (True, stream))"

definition encode_field :: "nat \<Rightarrow> (pb_field_t list \<Rightarrow> u64 \<Rightarrow> 's pb_ostream_t \<Rightarrow> 's ores) \<Rightarrow> 's pb_env \<Rightarrow>
    pb_field_t \<Rightarrow> u64 \<Rightarrow> 's pb_ostream_t \<Rightarrow> 's ores" where
  "encode_field n enc env field pd stream =
     (if PB_ATYPE (type field) = PB_ATYPE_STATIC \<or> PB_ATYPE (type field) = PB_ATYPE_POINTER
      then encode_basic_field n enc env field pd stream
      else if PB_ATYPE (type field) = PB_ATYPE_CALLBACK then encode_callback_field env field pd stream
      else PB_RETURN_ERROR stream ''invalid field type'')"

text \<open>\<open>pb_extension_t\<close> in memory: type, dest, next at offsets 0, 8, 16; \<open>pb_extension_type_t\<close>:
  decode, encode, arg at offsets 0, 8, 16.\<close>

definition default_extension_encoder :: "nat \<Rightarrow> (pb_field_t list \<Rightarrow> u64 \<Rightarrow> 's pb_ostream_t \<Rightarrow> 's ores) \<Rightarrow> 's pb_env \<Rightarrow>
    u64 \<Rightarrow> 's pb_ostream_t \<Rightarrow> 's ores" where
  "default_extension_encoder n enc env ext stream =
     (let m = mem env; field = field_at (fields_of env (mem_u64 m (mem_u64 m ext + 16))) 0 in
      if PB_ATYPE (type field) = PB_ATYPE_POINTER then encode_field n enc env field (ext + 8) stream
      else encode_field n enc env field (mem_u64 m (ext + 8)) stream)"

fun extension_loop :: "nat \<Rightarrow> 's pb_env \<Rightarrow> (u64 \<Rightarrow> 's pb_ostream_t \<Rightarrow> 's ores) \<Rightarrow> u64 \<Rightarrow> 's pb_ostream_t \<Rightarrow> 's ores" where
  "extension_loop 0 env dflt ext stream = None"
| "extension_loop (Suc n) env dflt ext stream =
     (if ext = 0 then Some (True, stream)
      else
        let m = mem env; fn = mem_u64 m (mem_u64 m ext + 8)
        in and_then (if fn \<noteq> 0 then (\<lambda>s. Some (ext_encode env fn ext s)) else dflt ext)
             (extension_loop n env dflt (mem_u64 m (ext + 16))) stream)"

definition encode_extension_field :: "nat \<Rightarrow> (pb_field_t list \<Rightarrow> u64 \<Rightarrow> 's pb_ostream_t \<Rightarrow> 's ores) \<Rightarrow> 's pb_env \<Rightarrow>
    u64 \<Rightarrow> 's pb_ostream_t \<Rightarrow> 's ores" where
  "encode_extension_field n enc env pd =
     extension_loop n env (default_extension_encoder n enc env) (mem_u64 (mem env) pd)"

section \<open>Messages\<close>

fun pb_encode :: "nat \<Rightarrow> 's pb_env \<Rightarrow> pb_field_t list \<Rightarrow> u64 \<Rightarrow> 's pb_ostream_t \<Rightarrow> 's ores" where
  "pb_encode 0 env fs src stream = None"
| "pb_encode (Suc n) env fs src stream =
     (let (ne, iter) = pb_field_iter_begin fs src in
      if \<not> ne then Some (True, stream)
      else iter_walk
        (\<lambda>it. if PB_LTYPE (type (iter_field it)) = PB_LTYPE_EXTENSION
              then encode_extension_field n (pb_encode n env) env (pData it)
              else encode_field n (pb_encode n env) env (iter_field it) (pData it))
        iter stream)"

definition pb_encode_delimited :: "nat \<Rightarrow> 's pb_env \<Rightarrow> pb_field_t list \<Rightarrow> u64 \<Rightarrow> 's pb_ostream_t \<Rightarrow> 's ores" where
  "pb_encode_delimited n env fs src = pb_encode_submessage (pb_encode n env fs src)"

definition pb_encode_nullterminated :: "nat \<Rightarrow> 's pb_env \<Rightarrow> pb_field_t list \<Rightarrow> u64 \<Rightarrow> 's pb_ostream_t \<Rightarrow> 's ores" where
  "pb_encode_nullterminated n env fs src =
     and_then (pb_encode n env fs src) (\<lambda>stream. pb_write stream [0] 1)"

text \<open>\<open>None\<close>: out of fuel; \<open>Some None\<close>: the return value false.\<close>

definition pb_get_encoded_size :: "nat \<Rightarrow> 's pb_env \<Rightarrow> pb_field_t list \<Rightarrow> u64 \<Rightarrow> u64 option option" where
  "pb_get_encoded_size n env fs src =
     (case pb_encode n env fs src PB_OSTREAM_SIZING of
        None \<Rightarrow> None
      | Some (ok, stream) \<Rightarrow> Some (if ok then Some (bytes_written stream) else None))"

end
