(* ===== verification/Nanopb_Encode_Correct.thy ===== *)
theory Nanopb_Encode_Correct
  imports Nanopb_Encode
begin

text \<open>
  Correctness of the nanopb encoder: a reference encoder that says which bytes a message is on
  the wire, the relation between an operation on streams and a reference outcome, and the
  proof that every operation of \<^verbatim>\<open>pb_encode.c\<close> respects it, on sizing streams and on buffers.
\<close>


section \<open>Reference encoder\<close>

text \<open>
  What a message should look like on the wire, without streams, sizing passes or buffers: the
  bytes of an encoding, a failure, or (\<open>Stuck\<close>) fuel that ran out. Encodings of \<open>2 ^ 63\<close> bytes and
  more, larger than any object, are left out as \<open>Undef\<close>.
\<close>

datatype outcome = Emit bytes | Fail | Stuck | Undef

definition emit :: "bytes \<Rightarrow> outcome" where
  "emit bs = (if length bs < 2 ^ 63 then Emit bs else Undef)"

lemma emit_code [code]: "emit bs = (if int (length bs) < 2 ^ 63 then Emit bs else Undef)"
  by (simp add: emit_def)

fun seq :: "outcome \<Rightarrow> outcome \<Rightarrow> outcome" where
  "seq (Emit a) (Emit b) = emit (a @ b)"
| "seq (Emit a) r = r"
| "seq r _ = r"

fun varint_ref :: "nat \<Rightarrow> bytes" where
  "varint_ref n = (if n < 128 then [word_of_nat n] else word_of_nat (128 + n mod 128) # varint_ref (n div 128))"

declare varint_ref.simps [simp del]

definition tag_ref :: "pb_wire_type_t \<Rightarrow> u32 \<Rightarrow> bytes" where
  "tag_ref wt num = varint_ref (8 * unat num + unat (wire_type_value wt))"

section \<open>Buffer streams and the refinement relation\<close>

definition buf_stream :: "bytes pb_ostream_t \<Rightarrow> bytes \<Rightarrow> bool" where
  "buf_stream s out \<longleftrightarrow> callback s = Some buf_write \<and> state s = Some out
     \<and> unat (bytes_written s) \<le> unat (max_size s) \<and> unat (max_size s) < 2 ^ 63"

definition sized :: "(bytes pb_ostream_t \<Rightarrow> bytes ores) \<Rightarrow> bytes \<Rightarrow> bool" where
  "sized f bs \<longleftrightarrow> (\<forall>s. callback s = None \<longrightarrow>
     (\<exists>e. f s = Some (True, s\<lparr>bytes_written := bytes_written s + word_of_nat (length bs), errmsg := e\<rparr>)))"

definition stored :: "(bytes pb_ostream_t \<Rightarrow> bytes ores) \<Rightarrow> bytes \<Rightarrow> bool" where
  "stored f bs \<longleftrightarrow> (\<forall>s out. buf_stream s out \<longrightarrow>
     (if unat (bytes_written s) + length bs \<le> unat (max_size s)
      then \<exists>e. f s = Some (True, s\<lparr>state := Some (out @ bs),
                bytes_written := bytes_written s + word_of_nat (length bs), errmsg := e\<rparr>)
      else \<exists>s'. f s = Some (False, s')))"

definition refuses :: "(bytes pb_ostream_t \<Rightarrow> bytes ores) \<Rightarrow> bool" where
  "refuses f \<longleftrightarrow> (\<forall>s out. callback s = None \<or> buf_stream s out \<longrightarrow> (\<exists>s'. f s = Some (False, s')))"

fun acts :: "(bytes pb_ostream_t \<Rightarrow> bytes ores) \<Rightarrow> outcome \<Rightarrow> bool" where
  "acts f (Emit bs) \<longleftrightarrow> length bs < 2 ^ 63 \<and> sized f bs \<and> stored f bs"
| "acts f Fail \<longleftrightarrow> refuses f"
| "acts f Stuck \<longleftrightarrow> (\<forall>s. callback s = None \<longrightarrow> f s = None)"
| "acts f Undef \<longleftrightarrow> True"

lemma sizedD: "sized f bs \<Longrightarrow> callback s = None \<Longrightarrow>
    \<exists>e. f s = Some (True, s\<lparr>bytes_written := bytes_written s + word_of_nat (length bs), errmsg := e\<rparr>)"
  by (simp add: sized_def)

lemma stored_fits: "stored f bs \<Longrightarrow> buf_stream s out \<Longrightarrow> unat (bytes_written s) + length bs \<le> unat (max_size s) \<Longrightarrow>
    \<exists>e. f s = Some (True, s\<lparr>state := Some (out @ bs), bytes_written := bytes_written s + word_of_nat (length bs), errmsg := e\<rparr>)"
  unfolding stored_def by metis

lemma stored_full: "stored f bs \<Longrightarrow> buf_stream s out \<Longrightarrow> \<not> unat (bytes_written s) + length bs \<le> unat (max_size s) \<Longrightarrow>
    \<exists>s'. f s = Some (False, s')"
  unfolding stored_def by metis

lemma refusesD: "refuses f \<Longrightarrow> callback s = None \<Longrightarrow> \<exists>s'. f s = Some (False, s')"
  unfolding refuses_def by blast

lemma buf_stream_step:
  assumes "buf_stream s out" "unat (bytes_written s) + n \<le> unat (max_size s)"
  shows "unat (bytes_written s + word_of_nat n) = unat (bytes_written s) + n"
    and "buf_stream (s\<lparr>state := Some o', bytes_written := bytes_written s + word_of_nat n, errmsg := e\<rparr>) o'"
proof -
  have n: "unat (word_of_nat n :: u64) = n" and "unat (bytes_written s) + n < 2 ^ 64"
    using assms unat_lt_u64 [of "max_size s"] by (auto simp: unat_word_of_nat)
  then show *: "unat (bytes_written s + word_of_nat n) = unat (bytes_written s) + n"
    by (simp add: unat_plus_if')
  show "buf_stream (s\<lparr>state := Some o', bytes_written := bytes_written s + word_of_nat n, errmsg := e\<rparr>) o'"
    using assms * by (simp add: buf_stream_def)
qed

lemma acts_write: 
  assumes "length buf = unat count" "unat count < 2 ^ 63"
  shows "acts (\<lambda>s. pb_write s buf count) (Emit buf)"
proof -
  have c: "word_of_nat (length buf) = count" by (simp add: assms(1))
  have "stored (\<lambda>s. pb_write s buf count) buf"
    unfolding stored_def
  proof (intro allI impI)
    fix s out assume b: "buf_stream s out"
    have sum: "unat (bytes_written s + count) = unat (bytes_written s) + unat count"
      using b assms by (simp add: buf_stream_def unat_plus_if')
    show "if unat (bytes_written s) + length buf \<le> unat (max_size s)
       then \<exists>e. pb_write s buf count = Some (True, s\<lparr>state := Some (out @ buf),
              bytes_written := bytes_written s + word_of_nat (length buf), errmsg := e\<rparr>)
       else \<exists>s'. pb_write s buf count = Some (False, s')"
      using b assms sum unfolding c
      by (cases "count = 0") (auto simp: pb_write_def buf_stream_def buf_write_def PB_RETURN_ERROR_def
          word_less_nat_alt Let_def intro!: exI [where x = "errmsg s"])
  qed
  moreover have "sized (\<lambda>s. pb_write s buf count) buf"
    unfolding sized_def
  proof (intro allI impI)
    fix s :: "bytes pb_ostream_t" assume "callback s = None"
    then show "\<exists>e. pb_write s buf count = Some (True, s\<lparr>bytes_written := bytes_written s + word_of_nat (length buf), errmsg := e\<rparr>)"
      by (intro exI [where x = "errmsg s"]) (simp add: pb_write_def c)
  qed
  ultimately show ?thesis
    using assms by simp
qed

lemma acts_skip: "acts (\<lambda>s. Some (True, s)) (Emit [])"
proof -
  have "\<exists>e. s = s\<lparr>errmsg := e\<rparr>" "state s = Some out \<Longrightarrow> \<exists>e. s = s\<lparr>state := Some out, errmsg := e\<rparr>"
    for s :: "bytes pb_ostream_t" and out
    by (intro exI [where x = "errmsg s"], simp)+
  then show ?thesis
    by (simp add: sized_def stored_def buf_stream_def)
qed

lemma acts_error: "acts (\<lambda>s. PB_RETURN_ERROR s msg) Fail" "acts (\<lambda>s. Some (False, s)) Fail"
  by (auto simp: refuses_def PB_RETURN_ERROR_def)

lemma sized_and_then:
  assumes "sized f a" "sized g b"
  shows "sized (and_then f g) (a @ b)"
  unfolding sized_def
proof (intro allI impI)
  fix s :: "bytes pb_ostream_t"
  assume s: "callback s = None"
  from sizedD [OF assms(1) s] obtain e where
    e: "f s = Some (True, s\<lparr>bytes_written := bytes_written s + word_of_nat (length a), errmsg := e\<rparr>)" (is "_ = Some (True, ?s)") ..
  from sizedD [OF assms(2), of ?s] s obtain e' where
    "g ?s = Some (True, ?s\<lparr>bytes_written := bytes_written ?s + word_of_nat (length b), errmsg := e'\<rparr>)" by auto
  with e show "\<exists>e. and_then f g s = Some (True, s\<lparr>bytes_written := bytes_written s + word_of_nat (length (a @ b)), errmsg := e\<rparr>)"
    by (auto simp: and_then_def add.assoc)
qed

lemma stored_and_then:
  assumes "stored f a" "stored g b"
  shows "stored (and_then f g) (a @ b)"
  unfolding stored_def
proof (intro allI impI)
  fix s out assume s: "buf_stream s out"
  show "if unat (bytes_written s) + length (a @ b) \<le> unat (max_size s)
     then \<exists>e. and_then f g s = Some (True, s\<lparr>state := Some (out @ a @ b),
            bytes_written := bytes_written s + word_of_nat (length (a @ b)), errmsg := e\<rparr>)
     else \<exists>s'. and_then f g s = Some (False, s')"
  proof (cases "unat (bytes_written s) + length a \<le> unat (max_size s)")
    case True
    from stored_fits [OF assms(1) s True] obtain e where
      e: "f s = Some (True, s\<lparr>state := Some (out @ a), bytes_written := bytes_written s + word_of_nat (length a), errmsg := e\<rparr>)" (is "_ = Some (True, ?s)") ..
    have b: "buf_stream ?s (out @ a)" and u: "unat (bytes_written ?s) = unat (bytes_written s) + length a"
      using buf_stream_step [OF s True] by simp_all
    from stored_fits [OF assms(2) b] stored_full [OF assms(2) b] e show ?thesis
      by (simp only: u) (auto simp: and_then_def add.assoc)
  next
    case False
    from stored_full [OF assms(1) s False] False show ?thesis by (auto simp: and_then_def)
  qed
qed

lemma refuses_and_then:
  assumes "sized f a" "stored f a" "refuses g"
  shows "refuses (and_then f g)"
  unfolding refuses_def
proof (intro allI impI, elim disjE)
  fix s :: "bytes pb_ostream_t" and out
  assume s: "callback s = None"
  from sizedD [OF assms(1) s] assms(3) s show "\<exists>s'. and_then f g s = Some (False, s')"
    by (fastforce simp: and_then_def refuses_def)
next
  fix s out
  assume s: "buf_stream s out"
  show "\<exists>s'. and_then f g s = Some (False, s')"
  proof (cases "unat (bytes_written s) + length a \<le> unat (max_size s)")
    case True
    from stored_fits [OF assms(2) s True] buf_stream_step(2) [OF s True] assms(3) show ?thesis
      by (fastforce simp: and_then_def refuses_def)
  next
    case False
    from stored_full [OF assms(2) s False] show ?thesis by (auto simp: and_then_def)
  qed
qed

lemma refuses_and_then_left: "refuses f \<Longrightarrow> refuses (and_then f g)"
  unfolding refuses_def
proof (intro allI impI)
  fix s :: "bytes pb_ostream_t" and out
  assume "\<forall>s out. callback s = None \<or> buf_stream s out \<longrightarrow> (\<exists>s'. f s = Some (False, s'))"
    and "callback s = None \<or> buf_stream s out"
  then obtain s' where "f s = Some (False, s')" by blast
  then show "\<exists>s'. and_then f g s = Some (False, s')" by (simp add: and_then_def)
qed

lemma acts_and_then:
  assumes f: "acts f r" and g: "acts g r'"
  shows "acts (and_then f g) (seq r r')"
proof (cases r)
  case (Emit a)
  then show ?thesis
  proof (cases r')
    case (Emit b)
    with f g \<open>r = Emit a\<close> show ?thesis
      by (simp add: emit_def sized_and_then stored_and_then)
  next
    case Fail
    with f g Emit show ?thesis by (auto intro: refuses_and_then)
  next
    case Stuck
    have "and_then f g s = None" if "callback s = None" for s
      using sizedD [of f a s] f g Emit Stuck that by (fastforce simp: and_then_def)
    with Emit Stuck show ?thesis by simp
  qed simp
next
  case Fail
  with f show ?thesis by (simp add: refuses_and_then_left)
next
  case Stuck
  with f show ?thesis by (auto simp: and_then_def)
qed simp

section \<open>Primitives\<close>

lemma varint_bytes_length: "unat v < 2 ^ (7 * k) \<Longrightarrow> length (varint_bytes v) \<le> k"
proof (induction k arbitrary: v)
  case 0
  then show ?case by (simp add: varint_bytes.simps unat_eq_zero)
next
  case (Suc k)
  have "unat (drop_bit 7 v) < 2 ^ (7 * k)"
    using Suc.prems by (simp add: drop_bit_eq_div unat_div power_add less_mult_imp_div_less)
  from Suc.IH [OF this] show ?case
    by (subst varint_bytes.simps) simp
qed

lemma varint_bytes_ne: "v \<noteq> 0 \<Longrightarrow> varint_bytes v \<noteq> []"
  by (subst varint_bytes.simps) simp

lemma low7: "(ucast (v AND 0x7F) OR 0x80 :: u8) = word_of_nat (128 + unat v mod 128)"
    "(ucast (v AND 0x7F) OR 0x80 :: u8) AND 0x7F = word_of_nat (unat v mod 128)" for v :: u64
proof -
  have a: "v AND 0x7F = take_bit 7 v" by (simp add: take_bit_eq_mask mask_eq_exp_minus_1)
  have u: "unat (v AND 0x7F) = unat v mod 128"
    unfolding a by (simp add: take_bit_eq_mod unat_mod)
  have c: "ucast (v AND 0x7F) = (word_of_nat (unat v mod 128) :: u8)"
    using u by (metis of_nat_unat ucast_id unsigned_ucast_eq word_of_nat_eq_iff unsigned_of_nat)
  have e: "bit (0x80 :: u8) n \<longleftrightarrow> n = 7" "bit (0x80 :: int) n \<longleftrightarrow> n = 7" for n
    using bit_push_bit_iff [of 7 "1 :: u8" n] bit_push_bit_iff [of 7 "1 :: int" n] by (auto simp: bit_1_iff)
  have mask7: "(0x7F :: u8) = mask 7" by (simp add: mask_eq_exp_minus_1)
  have d: "(ucast (v AND 0x7F) :: u8) AND 0x80 = 0"
    by (rule bit_word_eqI) (auto simp: bit_simps a e)
  show "(ucast (v AND 0x7F) OR 0x80 :: u8) = word_of_nat (128 + unat v mod 128)"
    using disjunctive_add_eq_or [OF d] by (simp add: c add.commute)
  show "(ucast (v AND 0x7F) OR 0x80 :: u8) AND 0x7F = word_of_nat (unat v mod 128)"
    unfolding c [symmetric] by (rule bit_word_eqI) (auto simp: bit_simps a mask7 e)
qed

lemma varint_bytes_ref:
  "v \<noteq> 0 \<Longrightarrow> (varint_bytes v)[length (varint_bytes v) - 1 := varint_bytes v ! (length (varint_bytes v) - 1) AND 0x7F]
     = varint_ref (unat v)"
proof (induction v rule: varint_bytes.induct)
  case (1 v)
  have d: "unat (drop_bit 7 v) = unat v div 128"
    by (simp add: drop_bit_eq_div unat_div)
  show ?case
  proof (cases "drop_bit 7 v = 0")
    case True
    with d have "unat v < 128" by auto
    moreover have "varint_bytes v = [ucast (v AND 0x7F) OR 0x80]"
      using 1(2) True by (simp add: varint_bytes.simps [of v] varint_bytes.simps [of 0])
    ultimately show ?thesis
      using low7(2) [of v] by (simp add: varint_ref.simps)
  next
    case False
    with d have "\<not> unat v < 128" by (metis div_eq_0_iff unat_eq_zero)
    define w where "w = varint_bytes (drop_bit 7 v)"
    have w: "length w - 1 < length w" "length w = Suc (length w - 1)"
      using varint_bytes_ne [OF False] by (simp_all add: w_def)
    have v: "varint_bytes v = (ucast (v AND 0x7F) OR 0x80) # w"
      using 1(2) by (subst varint_bytes.simps) (simp add: w_def)
    have "w[length w - 1 := w ! (length w - 1) AND 0x7F] = varint_ref (unat v div 128)"
      using 1(1) [OF 1(2) False] by (simp add: w_def d)
    then show ?thesis
      unfolding v using \<open>\<not> unat v < 128\<close> w(2)
      by (subst varint_ref.simps) (cases "length w"; simp add: low7)
  qed
qed

lemma varint_ref_length: "unat (v :: u64) \<ge> 128 \<Longrightarrow> length (varint_bytes v) = length (varint_ref (unat v))"
  using varint_bytes_ref [of v] by (metis length_list_update not_numeral_le_zero unat_eq_zero)

lemma pb_encode_varint_eq:
  "pb_encode_varint v s = pb_write s (varint_ref (unat v)) (word_of_nat (length (varint_ref (unat v))))"
proof (cases "v \<le> 0x7F")
  case True
  then have "unat v < 128" by (simp add: word_le_nat_alt)
  with True show ?thesis
    by (simp add: pb_encode_varint_def varint_ref.simps)
next
  case False
  then have "128 \<le> unat v" "v \<noteq> 0" by (auto simp: word_le_nat_alt)
  with False varint_bytes_ref [of v] varint_ref_length [of v] show ?thesis
    by (simp add: pb_encode_varint_def Let_def)
qed

lemma varint_ref_le: "length (varint_ref (unat (v :: u64))) \<le> 10"
proof (cases "unat v < 128")
  case False
  have "unat v < 2 ^ (7 * 10)" using unat_lt_u64 [of v] by simp
  from varint_bytes_length [OF this] False show ?thesis by (simp add: varint_ref_length)
qed (simp add: varint_ref.simps)

lemma acts_write_list: "length bs < 2 ^ 63 \<Longrightarrow> acts (\<lambda>s. pb_write s bs (word_of_nat (length bs))) (Emit bs)"
  by (rule acts_write) (simp_all add: unat_word_of_nat)

lemma acts_varint: "acts (pb_encode_varint v) (Emit (varint_ref (unat v)))"
  using acts_write_list [of "varint_ref (unat v)"] varint_ref_le [of v]
  by (simp add: pb_encode_varint_eq [abs_def])


lemma fixed32_eq: "pb_encode_fixed32 v s = pb_write s (le_bytes 4 (unat v)) 4"
proof -
  have "ucast (v AND 0xFF) = (word_of_nat (unat v) :: u8)" using byte_of_word32 [of 0 v] by simp
  then show ?thesis
    unfolding pb_encode_fixed32_def byte_of_word32 le_bytes_4 by (simp only: list.map)
qed

lemma fixed64_eq: "pb_encode_fixed64 v s = pb_write s (le_bytes 8 (unat v)) 8"
proof -
  have "ucast (v AND 0xFF) = (word_of_nat (unat v) :: u8)" using byte_of_word64 [of 0 v] by simp
  then show ?thesis
    unfolding pb_encode_fixed64_def byte_of_word64 le_bytes_8 by (simp only: list.map)
qed

section \<open>Reference\<close>

definition delimit :: "outcome \<Rightarrow> outcome" where
  "delimit r = (case r of Emit bs \<Rightarrow> seq (Emit (varint_ref (length bs))) (Emit bs) | _ \<Rightarrow> r)"

fun seqs :: "outcome list \<Rightarrow> outcome" where
  "seqs [] = Emit []"
| "seqs (r # rs) = seq r (seqs rs)"

definition zigzag_ref :: "int \<Rightarrow> nat" where
  "zigzag_ref z = nat (if 0 \<le> z then 2 * z else - 2 * z - 1)"

definition tag_for_field_ref :: "pb_field_t \<Rightarrow> outcome" where
  "tag_for_field_ref field =
     (let lt = PB_LTYPE (type field) in
      if lt \<in> {PB_LTYPE_BOOL, PB_LTYPE_VARINT, PB_LTYPE_UVARINT, PB_LTYPE_SVARINT} then Emit (tag_ref PB_WT_VARINT (tag field))
      else if lt = PB_LTYPE_FIXED32 then Emit (tag_ref PB_WT_32BIT (tag field))
      else if lt = PB_LTYPE_FIXED64 then Emit (tag_ref PB_WT_64BIT (tag field))
      else if lt \<in> {PB_LTYPE_BYTES, PB_LTYPE_STRING, PB_LTYPE_SUBMESSAGE, PB_LTYPE_FIXED_LENGTH_BYTES}
      then Emit (tag_ref PB_WT_STRING (tag field))
      else Fail)"

lemma acts_fixed32: "acts (pb_encode_fixed32 v) (Emit (le_bytes 4 (unat v)))"
  unfolding fixed32_eq [abs_def] by (rule acts_write) simp_all

lemma acts_fixed64: "acts (pb_encode_fixed64 v) (Emit (le_bytes 8 (unat v)))"
  unfolding fixed64_eq [abs_def] by (rule acts_write) simp_all

lemma tag_value: "unat wt < 8 \<Longrightarrow> unat (push_bit 3 (ucast num) OR ucast wt :: u64) = 8 * unat num + unat wt" for num wt :: u32
proof -
  assume wt: "unat wt < 8"
  have "push_bit 3 (ucast num) AND (ucast wt :: u64) = 0"
  proof (rule bit_word_eqI)
    fix n
    have "\<not> bit wt n" if "3 \<le> n"
    proof -
      have "take_bit 3 wt = wt" using wt by (simp add: take_bit_eq_mod word_unat_eq_iff unat_mod)
      with that show ?thesis by (metis bit_take_bit_iff not_le)
    qed
    then show "bit (push_bit 3 (ucast num) AND (ucast wt :: u64)) n = bit (0 :: u64) n"
      by (auto simp: bit_simps)
  qed
  from disjunctive_add_eq_or [OF this] have "push_bit 3 (ucast num) OR ucast wt = (8 * ucast num + ucast wt :: u64)"
    by (simp add: push_bit_eq_mult mult.commute)
  moreover have "unat (8 * ucast num :: u64) = 8 * unat num"
    using unat_lt_u32 [of num] by (simp add: unat_mult_lem [THEN iffD1])
  ultimately show ?thesis
    using wt unat_lt_u32 [of num] by (simp add: unat_plus_if')
qed

lemma acts_tag: "unat (wire_type_value wt) < 8 \<Longrightarrow> acts (pb_encode_tag wt num) (Emit (tag_ref wt num))"
  using acts_varint [of "push_bit 3 (ucast num) OR ucast (wire_type_value wt)"]
  by (simp add: pb_encode_tag_def [abs_def] tag_ref_def tag_value)

lemma acts_tag_for_field: "acts (pb_encode_tag_for_field field) (tag_for_field_ref field)"
  by (auto simp: pb_encode_tag_for_field_def [abs_def] tag_for_field_ref_def Let_def acts_tag simp del: acts.simps intro: acts_error)

lemma acts_string:
  assumes "length bs = unat sz"
  shows "acts (pb_encode_string bs sz) (delimit (emit bs))"
proof (cases "unat sz < 2 ^ 63")
  case True
  with assms have "delimit (emit bs) = seq (Emit (varint_ref (unat sz))) (Emit bs)"
    by (simp add: delimit_def emit_def)
  moreover have "acts (\<lambda>s. pb_write s bs sz) (Emit bs)"
    using acts_write [OF assms] True by simp
  ultimately show ?thesis
    unfolding pb_encode_string_def by (metis acts_and_then acts_varint)
qed (simp add: assms delimit_def emit_def)

lemma zigzag_correct: "unat (if v <s 0 then NOT (push_bit 1 v) else push_bit 1 v) = zigzag_ref (sint v)" for v :: u64
proof -
  have b: "- (2 ^ 63) \<le> sint v" "sint v < 2 ^ 63"
    using sint_range_size [of v] by (simp_all add: word_size)
  have p: "push_bit 1 v = word_of_int (2 * sint v)" 
    by (simp add: push_bit_eq_mult mult.commute)
  show ?thesis
  proof (cases "v <s 0")
    case True
    then have neg: "sint v < 0" by (simp add: word_sless_alt)
    have "NOT (push_bit 1 v) = word_of_int (- 2 * sint v - 1)"
      unfolding p by (simp add: not_eq_complement)
    moreover have "unat (word_of_int (- 2 * sint v - 1) :: u64) = nat (- 2 * sint v - 1)"
      using b neg by (intro unat_word_of_int) simp_all
    ultimately show ?thesis
      using True neg by (simp only: zigzag_ref_def if_True if_False not_le [symmetric])
  next
    case False
    then have "0 \<le> sint v" by (simp add: word_sless_alt)
    moreover from this b have "unat (word_of_int (2 * sint v) :: u64) = nat (2 * sint v)"
      by (intro unat_word_of_int) simp_all
    ultimately show ?thesis
      using False by (simp only: p zigzag_ref_def if_True if_False)
  qed
qed

lemma acts_svarint: "acts (pb_encode_svarint v) (Emit (varint_ref (zigzag_ref (sint v))))"
  using acts_varint [of "if v <s 0 then NOT (push_bit 1 v) else push_bit 1 v"] zigzag_correct [of v]
  by (simp add: pb_encode_svarint_def [abs_def] Let_def del: acts.simps split: if_splits)


section \<open>Reference for values\<close>

definition value_ref :: "(pb_field_t list \<Rightarrow> u64 \<Rightarrow> outcome) \<Rightarrow> memory \<Rightarrow> (u64 \<Rightarrow> pb_field_t list) \<Rightarrow> pb_field_t \<Rightarrow> u64 \<Rightarrow> outcome" where
  "value_ref sub m fof field src =
     (let lt = PB_LTYPE (type field); int_ref = (\<lambda>f v. case v of None \<Rightarrow> Fail | Some x \<Rightarrow> Emit (varint_ref (f x))) in
      if lt = PB_LTYPE_BOOL then Emit [if mem_u8 m src \<noteq> 0 then 1 else 0]
      else if lt = PB_LTYPE_VARINT then int_ref unat (read_signed m (data_size field) src)
      else if lt = PB_LTYPE_UVARINT then int_ref unat (read_unsigned m (data_size field) src)
      else if lt = PB_LTYPE_SVARINT then int_ref (\<lambda>x. zigzag_ref (sint x)) (read_signed m (data_size field) src)
      else if lt = PB_LTYPE_FIXED32 then Emit (mem_bytes m src 4)
      else if lt = PB_LTYPE_FIXED64 then Emit (mem_bytes m src 8)
      else if lt = PB_LTYPE_BYTES then
        if src = 0 then delimit (emit [])
        else if PB_ATYPE (type field) = PB_ATYPE_STATIC \<and> ucast (data_size field) - (4 :: u64) < ucast (mem_u32 m src) then Fail
        else delimit (emit (mem_bytes m (src + 4) (unat (mem_u32 m src))))
      else if lt = PB_LTYPE_STRING then
        if src = 0 then delimit (emit [])
        else delimit (emit (takeWhile (\<lambda>b. b \<noteq> 0) (mem_bytes m src
               (if PB_ATYPE (type field) = PB_ATYPE_POINTER then 2 ^ 64 - 1 else unat (data_size field)))))
      else if lt = PB_LTYPE_SUBMESSAGE then
        if ptr field = 0 then Fail else delimit (sub (fof (ptr field)) src)
      else if lt = PB_LTYPE_FIXED_LENGTH_BYTES then delimit (emit (mem_bytes m src (unat (data_size field))))
      else Fail)"

lemma strnlen_loop_correct:
  "unat k \<le> unat limit \<Longrightarrow> unat (strnlen_loop m src limit k) =
     unat k + length (takeWhile (\<lambda>b. b \<noteq> 0) (mem_bytes m (src + k) (unat limit - unat k)))"
proof (induction m src limit k rule: strnlen_loop.induct)
  case (1 m src limit k)
  show ?case
  proof (cases "k < limit")
    case True
    then have k: "unat (k + 1) = unat k + 1" and le: "unat k < unat limit"
      using unat_lt_u64 [of limit] by (auto simp: word_less_nat_alt unat_plus_if')
    then have "unat limit - unat k = Suc (unat limit - unat (k + 1))" by simp
    then show ?thesis
      using 1 True k le by (subst strnlen_loop.simps) (auto simp: mem_bytes_Suc mem_u8_def add.assoc)
  next
    case False
    with 1(2) have "unat limit = unat k" by (simp add: word_less_nat_alt)
    with False show ?thesis by (subst strnlen_loop.simps) (simp add: mem_bytes_def)
  qed
qed

lemma acts_enc_string:
  assumes "PB_LTYPE (type field) = PB_LTYPE_STRING"
  shows "acts (pb_enc_string m field src) (value_ref sub m fof field src)"
proof (cases "src = 0")
  case True
  with assms acts_string [of "[]" 0] show ?thesis
    by (simp add: pb_enc_string_def [abs_def] value_ref_def Let_def pb_type_defs mem_bytes_def del: acts.simps)
next
  case False
  define limit :: u64 where "limit = (if PB_ATYPE (type field) = PB_ATYPE_POINTER then - 1 else ucast (data_size field))"
  define l where "l = unat limit"
  have l: "l = (if PB_ATYPE (type field) = PB_ATYPE_POINTER then 2 ^ 64 - 1 else unat (data_size field))"
    by (simp add: l_def limit_def unsigned_minus_1_eq_mask mask_eq_exp_minus_1)
  define sz where "sz = strnlen_loop m src limit 0"
  have sz: "unat sz = length (takeWhile (\<lambda>b. b \<noteq> 0) (mem_bytes m src l))"
    using strnlen_loop_correct [of 0 limit m src] by (simp add: sz_def l_def)
  have tw: "takeWhile (\<lambda>b. b \<noteq> 0) (mem_bytes m src l) = mem_bytes m src (unat sz)"
    using take_mem_bytes [of "unat sz" l m src] sz length_takeWhile_le [of "\<lambda>b. b \<noteq> 0" "mem_bytes m src l"]
    by (metis length_mem_bytes takeWhile_eq_take)
  have "value_ref sub m fof field src = delimit (emit (takeWhile (\<lambda>b. b \<noteq> 0) (mem_bytes m src l)))"
    using False assms by (simp add: value_ref_def Let_def pb_type_defs l)
  moreover have "pb_enc_string m field src = (pb_encode_string (mem_bytes m src (unat sz)) sz :: bytes pb_ostream_t \<Rightarrow> bytes ores)"
    using False by (simp add: pb_enc_string_def [abs_def] Let_def sz_def limit_def fun_eq_iff)
  ultimately show ?thesis
    using acts_string [of "mem_bytes m src (unat sz)" sz] by (simp add: tw del: acts.simps)
qed

section \<open>Submessages\<close>

lemma acts_submessage_write:
  assumes "acts enc (Emit bs)"
  shows "acts (submessage_write enc (word_of_nat (length bs))) (Emit bs)" (is "acts ?f _")
proof -
  have len: "unat (word_of_nat (length bs) :: u64) = length bs" "length bs < 2 ^ 63"
    using assms by (simp_all add: unat_word_of_nat)
  have "sized ?f bs"
    unfolding sized_def
  proof (intro allI impI)
    fix s :: "bytes pb_ostream_t" assume "callback s = None"
    then show "\<exists>e. ?f s = Some (True, s\<lparr>bytes_written := bytes_written s + word_of_nat (length bs), errmsg := e\<rparr>)"
      by (intro exI [where x = "errmsg s"]) (simp add: pb_write_def submessage_write_def)
  qed
  moreover have "stored ?f bs"
    unfolding stored_def
  proof (intro allI impI)
    fix s out assume s: "buf_stream s out"
    let ?sub = "\<lparr>callback = callback s, state = state s, max_size = word_of_nat (length bs), bytes_written = 0, errmsg = None\<rparr>"
    have "buf_stream ?sub out" using s len by (simp add: buf_stream_def)
    then obtain e where e: "enc ?sub = Some (True, ?sub\<lparr>state := Some (out @ bs), bytes_written := word_of_nat (length bs), errmsg := e\<rparr>)"
      using stored_fits [of enc bs ?sub out] assms len by auto
    have sum: "unat (bytes_written s + word_of_nat (length bs)) = unat (bytes_written s) + length bs"
      using s len by (simp add: buf_stream_def unat_plus_if')
    show "if unat (bytes_written s) + length bs \<le> unat (max_size s)
      then \<exists>e. ?f s = Some (True, s\<lparr>state := Some (out @ bs), bytes_written := bytes_written s + word_of_nat (length bs), errmsg := e\<rparr>)
      else \<exists>s'. ?f s = Some (False, s')"
      using s sum e by (auto simp: submessage_write_def word_less_nat_alt PB_RETURN_ERROR_def buf_stream_def Let_def intro!: exI [where x = e])
  qed
  ultimately show ?thesis using len by simp
qed

lemma acts_submessage:
  assumes "acts enc r"
  shows "acts (pb_encode_submessage enc) (delimit r)"
proof (cases r)
  case (Emit bs)
  with assms obtain e where e: "enc PB_OSTREAM_SIZING = Some (True, PB_OSTREAM_SIZING\<lparr>bytes_written := word_of_nat (length bs), errmsg := e\<rparr>)"
    using sizedD [of enc bs PB_OSTREAM_SIZING] by (auto simp: PB_OSTREAM_SIZING_def)
  have len: "unat (word_of_nat (length bs) :: u64) = length bs"
    using assms Emit by (simp add: unat_word_of_nat)
  have "acts enc (Emit bs)" using assms Emit by simp
  from acts_and_then [OF acts_varint [of "word_of_nat (length bs)"] acts_submessage_write [OF this]] show ?thesis
    by (simp add: pb_encode_submessage_def [abs_def] e Emit delimit_def len del: acts.simps seq.simps)
next
  case Fail
  moreover have "callback PB_OSTREAM_SIZING = None" by (simp add: PB_OSTREAM_SIZING_def)
  ultimately obtain s' where "enc PB_OSTREAM_SIZING = Some (False, s')"
    using assms refusesD unfolding Fail acts.simps by blast
  then show ?thesis by (simp add: Fail delimit_def refuses_def pb_encode_submessage_def)
next
  case Stuck
  then show ?thesis using assms by (auto simp: delimit_def pb_encode_submessage_def PB_OSTREAM_SIZING_def)
qed (simp add: delimit_def)

section \<open>Values of every type\<close>

lemma acts_integer:
  "acts (\<lambda>s. case v of None \<Rightarrow> PB_RETURN_ERROR s msg | Some x \<Rightarrow> pb_encode_varint x s)
     (case v of None \<Rightarrow> Fail | Some x \<Rightarrow> Emit (varint_ref (unat x)))"
  "acts (\<lambda>s. case v of None \<Rightarrow> PB_RETURN_ERROR s msg | Some x \<Rightarrow> pb_encode_svarint x s)
     (case v of None \<Rightarrow> Fail | Some x \<Rightarrow> Emit (varint_ref (zigzag_ref (sint x))))"
  by (cases v; simp add: acts_varint acts_svarint acts_error del: acts.simps)+

lemma acts_enc_bytes:
  assumes "PB_LTYPE (type field) = PB_LTYPE_BYTES"
  shows "acts (pb_enc_bytes m field src) (value_ref sub m fof field src)"
proof -
  let ?sz = "mem_u32 m src"
  have s: "acts (pb_encode_string (mem_bytes m (src + 4) (unat ?sz)) (ucast ?sz)) (delimit (emit (mem_bytes m (src + 4) (unat ?sz))))"
    "acts (pb_encode_string [] 0) (delimit (emit []))"
    by (rule acts_string, simp)+
  define c where "c = (PB_ATYPE (type field) = PB_ATYPE_STATIC \<and> ucast (data_size field) - (4 :: u64) < ucast ?sz)"
  show ?thesis
    unfolding pb_enc_bytes_def [abs_def] value_ref_def Let_def c_def [symmetric]
    using assms s acts_error(1)
    by (cases "src = 0"; cases c)
      (simp_all add: PB_LTYPE_BYTES_def PB_LTYPE_BOOL_def PB_LTYPE_VARINT_def PB_LTYPE_UVARINT_def
        PB_LTYPE_SVARINT_def PB_LTYPE_FIXED32_def PB_LTYPE_FIXED64_def del: acts.simps)
qed

lemma acts_value:
  assumes "\<And>fs p. acts (enc fs p) (sub fs p)"
  shows "acts (PB_ENCODERS enc env (PB_LTYPE (type field)) field src) (value_ref sub (mem env) (fields_of env) field src)"
    (is "acts (PB_ENCODERS enc env ?lt field src) _")
proof -
  have bool: "acts (pb_enc_bool (mem env) field src) (Emit [if mem_u8 (mem env) src \<noteq> 0 then 1 else 0])"
    using acts_varint [of "if mem_u8 (mem env) src \<noteq> 0 then 1 else 0"]
    by (cases "mem_u8 (mem env) src = 0") (simp_all add: pb_enc_bool_def safe_read_bool_def varint_ref.simps del: acts.simps)
  have f32: "acts (pb_enc_fixed32 (mem env) field src) (Emit (mem_bytes (mem env) src 4))"
    using acts_fixed32 [of "mem_u32 (mem env) src"] le_bytes_value [of "mem_bytes (mem env) src 4"]
    by (simp add: pb_enc_fixed32_def unat_mem_u32 del: acts.simps)
  have f64: "acts (pb_enc_fixed64 (mem env) field src) (Emit (mem_bytes (mem env) src 8))"
    using acts_fixed64 [of "mem_u64 (mem env) src"] le_bytes_value [of "mem_bytes (mem env) src 8"]
    by (simp add: pb_enc_fixed64_def unat_mem_u64 del: acts.simps)
  have fl: "acts (pb_enc_fixed_length_bytes (mem env) field src) (delimit (emit (mem_bytes (mem env) src (unat (data_size field)))))"
    unfolding pb_enc_fixed_length_bytes_def by (rule acts_string) simp
  have sm: "acts (pb_enc_submessage enc env field src)
      (if ptr field = 0 then Fail else delimit (sub (fields_of env (ptr field)) src))"
    using acts_submessage [OF assms] acts_error(1) by (simp add: pb_enc_submessage_def [abs_def] del: acts.simps)
  consider "?lt = PB_LTYPE_BYTES" | "?lt = PB_LTYPE_STRING" | "?lt \<noteq> PB_LTYPE_BYTES" "?lt \<noteq> PB_LTYPE_STRING" by blast
  then show ?thesis
  proof cases
    case 1
    with acts_enc_bytes [OF 1, of "mem env" src sub "fields_of env"] show ?thesis
      by (simp add: PB_ENCODERS_def pb_type_defs del: acts.simps)
  next
    case 2
    with acts_enc_string [OF 2, of "mem env" src sub "fields_of env"] show ?thesis
      by (simp add: PB_ENCODERS_def pb_type_defs del: acts.simps)
  next
    case 3
    then show ?thesis
      unfolding PB_ENCODERS_def value_ref_def Let_def pb_enc_varint_def [abs_def] pb_enc_uvarint_def [abs_def]
        pb_enc_svarint_def [abs_def]
      using bool f32 f64 fl sm acts_integer acts_error(2)
      by (simp del: acts.simps)
  qed
qed

section \<open>Arrays\<close>

lemma array_loop_Suc: "array_loop item step (Suc n) p = and_then (item p) (array_loop item step n (p + step))"
  by (simp add: fun_eq_iff)

definition items_ref :: "(u64 \<Rightarrow> outcome) \<Rightarrow> u64 \<Rightarrow> nat \<Rightarrow> u64 \<Rightarrow> outcome" where
  "items_ref item step n p = seqs (map (\<lambda>i. item (p + word_of_nat i * step)) [0..<n])"

lemma items_ref_0 [simp]: "items_ref item step 0 p = Emit []"
  by (simp add: items_ref_def)

lemma items_ref_Suc [simp]: "items_ref item step (Suc n) p = seq (item p) (items_ref item step n (p + step))"
  by (simp add: items_ref_def map_upt_Suc algebra_simps del: upt_Suc)

lemma acts_array_loop:
  assumes "\<And>p. acts (item p) (r p)"
  shows "acts (array_loop item step n p) (items_ref r step n p)"
proof (induction n arbitrary: p)
  case 0
  have "array_loop item step 0 p = (\<lambda>s. Some (True, s))" by (simp add: fun_eq_iff)
  then show ?case using acts_skip by (simp del: acts.simps)
next
  case (Suc n)
  from acts_and_then [OF assms Suc] show ?case by (simp add: array_loop_Suc del: acts.simps array_loop.simps)
qed

lemma items_ref_width:
  assumes "\<And>p. \<exists>bs. item p = Emit bs \<and> length bs = w" "w * n < 2 ^ 63"
  shows "\<exists>bs. items_ref item step n p = Emit bs \<and> length bs = w * n"
  using assms(2)
proof (induction n arbitrary: p)
  case (Suc n)
  then obtain bs where bs: "items_ref item step n (p + step) = Emit bs" "length bs = w * n" by auto
  from assms(1) [of p] obtain b where "item p = Emit b" "length b = w" by blast
  with bs Suc.prems show ?case by (simp add: emit_def)
qed simp

text \<open>The sizes that \<open>encode_array\<close> takes for granted.\<close>

definition fixed_width :: "pb_field_t \<Rightarrow> (u64 \<Rightarrow> outcome) \<Rightarrow> bool" where
  "fixed_width field r \<longleftrightarrow>
     (PB_LTYPE (type field) = PB_LTYPE_FIXED32 \<longrightarrow> (\<forall>p. \<exists>bs. r p = Emit bs \<and> length bs = 4)) \<and>
     (PB_LTYPE (type field) = PB_LTYPE_FIXED64 \<longrightarrow> (\<forall>p. \<exists>bs. r p = Emit bs \<and> length bs = 8))"

lemma acts_packed_size:
  fixes pd :: u64 and count :: u32
  assumes "\<And>p. acts (func p) (r p)"
    and "fixed_width field r"
  defines "items \<equiv> items_ref r (ucast (data_size field)) (unat count) pd"
  shows "items = Emit bs \<Longrightarrow> packed_size field pd count func = Some (Some (word_of_nat (length bs)))"
    and "items = Fail \<Longrightarrow> packed_size field pd count func = Some None"
    and "items = Stuck \<Longrightarrow> packed_size field pd count func = None"
proof -
  have loop: "acts (array_loop func (ucast (data_size field)) (unat count) pd) items"
    unfolding items_def by (rule acts_array_loop) (rule assms(1))
  have c: "4 * unat count < 2 ^ 63" "8 * unat count < 2 ^ 63" using unat_lt_u32 [of count] by simp_all
  have 4: "\<exists>bs. items = Emit bs \<and> length bs = 4 * unat count" if "PB_LTYPE (type field) = PB_LTYPE_FIXED32"
    unfolding items_def using assms(2) that c(1) by (intro items_ref_width) (simp_all add: fixed_width_def)
  have 8: "\<exists>bs. items = Emit bs \<and> length bs = 8 * unat count" if "PB_LTYPE (type field) = PB_LTYPE_FIXED64"
    unfolding items_def using assms(2) that c(2) by (intro items_ref_width) (simp_all add: fixed_width_def)
  have sz: "callback (PB_OSTREAM_SIZING :: bytes pb_ostream_t) = None" "bytes_written (PB_OSTREAM_SIZING :: bytes pb_ostream_t) = 0" by (simp_all add: PB_OSTREAM_SIZING_def)
  show "packed_size field pd count func = Some (Some (word_of_nat (length bs)))" if "items = Emit bs"
    using 4 8 that loop sizedD [of "array_loop func (ucast (data_size field)) (unat count) pd" bs, OF _ sz(1)]
    unfolding packed_size_def by (auto simp: sz)
  show "packed_size field pd count func = Some None" if "items = Fail"
    using 4 8 that loop refusesD [of "array_loop func (ucast (data_size field)) (unat count) pd", OF _ sz(1)]
    unfolding packed_size_def by auto
  show "packed_size field pd count func = None" if "items = Stuck"
    using 4 8 that loop sz(1) unfolding packed_size_def by auto
qed

lemma acts_packed_body:
  assumes "acts f (Emit bs)"
  shows "acts (\<lambda>s. if callback s = None then pb_write s [] (word_of_nat (length bs)) else f s) (Emit bs)" (is "acts ?f _")
proof -
  have "sized ?f bs"
    unfolding sized_def
  proof (intro allI impI)
    fix s :: "bytes pb_ostream_t" assume "callback s = None"
    then show "\<exists>e. ?f s = Some (True, s\<lparr>bytes_written := bytes_written s + word_of_nat (length bs), errmsg := e\<rparr>)"
      by (intro exI [where x = "errmsg s"]) (simp add: pb_write_def)
  qed
  moreover have "stored ?f bs \<longleftrightarrow> stored f bs"
    unfolding stored_def by (intro all_cong1 imp_cong refl) (simp add: buf_stream_def)
  ultimately show ?thesis using assms by simp
qed

lemma acts_packed_write:
  assumes "\<And>p. acts (func p) (r p)"
    and "fixed_width field r"
  shows "acts (packed_write field pd count func) (delimit (items_ref r (ucast (data_size field)) (unat count) pd))"
proof -
  note ps = acts_packed_size [of func r field count pd, OF assms]
  have loop: "acts (array_loop func (ucast (data_size field)) (unat count) pd) (items_ref r (ucast (data_size field)) (unat count) pd)"
    by (rule acts_array_loop) (rule assms(1))
  show ?thesis
  proof (cases "items_ref r (ucast (data_size field)) (unat count) pd")
    case (Emit bs)
    with loop have "unat (word_of_nat (length bs) :: u64) = length bs" by (simp add: unat_word_of_nat)
    with acts_and_then [OF acts_varint [of "word_of_nat (length bs)"] acts_packed_body [OF loop [unfolded Emit]]] show ?thesis
      by (simp add: packed_write_def [abs_def] ps(1) [OF Emit] Emit delimit_def del: acts.simps seq.simps)
  next
    case Fail
    then show ?thesis using acts_error(2) by (simp add: packed_write_def [abs_def] ps(2) delimit_def del: acts.simps)
  next
    case Stuck
    then show ?thesis by (simp add: packed_write_def ps(3) delimit_def)
  qed (simp add: delimit_def)
qed

definition deref_item :: "memory \<Rightarrow> pb_field_t \<Rightarrow> u64 \<Rightarrow> u64" where
  "deref_item m field p = (if PB_ATYPE (type field) = PB_ATYPE_POINTER \<and>
     (PB_LTYPE (type field) = PB_LTYPE_STRING \<or> PB_LTYPE (type field) = PB_LTYPE_BYTES) then mem_u64 m p else p)"

definition array_ref :: "memory \<Rightarrow> pb_field_t \<Rightarrow> u64 \<Rightarrow> u32 \<Rightarrow> (u64 \<Rightarrow> outcome) \<Rightarrow> outcome" where
  "array_ref m field pd count item =
     (if count = 0 then Emit []
      else if PB_ATYPE (type field) \<noteq> PB_ATYPE_POINTER \<and> array_size field < count then Fail
      else if PB_LTYPE (type field) \<le> PB_LTYPE_LAST_PACKABLE
      then seq (Emit (tag_ref PB_WT_STRING (tag field))) (delimit (items_ref item (ucast (data_size field)) (unat count) pd))
      else items_ref (\<lambda>p. seq (tag_for_field_ref field) (item (deref_item m field p))) (ucast (data_size field)) (unat count) pd)"

lemma acts_encode_array:
  assumes "\<And>p. acts (func p) (r p)"
    and "fixed_width field r"
  shows "acts (encode_array m field pd count func) (array_ref m field pd count r)"
proof -
  have packed: "acts (and_then (pb_encode_tag PB_WT_STRING (tag field)) (packed_write field pd count func))
    (seq (Emit (tag_ref PB_WT_STRING (tag field))) (delimit (items_ref r (ucast (data_size field)) (unat count) pd)))"
    by (intro acts_and_then acts_tag acts_packed_write assms) simp
  have plain: "acts (array_loop (\<lambda>p. and_then (pb_encode_tag_for_field field) (func (deref_item m field p))) (ucast (data_size field)) (unat count) pd)
    (items_ref (\<lambda>p. seq (tag_for_field_ref field) (r (deref_item m field p))) (ucast (data_size field)) (unat count) pd)"
    by (intro acts_array_loop acts_and_then acts_tag_for_field assms(1))
  show ?thesis
    unfolding encode_array_def [abs_def] array_ref_def Let_def deref_item_def [symmetric]
    using packed plain acts_skip acts_error(1) by (simp del: acts.simps)
qed

section \<open>Fields\<close>

definition basic_field_ref :: "nat \<Rightarrow> (pb_field_t list \<Rightarrow> u64 \<Rightarrow> outcome) \<Rightarrow> memory \<Rightarrow> (u64 \<Rightarrow> pb_field_t list) \<Rightarrow> pb_field_t \<Rightarrow> u64 \<Rightarrow> outcome" where
  "basic_field_ref n sub m fof field pd0 =
     (let ty = type field; ps = pd0 + scast (size_offset field); is_ptr = (PB_ATYPE ty = PB_ATYPE_POINTER);
          pd = (if is_ptr then mem_u64 m pd0 else pd0);
          item = (\<lambda>p. value_ref sub m fof field p);
          single = seq (tag_for_field_ref field) (item pd);
          dflt = pb_check_proto3_default_value n m fof field pd0
      in if size_offset field = 0 \<and> PB_HTYPE ty = PB_HTYPE_OPTIONAL \<and> dflt = None then Stuck
         else if PB_HTYPE ty = PB_HTYPE_REQUIRED then (if pd = 0 then Fail else single)
         else if PB_HTYPE ty = PB_HTYPE_OPTIONAL then
           if (if size_offset field \<noteq> 0 then mem_u8 m ps \<noteq> 0 else if is_ptr then pd \<noteq> 0 else dflt = Some False)
           then single else Emit []
         else if PB_HTYPE ty = PB_HTYPE_REPEATED then
           array_ref m field pd (if size_offset field \<noteq> 0 then mem_u32 m ps else array_size field) item
         else if mem_u32 m ps = tag field then single else Emit [])"

lemma value_ref_width: "fixed_width field (value_ref sub m fof field)"
  by (simp add: fixed_width_def value_ref_def PB_LTYPE_BOOL_def PB_LTYPE_VARINT_def PB_LTYPE_UVARINT_def
        PB_LTYPE_SVARINT_def PB_LTYPE_FIXED32_def PB_LTYPE_FIXED64_def)

lemma acts_basic_field:
  assumes "\<And>fs p. acts (enc fs p) (sub fs p)"
  shows "acts (encode_basic_field n enc env field pd0) (basic_field_ref n sub (mem env) (fields_of env) field pd0)"
proof -
  let ?v = "value_ref sub (mem env) (fields_of env) field"
  let ?func = "PB_ENCODERS enc env (PB_LTYPE (type field)) field"
  have single: "acts (and_then (pb_encode_tag_for_field field) (?func pd)) (seq (tag_for_field_ref field) (?v pd))" for pd
    by (intro acts_and_then acts_tag_for_field acts_value assms)
  have arr: "acts (encode_array (mem env) field pd count ?func) (array_ref (mem env) field pd count ?v)" for pd count
    by (intro acts_encode_array acts_value assms value_ref_width)
  show ?thesis
  proof (cases "pb_check_proto3_default_value n (mem env) (fields_of env) field pd0")
    case None
    then show ?thesis
      unfolding encode_basic_field_def [abs_def] basic_field_ref_def Let_def safe_read_bool_def
      using single arr acts_skip acts_error(1)
      by (cases "size_offset field = 0"; cases "PB_HTYPE (type field) = PB_HTYPE_OPTIONAL";
          cases "PB_ATYPE (type field) = PB_ATYPE_POINTER"; cases "PB_HTYPE (type field) = PB_HTYPE_REQUIRED";
          cases "PB_HTYPE (type field) = PB_HTYPE_REPEATED") (simp_all del: acts.simps(1,2,4))
  next
    case (Some d)
    then show ?thesis
      unfolding encode_basic_field_def [abs_def] basic_field_ref_def Let_def safe_read_bool_def
      using single arr acts_skip acts_error(1)
      by (cases "size_offset field = 0"; cases "PB_HTYPE (type field) = PB_HTYPE_OPTIONAL";
          cases "PB_ATYPE (type field) = PB_ATYPE_POINTER"; cases "PB_HTYPE (type field) = PB_HTYPE_REQUIRED";
          cases "PB_HTYPE (type field) = PB_HTYPE_REPEATED") (simp_all del: acts.simps)
  qed
qed

record callback_ref =
  cb_ref :: "u64 \<Rightarrow> pb_field_t \<Rightarrow> u64 \<Rightarrow> outcome"
  ext_ref :: "u64 \<Rightarrow> u64 \<Rightarrow> outcome"

definition conforms :: "bytes pb_env \<Rightarrow> callback_ref \<Rightarrow> bool" where
  "conforms env cr \<longleftrightarrow> (\<forall>fn field arg. acts (\<lambda>s. Some (encode_cb env fn field arg s)) (cb_ref cr fn field arg)) \<and>
     (\<forall>fn ext. acts (\<lambda>s. Some (ext_encode env fn ext s)) (ext_ref cr fn ext))"

definition field_ref :: "nat \<Rightarrow> (pb_field_t list \<Rightarrow> u64 \<Rightarrow> outcome) \<Rightarrow> memory \<Rightarrow> (u64 \<Rightarrow> pb_field_t list) \<Rightarrow> callback_ref \<Rightarrow>
    pb_field_t \<Rightarrow> u64 \<Rightarrow> outcome" where
  "field_ref n sub m fof cr field pd =
     (if PB_ATYPE (type field) = PB_ATYPE_STATIC \<or> PB_ATYPE (type field) = PB_ATYPE_POINTER then basic_field_ref n sub m fof field pd
      else if PB_ATYPE (type field) = PB_ATYPE_CALLBACK then
        if mem_u64 m pd = 0 then Emit [] else cb_ref cr (mem_u64 m pd) field (pd + 8)
      else Fail)"

fun extensions_ref :: "nat \<Rightarrow> (pb_field_t \<Rightarrow> u64 \<Rightarrow> outcome) \<Rightarrow> memory \<Rightarrow> (u64 \<Rightarrow> pb_field_t list) \<Rightarrow> callback_ref \<Rightarrow> u64 \<Rightarrow> outcome" where
  "extensions_ref 0 fr m fof cr ext = Stuck"
| "extensions_ref (Suc n) fr m fof cr ext =
     (if ext = 0 then Emit []
      else
        let ty = mem_u64 m ext; fn = mem_u64 m (ty + 8); field = field_at (fof (mem_u64 m (ty + 16))) 0 in
        seq (if fn \<noteq> 0 then ext_ref cr fn ext
             else fr field (if PB_ATYPE (type field) = PB_ATYPE_POINTER then ext + 8 else mem_u64 m (ext + 8)))
          (extensions_ref n fr m fof cr (mem_u64 m (ext + 16))))"

fun encode_ref :: "nat \<Rightarrow> memory \<Rightarrow> (u64 \<Rightarrow> pb_field_t list) \<Rightarrow> callback_ref \<Rightarrow> pb_field_t list \<Rightarrow> u64 \<Rightarrow> outcome" where
  "encode_ref 0 m fof cr fs src = Stuck"
| "encode_ref (Suc n) m fof cr fs src =
     (if \<not> fields_ok fs \<or> src = 0 then Undef
      else
        let fr = field_ref n (encode_ref n m fof cr) m fof cr in
        seqs (map (\<lambda>i. let p = src + field_offset fs i in
          if PB_LTYPE (type (fs ! i)) = PB_LTYPE_EXTENSION then extensions_ref n fr m fof cr (mem_u64 m p)
          else fr (fs ! i) p) [0..<length fs]))"

lemma acts_cong_error:
  assumes "acts (\<lambda>s. Some (f s)) r"
  shows "acts (\<lambda>s. let (ok, s') = f s in if \<not> ok then PB_RETURN_ERROR s' msg else Some (True, s')) r"
    (is "acts ?g _")
proof (cases r)
  case (Emit bs)
  have "sized ?g bs"
    unfolding sized_def
  proof (intro allI impI)
    fix s :: "bytes pb_ostream_t" assume "callback s = None"
    with assms Emit sizedD [of "\<lambda>s. Some (f s)" bs s]
    show "\<exists>e. ?g s = Some (True, s\<lparr>bytes_written := bytes_written s + word_of_nat (length bs), errmsg := e\<rparr>)"
      by auto
  qed
  moreover have "stored ?g bs"
    unfolding stored_def
  proof (intro allI impI)
    fix s out assume b: "buf_stream s out"
    have "stored (\<lambda>s. Some (f s)) bs" using assms Emit by simp
    from stored_fits [OF this b] stored_full [OF this b] show
      "if unat (bytes_written s) + length bs \<le> unat (max_size s)
       then \<exists>e. ?g s = Some (True, s\<lparr>state := Some (out @ bs), bytes_written := bytes_written s + word_of_nat (length bs), errmsg := e\<rparr>)
       else \<exists>s'. ?g s = Some (False, s')"
      by (auto simp: PB_RETURN_ERROR_def) (rule exI, rule refl)
  qed
  ultimately show ?thesis using assms Emit by simp
next
  case Fail
  have "refuses ?g"
    unfolding refuses_def
  proof (intro allI impI)
    fix s :: "bytes pb_ostream_t" and out assume "callback s = None \<or> buf_stream s out"
    with assms Fail obtain s' where "f s = (False, s')" by (auto simp: refuses_def)
    then show "\<exists>s'. ?g s = Some (False, s')" by (simp add: PB_RETURN_ERROR_def)
  qed
  with Fail show ?thesis by simp
next
  case Stuck
  with assms show ?thesis by (auto dest: spec [of _ PB_OSTREAM_SIZING] simp: PB_OSTREAM_SIZING_def)
qed simp

lemma acts_field:
  assumes "\<And>fs p. acts (enc fs p) (sub fs p)" "conforms env cr"
  shows "acts (encode_field n enc env field pd) (field_ref n sub (mem env) (fields_of env) cr field pd)"
proof -
  have cb: "acts (encode_callback_field env field pd)
      (if mem_u64 (mem env) pd = 0 then Emit [] else cb_ref cr (mem_u64 (mem env) pd) field (pd + 8))"
    using acts_cong_error [of "encode_cb env (mem_u64 (mem env) pd) field (pd + 8)"] assms(2) acts_skip
    by (simp add: conforms_def encode_callback_field_def [abs_def] Let_def del: acts.simps)
  show ?thesis
    unfolding encode_field_def [abs_def] field_ref_def
    using cb acts_basic_field [of enc sub, OF assms(1)] acts_error(1)
    by (cases "PB_ATYPE (type field) = PB_ATYPE_STATIC"; cases "PB_ATYPE (type field) = PB_ATYPE_POINTER")
      (simp_all del: acts.simps)
qed

lemma acts_extensions:
  assumes "\<And>field p. acts (encode_field k enc env field p) (fr field p)" "conforms env cr"
  shows "acts (extension_loop n env (default_extension_encoder k enc env) ext)
    (extensions_ref n fr (mem env) (fields_of env) cr ext)"
proof (induction n arbitrary: ext)
  case 0
  then show ?case by simp
next
  case (Suc n)
  define ty fn where "ty = mem_u64 (mem env) ext" and "fn = mem_u64 (mem env) (ty + 8)"
  define field where "field = field_at (fields_of env (mem_u64 (mem env) (ty + 16))) 0"
  have one: "acts (if fn \<noteq> 0 then (\<lambda>s. Some (ext_encode env fn ext s)) else default_extension_encoder k enc env ext)
     (if fn \<noteq> 0 then ext_ref cr fn ext
      else fr field (if PB_ATYPE (type field) = PB_ATYPE_POINTER then ext + 8 else mem_u64 (mem env) (ext + 8)))"
    using assms by (simp add: conforms_def default_extension_encoder_def [abs_def] Let_def field_def [symmetric] ty_def [symmetric] del: acts.simps)
  show ?case
  proof (cases "ext = 0")
    case True
    have "extension_loop (Suc n) env (default_extension_encoder k enc env) 0 = (\<lambda>s. Some (True, s))" by (simp add: fun_eq_iff)
    then show ?thesis using True acts_skip by (simp del: acts.simps)
  next
    case False
    then have "extension_loop (Suc n) env (default_extension_encoder k enc env) ext =
      and_then (if fn \<noteq> 0 then (\<lambda>s. Some (ext_encode env fn ext s)) else default_extension_encoder k enc env ext)
        (extension_loop n env (default_extension_encoder k enc env) (mem_u64 (mem env) (ext + 16)))"
      by (simp add: fun_eq_iff Let_def ty_def fn_def)
    moreover have "extensions_ref (Suc n) fr (mem env) (fields_of env) cr ext =
      seq (if fn \<noteq> 0 then ext_ref cr fn ext
           else fr field (if PB_ATYPE (type field) = PB_ATYPE_POINTER then ext + 8 else mem_u64 (mem env) (ext + 8)))
        (extensions_ref n fr (mem env) (fields_of env) cr (mem_u64 (mem env) (ext + 16)))"
      using False by (simp add: Let_def ty_def fn_def field_def)
    ultimately show ?thesis
      using acts_and_then [OF one Suc [of "mem_u64 (mem env) (ext + 16)"]] by (simp only:)
  qed
qed

lemma acts_walk:
  assumes "fields_ok fs" "src \<noteq> 0"
    and body: "\<And>i it. i < length fs \<Longrightarrow> iter_at fs src i it \<Longrightarrow> acts (body it) (r i)"
  shows "iter_at fs src i it \<Longrightarrow> i < length fs \<Longrightarrow> acts (iter_walk body it) (seqs (map r [i..<length fs]))"
proof (induction "length fs - i" arbitrary: i it)
  case 0
  then show ?case by simp
next
  case (Suc k)
  have walk: "iter_walk body it = and_then (body it)
     (if fst (pb_field_iter_next it) then iter_walk body (snd (pb_field_iter_next it)) else (\<lambda>s. Some (True, s)))"
    by (simp add: fun_eq_iff and_then_def iter_walk.simps [of body it] split: option.split)
  have "acts (if fst (pb_field_iter_next it) then iter_walk body (snd (pb_field_iter_next it)) else (\<lambda>s. Some (True, s)))
     (seqs (map r [Suc i..<length fs]))"
  proof (cases "Suc i < length fs")
    case True
    with iter_next_at [OF assms(1,2) Suc.prems] Suc.hyps show ?thesis by (simp del: acts.simps)
  next
    case False
    with iter_next_at [OF assms(1,2) Suc.prems] acts_skip show ?thesis by (simp del: acts.simps)
  qed
  from acts_and_then [OF body [OF Suc.prems(2,1)] this] Suc.prems(2) show ?case
    by (simp add: walk upt_conv_Cons del: acts.simps)
qed

lemma acts_encode:
  assumes "conforms env cr"
  shows "acts (pb_encode n env fs src) (encode_ref n (mem env) (fields_of env) cr fs src)"
proof (induction n arbitrary: fs src)
  case 0
  then show ?case by simp
next
  case (Suc n)
  show ?case
  proof (cases "fields_ok fs \<and> src \<noteq> 0")
    case True
    then have ok: "fields_ok fs" "src \<noteq> 0" by simp_all
    define fr where "fr = field_ref n (encode_ref n (mem env) (fields_of env) cr) (mem env) (fields_of env) cr"
    define one where "one = (\<lambda>i. if PB_LTYPE (type (fs ! i)) = PB_LTYPE_EXTENSION
      then extensions_ref n fr (mem env) (fields_of env) cr (mem_u64 (mem env) (src + field_offset fs i))
      else fr (fs ! i) (src + field_offset fs i))"
    define body :: "pb_field_iter_t \<Rightarrow> bytes pb_ostream_t \<Rightarrow> bytes ores" where "body = (\<lambda>it. if PB_LTYPE (type (iter_field it)) = PB_LTYPE_EXTENSION
      then encode_extension_field n (pb_encode n env) env (pData it)
      else encode_field n (pb_encode n env) env (iter_field it) (pData it))"
    have f: "acts (encode_field n (pb_encode n env) env field p) (fr field p)" for field p
      unfolding fr_def by (rule acts_field [OF Suc assms])
    have b: "acts (body it) (one i)" if "i < length fs" "iter_at fs src i it" for i it
    proof -
      have "iter_field it = fs ! i" "pData it = src + field_offset fs i"
        using that by (simp_all add: iter_at_def iter_field_def field_at_def)
      with f acts_extensions [OF f assms] show ?thesis
        by (simp add: body_def one_def encode_extension_field_def del: acts.simps)
    qed
    have ref: "encode_ref (Suc n) (mem env) (fields_of env) cr fs src = seqs (map one [0..<length fs])"
      using True unfolding one_def fr_def by (simp add: Let_def)
    show ?thesis
    proof (cases "fs = []")
      case True
      then have "pb_encode (Suc n) env fs src = (\<lambda>s. Some (True, s))"
        using iter_begin_True [OF ok(1), of src] by (auto simp: fun_eq_iff Let_def split: prod.splits)
      with True acts_skip ref show ?thesis by (simp del: acts.simps)
    next
      case False
      then have "pb_encode (Suc n) env fs src = iter_walk body (snd (pb_field_iter_begin fs src))"
        using iter_begin_True [OF ok(1), of src] by (auto simp: fun_eq_iff body_def split: prod.splits)
      moreover have "acts (iter_walk body (snd (pb_field_iter_begin fs src))) (seqs (map one [0..<length fs]))"
        using acts_walk [OF ok b iter_begin_at [OF ok(2)]] False by simp
      ultimately show ?thesis by (simp only: ref)
    qed
  qed auto
qed

section \<open>Properties\<close>

lemma buf_stream_from_buffer: "unat n < 2 ^ 63 \<Longrightarrow> buf_stream (pb_ostream_from_buffer n) []"
  by (simp add: buf_stream_def pb_ostream_from_buffer_def)

text \<open>The outcome of running an encoder that follows a reference: on a sizing stream and on a buffer.\<close>

lemma acts_run:
  assumes "acts f (Emit bs)" "unat n < 2 ^ 63"
  shows "\<exists>s'. f PB_OSTREAM_SIZING = Some (True, s') \<and> bytes_written s' = word_of_nat (length bs)"
    and "length bs \<le> unat n \<Longrightarrow> \<exists>s'. f (pb_ostream_from_buffer n) = Some (True, s') \<and> state s' = Some bs
           \<and> bytes_written s' = word_of_nat (length bs)"
    and "unat n < length bs \<Longrightarrow> \<exists>s'. f (pb_ostream_from_buffer n) = Some (False, s')"
proof -
  note b = buf_stream_from_buffer [OF assms(2)]
  have bw: "bytes_written (pb_ostream_from_buffer n) = 0" "max_size (pb_ostream_from_buffer n) = n"
    by (simp_all add: pb_ostream_from_buffer_def)
  show "\<exists>s'. f PB_OSTREAM_SIZING = Some (True, s') \<and> bytes_written s' = word_of_nat (length bs)"
    using sizedD [of f bs PB_OSTREAM_SIZING] assms by (auto simp: PB_OSTREAM_SIZING_def)
  show "\<exists>s'. f (pb_ostream_from_buffer n) = Some (True, s') \<and> state s' = Some bs \<and> bytes_written s' = word_of_nat (length bs)"
    if "length bs \<le> unat n"
    using stored_fits [OF _ b, of f bs] assms that by (auto simp: bw)
  show "\<exists>s'. f (pb_ostream_from_buffer n) = Some (False, s')" if "unat n < length bs"
    using stored_full [OF _ b, of f bs] assms that by (simp add: bw)
qed

text \<open>
  C1: \<open>pb_encode\<close> refines the stream-free reference encoder. When the reference gives bytes, the
  sizing pass \<open>pb_get_encoded_size\<close> returns exactly their number, encoding into a buffer stores exactly
  these bytes if they fit and otherwise returns false; nested submessages and packed arrays,
  which the code measures with a sizing pass before it writes them, always get the size they
  announced.
\<close>

theorem pb_encode_refines:
  assumes "conforms env cr" "encode_ref n (mem env) (fields_of env) cr fs src = Emit bs" "unat bufsize < 2 ^ 63"
  shows "pb_get_encoded_size n env fs src = Some (Some (word_of_nat (length bs))) \<and>
    (if length bs \<le> unat bufsize
     then \<exists>s'. pb_encode n env fs src (pb_ostream_from_buffer bufsize) = Some (True, s') \<and> state s' = Some bs
            \<and> bytes_written s' = word_of_nat (length bs)
     else \<exists>s'. pb_encode n env fs src (pb_ostream_from_buffer bufsize) = Some (False, s'))"
proof -
  have "acts (pb_encode n env fs src) (Emit bs)"
    using acts_encode [OF assms(1), of n fs src] assms(2) by simp
  from acts_run [OF this assms(3)] show ?thesis
    by (auto simp: pb_get_encoded_size_def)
qed

definition example_env :: "bytes pb_env" where
  "example_env = \<lparr>mem = (\<lambda>a. if a = 4096 then 0x96 else if a = 4100 then 1 else if a = 4104 then 42 else 0),
     fields_of = (\<lambda>p. []), encode_cb = (\<lambda>fn f a s. (False, s)), ext_encode = (\<lambda>fn e s. (False, s))\<rparr>"

definition no_callbacks :: callback_ref where
  "no_callbacks = \<lparr>cb_ref = (\<lambda>fn f a. Fail), ext_ref = (\<lambda>fn e. Fail)\<rparr>"

lemma example_conforms: "conforms example_env no_callbacks"
  by (simp add: conforms_def example_env_def no_callbacks_def refuses_def)

lemma example_encode_ref: "encode_ref 3 (mem example_env) (fields_of example_env) no_callbacks example_fields 4096 = Emit [8, 0x96, 1, 56, 42]"
  by code_simp

theorem pb_encode_refines_witness:
  "pb_get_encoded_size 3 example_env example_fields 4096 = Some (Some 5)"
  using pb_encode_refines [OF example_conforms example_encode_ref, of 64] by simp

text \<open>
  C15: length-delimited messages: \<open>pb_encode_delimited\<close> writes the varint of the encoded size
  followed by the encoding itself, and returns false exactly when the buffer cannot hold both.
\<close>

theorem pb_encode_delimited_refines:
  assumes "conforms env cr" "encode_ref n (mem env) (fields_of env) cr fs src = Emit bs" "unat bufsize < 2 ^ 63"
    and "length bs < 2 ^ 62"
  shows "let framed = varint_ref (length bs) @ bs in
    if length framed \<le> unat bufsize
    then \<exists>s'. pb_encode_delimited n env fs src (pb_ostream_from_buffer bufsize) = Some (True, s') \<and> state s' = Some framed
    else \<exists>s'. pb_encode_delimited n env fs src (pb_ostream_from_buffer bufsize) = Some (False, s')"
proof -
  have "unat (word_of_nat (length bs) :: u64) = length bs"
    using assms(4) by (simp add: unat_word_of_nat)
  with varint_ref_le [of "word_of_nat (length bs)"] assms(4)
  have "delimit (Emit bs) = Emit (varint_ref (length bs) @ bs)"
    by (simp add: delimit_def emit_def)
  then have "acts (pb_encode_delimited n env fs src) (Emit (varint_ref (length bs) @ bs))"
    using acts_submessage [OF acts_encode [OF assms(1), of n fs src]] assms(2)
    by (simp add: pb_encode_delimited_def del: acts.simps)
  from acts_run [OF this assms(3)] show ?thesis
    by (auto simp: Let_def)
qed

theorem pb_encode_delimited_refines_witness:
  "\<exists>s'. pb_encode_delimited 3 example_env example_fields 4096 (pb_ostream_from_buffer 64) = Some (True, s')
     \<and> state s' = Some [5, 8, 0x96, 1, 56, 42]"
  using pb_encode_delimited_refines [OF example_conforms example_encode_ref, of 64]
  by (simp add: varint_ref.simps)

text \<open>
  C16: errors are found before anything depends on them: when the reference rejects a message (a
  missing required field, an oversized array or byte string, an invalid integer size or type, a
  failing callback), both the sizing pass and the encoder return false, whatever the buffer.
\<close>

theorem pb_encode_rejects:
  assumes "conforms env cr" "encode_ref n (mem env) (fields_of env) cr fs src = Fail" "unat bufsize < 2 ^ 63"
  shows "pb_get_encoded_size n env fs src = Some None \<and>
    (\<exists>s'. pb_encode n env fs src (pb_ostream_from_buffer bufsize) = Some (False, s'))"
proof -
  have "refuses (pb_encode n env fs src)"
    using acts_encode [OF assms(1), of n fs src] assms(2) by simp
  moreover have "callback (PB_OSTREAM_SIZING :: bytes pb_ostream_t) = None" by (simp add: PB_OSTREAM_SIZING_def)
  moreover note buf_stream_from_buffer [OF assms(3)]
  ultimately obtain s1 s2 where "pb_encode n env fs src PB_OSTREAM_SIZING = Some (False, s1)"
      "pb_encode n env fs src (pb_ostream_from_buffer bufsize) = Some (False, s2)"
    unfolding refuses_def by blast
  then show ?thesis by (simp add: pb_get_encoded_size_def)
qed

lemma example_encode_fail: "encode_ref 3 (mem example_env) (fields_of example_env) no_callbacks
    [\<lparr>tag = 1, type = 0x01, data_offset = 0, size_offset = 0, data_size = 3, array_size = 0, ptr = 0\<rparr>] 4096 = Fail"
  by code_simp

theorem pb_encode_rejects_witness:
  "pb_get_encoded_size 3 example_env
    [\<lparr>tag = 1, type = 0x01, data_offset = 0, size_offset = 0, data_size = 3, array_size = 0, ptr = 0\<rparr>] 4096 = Some None"
  using pb_encode_rejects [OF example_conforms example_encode_fail, of 64] by simp

end
