(* ===== verification/Nanopb_Decode.thy ===== *)
theory Nanopb_Decode
  imports Nanopb_Common
begin

text \<open>
  \<^verbatim>\<open>Pods/nanopb/pb_decode.c\<close>: input streams, varints, tags, skipping, substreams and the scalar field
  decoders. An operation returns \<open>None\<close> where the C function returns false, with the stream it
  leaves behind in both cases. The callback of a stream and its private state are one value of
  type \<open>in_source\<close>: the built-in \<open>buf_read\<close> with the bytes from the read pointer to the end of the
  object, or a user callback, which yields the requested bytes and its next state or fails.
\<close>

section \<open>Input streams\<close>

datatype 's in_source = Buf_read bytes | User_read "'s \<Rightarrow> nat \<Rightarrow> (bytes \<times> 's) option" 's

record 's pb_istream_t =
  source :: "'s in_source"
  bytes_left :: u64
  in_errmsg :: "string option"

type_synonym ('s, 'a) ires = "'a option \<times> 's pb_istream_t"

definition in_error :: "'s pb_istream_t \<Rightarrow> string \<Rightarrow> ('s, 'a) ires" where
  "in_error stream msg =
     (None, stream\<lparr>in_errmsg := (case in_errmsg stream of Some e \<Rightarrow> Some e | None \<Rightarrow> Some msg)\<rparr>)"

text \<open>Statements in sequence: \<^verbatim>\<open>if (!f(stream, &x)) return false;\<close> followed by the rest.\<close>

definition in_bind :: "('s, 'a) ires \<Rightarrow> ('a \<Rightarrow> 's pb_istream_t \<Rightarrow> ('s, 'b) ires) \<Rightarrow> ('s, 'b) ires" where
  "in_bind r k = (case r of (None, stream) \<Rightarrow> (None, stream) | (Some x, stream) \<Rightarrow> k x stream)"

text \<open>Reading past the end of the object has no defined result; the model reports it as a failed read.\<close>

definition buf_read :: "bytes \<Rightarrow> nat \<Rightarrow> (bytes \<times> bytes) option" where
  "buf_read src count = (if count \<le> length src then Some (take count src, drop count src) else None)"

definition call_source :: "'s in_source \<Rightarrow> nat \<Rightarrow> (bytes \<times> 's in_source) option" where
  "call_source src count =
     (case src of
        Buf_read bs \<Rightarrow> map_option (\<lambda>(got, rest). (got, Buf_read rest)) (buf_read bs count)
      | User_read cb st \<Rightarrow> map_option (\<lambda>(got, st'). (got, User_read cb st')) (cb st count))"

text \<open>The part of \<open>pb_read\<close> after the skipping loop.\<close>

definition pb_read_some :: "'s pb_istream_t \<Rightarrow> u64 \<Rightarrow> ('s, bytes) ires" where
  "pb_read_some stream count =
     (if count = 0 then (Some [], stream)
      else if bytes_left stream < count then in_error stream ''end-of-stream''
      else case call_source (source stream) (unat count) of
             None \<Rightarrow> in_error stream ''io error''
           | Some (got, src) \<Rightarrow> (Some got, stream\<lparr>source := src, bytes_left := bytes_left stream - count\<rparr>))"

text \<open>Skipping through a 16-byte scratch buffer, for streams that are not buffers.\<close>

function skip_chunks :: "'s pb_istream_t \<Rightarrow> u64 \<Rightarrow> ('s, bytes) ires" where
  "skip_chunks stream count =
     (if 16 < count then in_bind (pb_read_some stream 16) (\<lambda>_ stream'. skip_chunks stream' (count - 16))
      else pb_read_some stream count)"
  by pat_completeness auto
termination
  by (relation "measure (\<lambda>(stream, count). unat count)") (auto simp: word_less_nat_alt unat_sub_if')

definition is_buf_read :: "'s pb_istream_t \<Rightarrow> bool" where
  "is_buf_read stream = (case source stream of Buf_read _ \<Rightarrow> True | User_read _ _ \<Rightarrow> False)"

text \<open>\<open>store\<close> tells whether \<open>buf\<close> is non-null; the result is what is stored there.\<close>

definition pb_read :: "'s pb_istream_t \<Rightarrow> bool \<Rightarrow> u64 \<Rightarrow> ('s, bytes) ires" where
  "pb_read stream store count =
     (if count = 0 then (Some [], stream)
      else if \<not> store \<and> \<not> is_buf_read stream then skip_chunks stream count
      else pb_read_some stream count)"

text \<open>The byte a one-byte read leaves in its buffer.\<close>

definition the_byte :: "bytes \<Rightarrow> u8" where
  "the_byte bs = (case bs of [] \<Rightarrow> 0 | b # _ \<Rightarrow> b)"

definition pb_readbyte :: "'s pb_istream_t \<Rightarrow> ('s, u8) ires" where
  "pb_readbyte stream =
     (if bytes_left stream = 0 then in_error stream ''end-of-stream''
      else case call_source (source stream) 1 of
             None \<Rightarrow> in_error stream ''io error''
           | Some (got, src) \<Rightarrow> (Some (the_byte got), stream\<lparr>source := src, bytes_left := bytes_left stream - 1\<rparr>))"

definition pb_istream_from_buffer :: "bytes \<Rightarrow> u64 \<Rightarrow> 's pb_istream_t" where
  "pb_istream_from_buffer buf bufsize = \<lparr>source = Buf_read buf, bytes_left = bufsize, in_errmsg = None\<rparr>"

lemma pb_readbyte_left:
  "pb_readbyte stream = (Some b, stream') \<Longrightarrow> unat (bytes_left stream') < unat (bytes_left stream)"
  by (auto simp: pb_readbyte_def in_error_def unat_minus_one Suc_le_eq unat_gt_0 intro!: diff_less
      split: if_splits option.splits)

section \<open>Varints\<close>

text \<open>The multi-byte loop of \<open>pb_decode_varint32_eof\<close>; \<open>bitpos\<close> is an 8-bit counter.\<close>

function varint32_loop :: "'s pb_istream_t \<Rightarrow> u8 \<Rightarrow> u32 \<Rightarrow> ('s, u32) ires" where
  "varint32_loop stream bitpos result =
     (case pb_readbyte stream of
        (None, stream') \<Rightarrow> (None, stream')
      | (Some byte, stream') \<Rightarrow>
          let sign_extension = (if bitpos < 63 then 0xFF else 0x01 :: u8) in
          if 32 \<le> bitpos \<and> byte AND 0x7F \<noteq> 0 \<and> (drop_bit 31 result = 0 \<or> byte \<noteq> sign_extension)
          then in_error stream' ''varint overflow''
          else
            let result' = (if 32 \<le> bitpos then result else result OR push_bit (unat bitpos) (ucast (byte AND 0x7F)));
                bitpos' = bitpos + 7
            in if byte AND 0x80 \<noteq> 0 then varint32_loop stream' bitpos' result'
               else if bitpos' = 35 \<and> byte AND 0x70 \<noteq> 0 then in_error stream' ''varint overflow''
               else (Some result', stream'))"
  by pat_completeness auto
termination
  by (relation "measure (\<lambda>(stream, bitpos, result). unat (bytes_left stream))") (auto dest: pb_readbyte_left [OF sym])

declare varint32_loop.simps [simp del] skip_chunks.simps [simp del]

text \<open>The second component is the value of \<open>*eof\<close> afterwards, false before the call.\<close>

definition pb_decode_varint32_eof :: "'s pb_istream_t \<Rightarrow> ('s, u32) ires \<times> bool" where
  "pb_decode_varint32_eof stream =
     (case pb_readbyte stream of
        (None, stream') \<Rightarrow> ((None, stream'), bytes_left stream' = 0)
      | (Some byte, stream') \<Rightarrow>
          if byte AND 0x80 = 0 then ((Some (ucast byte), stream'), False)
          else (varint32_loop stream' 7 (ucast (byte AND 0x7F)), False))"

definition pb_decode_varint32 :: "'s pb_istream_t \<Rightarrow> ('s, u32) ires" where
  "pb_decode_varint32 stream = fst (pb_decode_varint32_eof stream)"

function varint_loop :: "'s pb_istream_t \<Rightarrow> u8 \<Rightarrow> u64 \<Rightarrow> ('s, u64) ires" where
  "varint_loop stream bitpos result =
     (if 64 \<le> bitpos then in_error stream ''varint overflow''
      else case pb_readbyte stream of
        (None, stream') \<Rightarrow> (None, stream')
      | (Some byte, stream') \<Rightarrow>
          let result' = result OR push_bit (unat bitpos) (ucast (byte AND 0x7F)); bitpos' = bitpos + 7
          in if byte AND 0x80 \<noteq> 0 then varint_loop stream' bitpos' result' else (Some result', stream'))"
  by pat_completeness auto
termination
  by (relation "measure (\<lambda>(stream, bitpos, result). unat (bytes_left stream))") (auto dest: pb_readbyte_left [OF sym])

declare varint_loop.simps [simp del]

definition pb_decode_varint :: "'s pb_istream_t \<Rightarrow> ('s, u64) ires" where
  "pb_decode_varint stream = varint_loop stream 0 0"

section \<open>Skipping, tags and substreams\<close>

lemma pb_read_1_left:
  "pb_read stream True 1 = (Some b, stream') \<Longrightarrow> unat (bytes_left stream') < unat (bytes_left stream)"
  by (auto simp: pb_read_def pb_read_some_def in_error_def unat_sub_if' word_le_nat_alt word_less_nat_alt
      split: if_splits option.splits)

function pb_skip_varint :: "'s pb_istream_t \<Rightarrow> ('s, unit) ires" where
  "pb_skip_varint stream =
     (case pb_read stream True 1 of
        (None, stream') \<Rightarrow> (None, stream')
      | (Some got, stream') \<Rightarrow> if the_byte got AND 0x80 \<noteq> 0 then pb_skip_varint stream' else (Some (), stream'))"
  by pat_completeness auto
termination
  by (relation "measure (\<lambda>stream. unat (bytes_left stream))") (auto dest: pb_read_1_left [OF sym])

declare pb_skip_varint.simps [simp del]

definition pb_skip_string :: "'s pb_istream_t \<Rightarrow> ('s, unit) ires" where
  "pb_skip_string stream =
     in_bind (pb_decode_varint32 stream) (\<lambda>len stream1.
       in_bind (pb_read stream1 False (ucast len)) (\<lambda>_ stream2. (Some (), stream2)))"

record tag_result =
  wire_type :: pb_wire_type_t
  field_tag :: u32
  eof :: bool

definition pb_decode_tag :: "'s pb_istream_t \<Rightarrow> bool \<times> tag_result \<times> 's pb_istream_t" where
  "pb_decode_tag stream =
     (case pb_decode_varint32_eof stream of
        ((None, stream'), e) \<Rightarrow> (False, \<lparr>wire_type = wire_type_of 0, field_tag = 0, eof = e\<rparr>, stream')
      | ((Some temp, stream'), e) \<Rightarrow>
          if temp = 0 then (False, \<lparr>wire_type = wire_type_of 0, field_tag = 0, eof = True\<rparr>, stream')
          else (True, \<lparr>wire_type = wire_type_of (temp AND 7), field_tag = drop_bit 3 temp, eof = e\<rparr>, stream'))"

definition pb_skip_field :: "'s pb_istream_t \<Rightarrow> pb_wire_type_t \<Rightarrow> ('s, unit) ires" where
  "pb_skip_field stream wt =
     (case wt of
        PB_WT_VARINT \<Rightarrow> pb_skip_varint stream
      | PB_WT_64BIT \<Rightarrow> in_bind (pb_read stream False 8) (\<lambda>_ s. (Some (), s))
      | PB_WT_STRING \<Rightarrow> pb_skip_string stream
      | PB_WT_32BIT \<Rightarrow> in_bind (pb_read stream False 4) (\<lambda>_ s. (Some (), s))
      | PB_WT_OTHER _ \<Rightarrow> in_error stream ''invalid wire_type'')"

text \<open>The varint loop of \<open>read_raw_value\<close>: \<open>room\<close> more bytes fit the buffer.\<close>

fun raw_varint_loop :: "nat \<Rightarrow> 's pb_istream_t \<Rightarrow> ('s, bytes) ires" where
  "raw_varint_loop 0 stream = (None, stream)"
| "raw_varint_loop (Suc room) stream =
     in_bind (pb_read stream True 1) (\<lambda>got stream'.
       if the_byte got AND 0x80 \<noteq> 0
       then in_bind (raw_varint_loop room stream') (\<lambda>more stream''. (Some (the_byte got # more), stream''))
       else (Some [the_byte got], stream'))"

definition read_raw_value :: "'s pb_istream_t \<Rightarrow> pb_wire_type_t \<Rightarrow> nat \<Rightarrow> ('s, bytes) ires" where
  "read_raw_value stream wt max_sz =
     (case wt of
        PB_WT_VARINT \<Rightarrow> raw_varint_loop max_sz stream
      | PB_WT_64BIT \<Rightarrow> pb_read stream True 8
      | PB_WT_32BIT \<Rightarrow> pb_read stream True 4
      | _ \<Rightarrow> in_error stream ''invalid wire_type'')"

text \<open>The result is the substream.\<close>

definition pb_make_string_substream :: "'s pb_istream_t \<Rightarrow> ('s, 's pb_istream_t) ires" where
  "pb_make_string_substream stream =
     in_bind (pb_decode_varint32 stream) (\<lambda>sz stream1.
       if bytes_left stream1 < ucast sz then in_error stream1 ''parent stream too short''
       else (Some (stream1\<lparr>bytes_left := ucast sz\<rparr>), stream1\<lparr>bytes_left := bytes_left stream1 - ucast sz\<rparr>))"

definition pb_close_string_substream :: "'s pb_istream_t \<Rightarrow> 's pb_istream_t \<Rightarrow> ('s, unit) ires" where
  "pb_close_string_substream stream substream =
     (let close = (\<lambda>sub. (Some (), stream\<lparr>source := source sub, in_errmsg := in_errmsg sub\<rparr>)) in
      if bytes_left substream \<noteq> 0
      then case pb_read substream False (bytes_left substream) of
             (None, _) \<Rightarrow> (None, stream)
           | (Some _, sub) \<Rightarrow> close sub
      else close substream)"

section \<open>Scalar values\<close>

definition pb_decode_svarint :: "'s pb_istream_t \<Rightarrow> ('s, u64) ires" where
  "pb_decode_svarint stream =
     in_bind (pb_decode_varint stream) (\<lambda>v s.
       (Some (if v AND 1 \<noteq> 0 then NOT (drop_bit 1 v) else drop_bit 1 v), s))"

text \<open>Byte \<open>i\<close> of a local buffer, shifted into place.\<close>

definition byte_at :: "bytes \<Rightarrow> nat \<Rightarrow> 'a::len word" where
  "byte_at bs i = push_bit (8 * i) (ucast (if i < length bs then bs ! i else 0))"

definition pb_decode_fixed32 :: "'s pb_istream_t \<Rightarrow> ('s, u32) ires" where
  "pb_decode_fixed32 stream =
     in_bind (pb_read stream True 4) (\<lambda>bs s. (Some (byte_at bs 0 OR byte_at bs 1 OR byte_at bs 2 OR byte_at bs 3), s))"

definition pb_decode_fixed64 :: "'s pb_istream_t \<Rightarrow> ('s, u64) ires" where
  "pb_decode_fixed64 stream =
     in_bind (pb_read stream True 8) (\<lambda>bs s.
       (Some (byte_at bs 0 OR byte_at bs 1 OR byte_at bs 2 OR byte_at bs 3 OR
              byte_at bs 4 OR byte_at bs 5 OR byte_at bs 6 OR byte_at bs 7), s))"

text \<open>
  The scalar decoders store at \<open>dest\<close>; their result is the memory after the call (also when they
  return false: an integer that does not fit has been stored in truncated form by then).
\<close>

definition mem_write :: "memory \<Rightarrow> u64 \<Rightarrow> bytes \<Rightarrow> memory" where
  "mem_write m a bs = (\<lambda>x. if unat (x - a) < length bs then bs ! unat (x - a) else m x)"

type_synonym 's dres = "bool \<times> memory \<times> 's pb_istream_t"

definition dec_error :: "memory \<Rightarrow> 's pb_istream_t \<Rightarrow> string \<Rightarrow> 's dres" where
  "dec_error m stream msg = (False, m, snd (in_error stream msg :: ('s, unit) ires))"

definition pb_dec_bool :: "'s pb_istream_t \<Rightarrow> pb_field_t \<Rightarrow> memory \<Rightarrow> u64 \<Rightarrow> 's dres" where
  "pb_dec_bool stream field m dest =
     (case pb_decode_varint32 stream of
        (None, s) \<Rightarrow> (False, m, s)
      | (Some v, s) \<Rightarrow> (True, mem_write m dest [if v \<noteq> 0 then 1 else 0], s))"

text \<open>
  The truncating store shared by the integer decoders: \<open>sz\<close> bytes of \<open>v\<close>, and the stored value
  read back through \<open>widen\<close>, which extends the low \<open>8 * sz\<close> bits to 64.
\<close>

definition store_int :: "(nat \<Rightarrow> u64 \<Rightarrow> u64) \<Rightarrow> 's pb_istream_t \<Rightarrow> pb_field_t \<Rightarrow> memory \<Rightarrow> u64 \<Rightarrow> u64 \<Rightarrow> 's dres" where
  "store_int widen s field m dest v =
     (let sz = unat (data_size field) in
      if sz \<in> {1, 2, 4, 8} then
        let m' = mem_write m dest (le_bytes sz (unat v)) in
        if widen sz v \<noteq> v then dec_error m' s ''integer too large'' else (True, m', s)
      else dec_error m s ''invalid data_size'')"

definition sign_extend_bytes :: "nat \<Rightarrow> u64 \<Rightarrow> u64" where
  "sign_extend_bytes sz v =
     (if sz = 1 then scast (ucast v :: u8) else if sz = 2 then scast (ucast v :: u16)
      else if sz = 4 then scast (ucast v :: u32) else v)"

definition zero_extend_bytes :: "nat \<Rightarrow> u64 \<Rightarrow> u64" where
  "zero_extend_bytes sz v =
     (if sz = 1 then ucast (ucast v :: u8) else if sz = 2 then ucast (ucast v :: u16)
      else if sz = 4 then ucast (ucast v :: u32) else v)"

definition pb_dec_varint :: "'s pb_istream_t \<Rightarrow> pb_field_t \<Rightarrow> memory \<Rightarrow> u64 \<Rightarrow> 's dres" where
  "pb_dec_varint stream field m dest =
     (case pb_decode_varint stream of
        (None, s) \<Rightarrow> (False, m, s)
      | (Some v, s) \<Rightarrow>
          let svalue = (if data_size field = 8 then v else scast (ucast v :: u32))
          in store_int sign_extend_bytes s field m dest svalue)"

definition pb_dec_uvarint :: "'s pb_istream_t \<Rightarrow> pb_field_t \<Rightarrow> memory \<Rightarrow> u64 \<Rightarrow> 's dres" where
  "pb_dec_uvarint stream field m dest =
     (case pb_decode_varint stream of
        (None, s) \<Rightarrow> (False, m, s)
      | (Some v, s) \<Rightarrow> store_int zero_extend_bytes s field m dest v)"

definition pb_dec_svarint :: "'s pb_istream_t \<Rightarrow> pb_field_t \<Rightarrow> memory \<Rightarrow> u64 \<Rightarrow> 's dres" where
  "pb_dec_svarint stream field m dest =
     (case pb_decode_svarint stream of
        (None, s) \<Rightarrow> (False, m, s)
      | (Some v, s) \<Rightarrow> store_int sign_extend_bytes s field m dest v)"

definition pb_dec_fixed32 :: "'s pb_istream_t \<Rightarrow> pb_field_t \<Rightarrow> memory \<Rightarrow> u64 \<Rightarrow> 's dres" where
  "pb_dec_fixed32 stream field m dest =
     (case pb_decode_fixed32 stream of
        (None, s) \<Rightarrow> (False, m, s)
      | (Some v, s) \<Rightarrow> (True, mem_write m dest (le_bytes 4 (unat v)), s))"

definition pb_dec_fixed64 :: "'s pb_istream_t \<Rightarrow> pb_field_t \<Rightarrow> memory \<Rightarrow> u64 \<Rightarrow> 's dres" where
  "pb_dec_fixed64 stream field m dest =
     (case pb_decode_fixed64 stream of
        (None, s) \<Rightarrow> (False, m, s)
      | (Some v, s) \<Rightarrow> (True, mem_write m dest (le_bytes 8 (unat v)), s))"

text \<open>A failed read of a buffer stores nothing; of a user stream, the model leaves the memory as it was.\<close>

definition pb_dec_fixed_length_bytes :: "'s pb_istream_t \<Rightarrow> pb_field_t \<Rightarrow> memory \<Rightarrow> u64 \<Rightarrow> 's dres" where
  "pb_dec_fixed_length_bytes stream field m dest =
     (case pb_decode_varint32 stream of
        (None, s) \<Rightarrow> (False, m, s)
      | (Some sz, s) \<Rightarrow>
          if PB_SIZE_MAX < sz then dec_error m s ''bytes overflow''
          else if sz = 0 then (True, mem_write m dest (replicate (unat (data_size field)) 0), s)
          else if sz \<noteq> data_size field then dec_error m s ''incorrect fixed length bytes size''
          else case pb_read s True (ucast (data_size field)) of
                 (None, s') \<Rightarrow> (False, m, s')
               | (Some bs, s') \<Rightarrow> (True, mem_write m dest bs, s'))"

section \<open>Streams over buffers\<close>

text \<open>A buffer stream that may still deliver \<open>bs\<close>; \<open>after\<close> lies behind its limit (a substream ends before
  its parent does).\<close>

definition instream :: "string option \<Rightarrow> bytes \<Rightarrow> bytes \<Rightarrow> unit pb_istream_t" where
  "instream e bs after = \<lparr>source = Buf_read (bs @ after), bytes_left = word_of_nat (length bs), in_errmsg = e\<rparr>"

lemma instream_from_buffer: "length bs < 2 ^ 64 \<Longrightarrow> pb_istream_from_buffer bs (word_of_nat (length bs)) = instream None bs []"
  by (simp add: pb_istream_from_buffer_def instream_def)

lemma bytes_left_instream [simp]:
  "length bs < 2 ^ 64 \<Longrightarrow> unat (bytes_left (instream e bs after)) = length bs"
  "bytes_left (instream e [] after) = 0"
  by (simp_all add: instream_def unat_word_of_nat)

lemma readbyte_Cons [simp]:
  "length (b # bs) < 2 ^ 64 \<Longrightarrow> pb_readbyte (instream e (b # bs) after) = (Some b, instream e bs after)"
proof -
  have len64: "LENGTH(64) = 64" by simp
  assume l: "length (b # bs) < 2 ^ 64"
  have "(1 + word_of_nat (length bs) :: u64) \<noteq> 0"
    using l unat_word_of_nat [of "Suc (length bs)", where 'a = 64] by (metis len64 length_Cons nat.distinct(1) of_nat_Suc unat_0)
  then show ?thesis
    by (simp add: pb_readbyte_def instream_def call_source_def buf_read_def the_byte_def)
qed

lemma readbyte_Nil [simp]: "pb_readbyte (instream e [] after) = in_error (instream e [] after) ''end-of-stream''"
  by (simp add: pb_readbyte_def)

lemma pb_read_buffer:
  assumes "length (xs @ ys) < 2 ^ 64" "n = word_of_nat (length xs)"
  shows "pb_read (instream e (xs @ ys) after) st n = (Some xs, instream e ys after)"
proof -
  have u: "unat n = length xs" using assms by (simp add: unat_word_of_nat)
  have "\<not> (word_of_nat (length xs + length ys) :: u64) < n"
    using assms(1) u by (simp add: word_less_nat_alt unat_word_of_nat del: of_nat_add)
  then show ?thesis
    using u by (cases "xs = []") (auto simp: assms(2) pb_read_def pb_read_some_def is_buf_read_def instream_def call_source_def buf_read_def unat_eq_zero)
qed

lemma pb_read_short:
  assumes "length bs < unat n" "length bs < 2 ^ 64"
  shows "pb_read (instream e bs after) st n = in_error (instream e bs after) ''end-of-stream''"
  using assms by (auto simp: pb_read_def pb_read_some_def is_buf_read_def instream_def word_less_nat_alt unat_word_of_nat)

section \<open>Varints on the wire\<close>

fun split_varint :: "bytes \<Rightarrow> (bytes \<times> bytes) option" where
  "split_varint [] = None"
| "split_varint (b # bs) =
     (if b < 0x80 then Some ([b], bs) else map_option (\<lambda>(v, rest). (b # v, rest)) (split_varint bs))"

fun varint_val :: "bytes \<Rightarrow> nat" where
  "varint_val [] = 0"
| "varint_val (b # bs) = unat b mod 128 + 128 * varint_val bs"

lemma split_varint_SomeD: "split_varint bs = Some (v, rest) \<Longrightarrow> bs = v @ rest \<and> v \<noteq> []"
  by (induction bs arbitrary: v) (auto split: if_splits)

lemma varint_step:
  assumes "r < 2 ^ k"
  shows "(word_of_nat r OR push_bit k (ucast (b AND 0x7F :: u8)) :: 'a::len word) = word_of_nat (r + 2 ^ k * (unat b mod 128))"
proof -
  have k: "unat b mod 128 < 2 ^ LENGTH(8)" using mod_less_divisor [of 128 "unat b"] by simp
  have "(ucast (b AND 0x7F :: u8) :: 'a word) = word_of_nat (unat b mod 128)"
    unfolding high_bit(2) using unat_word_of_nat [of "unat b mod 128", where 'a = 8] by (metis of_nat_unat k)
  then show ?thesis
    unfolding or_disjoint_add [OF assms] by (simp add: push_bit_eq_mult mult.commute)
qed

text \<open>What \<open>pb_decode_varint\<close> does on a buffer.\<close>

lemma unat_bitpos: "i \<le> 10 \<Longrightarrow> unat (word_of_nat (7 * i) :: u8) = 7 * i"
  by (rule unat_word_of_nat) simp

lemma bitpos_le: "i \<le> 10 \<Longrightarrow> (64 :: u8) \<le> word_of_nat (7 * i) \<longleftrightarrow> i = 10"
    "i \<le> 10 \<Longrightarrow> (32 :: u8) \<le> word_of_nat (7 * i) \<longleftrightarrow> 5 \<le> i"
    "i \<le> 9 \<Longrightarrow> (word_of_nat (7 * i) + 7 :: u8) = word_of_nat (7 * Suc i)"
  by (auto simp: word_le_nat_alt unat_bitpos simp del: of_nat_mult)

lemma varint_bound: "r < 2 ^ k \<Longrightarrow> r + 2 ^ k * (m mod 128) < (2 ^ (k + 7) :: nat)"
proof -
  assume r: "r < 2 ^ k"
  have "m mod 128 \<le> 127" using mod_less_divisor [of 128 m] by linarith
  with r have "r + 2 ^ k * (m mod 128) < 2 ^ k + 2 ^ k * 127" by (intro add_less_le_mono mult_le_mono2)
  then show ?thesis by (simp add: power_add)
qed

lemma varint_loop_buffer:
  "length bs < 2 ^ 64 \<Longrightarrow> r < 2 ^ (7 * i) \<Longrightarrow> i \<le> 10 \<Longrightarrow> split_varint bs = Some (v, rest) \<Longrightarrow>
   if i + length v \<le> 10
   then varint_loop (instream e bs after) (word_of_nat (7 * i)) (word_of_nat r) =
          (Some (word_of_nat (r + 2 ^ (7 * i) * varint_val v)), instream e rest after)
   else fst (varint_loop (instream e bs after) (word_of_nat (7 * i)) (word_of_nat r)) = None"
proof (induction bs arbitrary: r i v)
  case (Cons b bs)
  show ?case
  proof (cases "i = 10")
    case True
    moreover have "v \<noteq> []" using Cons.prems(4) by (auto split: if_splits)
    ultimately show ?thesis by (subst (1 2) varint_loop.simps) (auto simp: bitpos_le in_error_def simp del: of_nat_mult)
  next
    case False
    then have i: "i \<le> 9" using Cons.prems(3) by simp
    define r' where "r' = r + 2 ^ (7 * i) * (unat b mod 128)"
    have r': "r' < 2 ^ (7 * Suc i)" using varint_bound [OF Cons.prems(2), of "unat b"] by (simp add: r'_def power_add)
    have loop: "varint_loop (instream e (b # bs) after) (word_of_nat (7 * i)) (word_of_nat r) =
      (if b < 0x80 then (Some (word_of_nat r'), instream e bs after)
       else varint_loop (instream e bs after) (word_of_nat (7 * Suc i)) (word_of_nat r'))"
      using Cons.prems(1) i False
      by (subst varint_loop.simps)
        (simp add: bitpos_le Let_def varint_step [OF Cons.prems(2)] unat_bitpos high_bit(1) r'_def del: of_nat_mult of_nat_add)
    show ?thesis
    proof (cases "b < 0x80")
      case True
      with Cons.prems(4) i show ?thesis unfolding loop by (auto simp: r'_def)
    next
      case hi: False
      then obtain v' where v': "v = b # v'" "split_varint bs = Some (v', rest)"
        using Cons.prems(4) by (auto split: if_splits)
      have "r' + 2 ^ (7 * Suc i) * varint_val v' = r + 2 ^ (7 * i) * varint_val v"
        by (simp add: v' r'_def power_add algebra_simps)
      with Cons.IH [OF _ r' _ v'(2)] Cons.prems(1) i hi v'(1) show ?thesis
        unfolding loop by (auto split: if_splits simp del: of_nat_mult of_nat_add mult_Suc_right varint_val.simps)
    qed
  qed
qed simp

lemma varint_loop_unterminated:
  "length bs < 2 ^ 64 \<Longrightarrow> split_varint bs = None \<Longrightarrow> fst (varint_loop (instream e bs after) p r) = None"
proof (induction bs arbitrary: r p)
  case Nil
  then show ?case by (subst varint_loop.simps) (simp add: in_error_def)
next
  case (Cons b bs)
  then have "\<not> b < 0x80" "split_varint bs = None" by (auto split: if_splits)
  with Cons show ?case by (subst varint_loop.simps) (simp add: Let_def high_bit(1) in_error_def)
qed

lemma pb_decode_varint_buffer:
  assumes "length bs < 2 ^ 64"
  shows "case split_varint bs of
      Some (v, rest) \<Rightarrow>
        if length v \<le> 10 then pb_decode_varint (instream e bs after) = (Some (word_of_nat (varint_val v)), instream e rest after)
        else fst (pb_decode_varint (instream e bs after)) = None
    | None \<Rightarrow> fst (pb_decode_varint (instream e bs after)) = None"
proof (cases "split_varint bs")
  case None
  then show ?thesis using varint_loop_unterminated [OF assms None] by (simp add: pb_decode_varint_def)
next
  case (Some p)
  obtain v rest where "p = (v, rest)" by fastforce
  with varint_loop_buffer [OF assms, of 0 0 v rest e after] Some show ?thesis by (auto simp: pb_decode_varint_def split: if_splits)
qed

section \<open>32-bit varints\<close>

lemma varint32_loop_buffer:
  "length bs < 2 ^ 64 \<Longrightarrow> r < 2 ^ (7 * i) \<Longrightarrow> 1 \<le> i \<Longrightarrow> i + length v \<le> 5 \<Longrightarrow> split_varint bs = Some (v, rest) \<Longrightarrow>
   if r + 2 ^ (7 * i) * varint_val v < 2 ^ 32
   then varint32_loop (instream e bs after) (word_of_nat (7 * i)) (word_of_nat r) =
          (Some (word_of_nat (r + 2 ^ (7 * i) * varint_val v)), instream e rest after)
   else fst (varint32_loop (instream e bs after) (word_of_nat (7 * i)) (word_of_nat r)) = None"
proof (induction bs arbitrary: r i v)
  case (Cons b bs)
  have "v \<noteq> []" using Cons.prems(5) by (auto split: if_splits)
  then have i: "i \<le> 4" using Cons.prems(4) by (cases v) auto
  define r' where "r' = r + 2 ^ (7 * i) * (unat b mod 128)"
  have r': "r' < 2 ^ (7 * Suc i)" using varint_bound [OF Cons.prems(2), of "unat b"] by (simp add: r'_def power_add)
  have 35: "(word_of_nat (7 * Suc i) :: u8) = 35 \<longleftrightarrow> i = 4"
    using i unat_bitpos [of "Suc i"] by (auto simp: word_unat_eq_iff simp del: of_nat_mult of_nat_Suc)
  have loop: "varint32_loop (instream e (b # bs) after) (word_of_nat (7 * i)) (word_of_nat r) =
    (if b < 0x80 then
       if i = 4 \<and> \<not> unat b mod 128 < 16 then in_error (instream e bs after) ''varint overflow''
       else (Some (word_of_nat r'), instream e bs after)
     else varint32_loop (instream e bs after) (word_of_nat (7 * Suc i)) (word_of_nat r'))"
    using Cons.prems(1) i 35
    by (subst varint32_loop.simps)
      (simp add: bitpos_le Let_def varint_step [OF Cons.prems(2)] unat_bitpos high_bit(1,3) r'_def del: of_nat_mult of_nat_add of_nat_Suc)
  show ?case
  proof (cases "b < 0x80")
    case True
    then have v: "v = [b]" "rest = bs" using Cons.prems(5) by auto
    have val: "r + 2 ^ (7 * i) * varint_val v = r'" by (simp add: v r'_def)
    have "r' < 2 ^ 32 \<longleftrightarrow> \<not> (i = 4 \<and> \<not> unat b mod 128 < 16)"
    proof (cases "i = 4")
      case True
      then show ?thesis using Cons.prems(2) by (auto simp: r'_def)
    next
      case False
      then have "7 * Suc i \<le> 28" using i by simp
      then have "(2 :: nat) ^ (7 * Suc i) \<le> 2 ^ 28" by (rule power_increasing) simp
      with r' False show ?thesis by simp
    qed
    with True show ?thesis unfolding loop val v(2) by (auto simp: in_error_def)
  next
    case hi: False
    then obtain v' where v': "v = b # v'" "split_varint bs = Some (v', rest)"
      using Cons.prems(5) by (auto split: if_splits)
    have "r' + 2 ^ (7 * Suc i) * varint_val v' = r + 2 ^ (7 * i) * varint_val v"
      by (simp add: v' r'_def power_add algebra_simps)
    with Cons.IH [OF _ r' _ _ v'(2)] Cons.prems(1,4) i hi v'(1) show ?thesis
      unfolding loop by (auto split: if_splits simp del: of_nat_mult of_nat_add of_nat_Suc mult_Suc_right varint_val.simps)
  qed
qed simp

lemma pb_decode_varint32_buffer:
  assumes "length bs < 2 ^ 64" "split_varint bs = Some (v, rest)" "length v \<le> 5"
  shows "if varint_val v < 2 ^ 32
    then pb_decode_varint32_eof (instream e bs after) = ((Some (word_of_nat (varint_val v)), instream e rest after), False)
    else fst (fst (pb_decode_varint32_eof (instream e bs after))) = None"
proof -
  from assms(2) obtain b bs' where bs: "bs = b # bs'" by (cases bs) auto
  show ?thesis
  proof (cases "b < 0x80")
    case True
    then have "unat b < 128" by (simp add: word_less_nat_alt)
    with True assms show ?thesis by (auto simp: bs pb_decode_varint32_eof_def high_bit(1))
  next
    case False
    then obtain v' where v': "v = b # v'" "split_varint bs' = Some (v', rest)"
      using assms(2) by (auto simp: bs split: if_splits)
    have "ucast (b AND 0x7F) = (word_of_nat (unat b mod 128) :: u32)"
      using varint_step [of 0 0 b, where 'a = 32] by simp
    with False assms v' varint32_loop_buffer [of bs' "unat b mod 128" 1 v' rest e after] show ?thesis
      by (auto simp: bs pb_decode_varint32_eof_def high_bit(1) add.commute mult.commute split: if_splits)
  qed
qed

section \<open>Skipping and substreams on buffers\<close>

lemma pb_read_1_Cons: "length (b # bs) < 2 ^ 64 \<Longrightarrow> pb_read (instream e (b # bs) after) True 1 = (Some [b], instream e bs after)"
  using pb_read_buffer [of "[b]" bs 1] by simp

lemma pb_skip_varint_buffer:
  "length bs < 2 ^ 64 \<Longrightarrow> split_varint bs = Some (v, rest) \<Longrightarrow>
   pb_skip_varint (instream e bs after) = (Some (), instream e rest after)"
proof (induction bs arbitrary: v)
  case (Cons b bs)
  then show ?case
    by (subst pb_skip_varint.simps) (auto simp: pb_read_1_Cons the_byte_def high_bit(1) split: if_splits)
qed simp

lemma pb_decode_varint32_ok:
  assumes "length bs < 2 ^ 64" "split_varint bs = Some (v, rest)" "length v \<le> 5" "varint_val v < 2 ^ 32"
  shows "pb_decode_varint32 (instream e bs after) = (Some (word_of_nat (varint_val v)), instream e rest after)"
  using pb_decode_varint32_buffer [OF assms(1-3), of e after] assms(4) by (simp add: pb_decode_varint32_def)

lemma pb_skip_string_buffer:
  assumes "length bs < 2 ^ 64" "split_varint bs = Some (v, xs @ rest)" "length v \<le> 5" "varint_val v = length xs" "length xs < 2 ^ 32"
  shows "pb_skip_string (instream e bs after) = (Some (), instream e rest after)"
proof -
  have len32: "LENGTH(32) = 32" by simp
  have l: "length (xs @ rest) < 2 ^ 64" using assms(1) split_varint_SomeD [OF assms(2)] by simp
  have "ucast (word_of_nat (length xs) :: u32) = (word_of_nat (length xs) :: u64)"
    using assms(5) unat_word_of_nat [of "length xs", where 'a = 32] by (metis len32 of_nat_unat)
  then show ?thesis
    using pb_decode_varint32_ok [OF assms(1-3)] assms(4,5) pb_read_buffer [OF l refl, of e after False]
    by (simp add: pb_skip_string_def in_bind_def)
qed

section \<open>Reads stay inside the stream\<close>

definition within :: "bytes \<Rightarrow> bytes \<Rightarrow> unit pb_istream_t \<Rightarrow> bool" where
  "within bs after s \<longleftrightarrow> length bs < 2 ^ 64 \<and> (\<exists>k e. k \<le> length bs \<and> s = instream e (drop k bs) after)"

lemma within_cases:
  assumes "within bs after s"
  obtains e xs ys where "bs = xs @ ys" "s = instream e ys after" "length bs < 2 ^ 64"
  using assms unfolding within_def by (metis append_take_drop_id)

lemma within_instream: "length (xs @ ys) < 2 ^ 64 \<Longrightarrow> within (xs @ ys) after (instream e ys after)"
  unfolding within_def by (intro conjI exI [of _ "length xs"] exI [of _ e]) auto

lemma within_error: "within bs after s \<Longrightarrow> within bs after (snd (in_error s msg))"
  by (auto simp: within_def in_error_def instream_def)

lemma within_readbyte: "within bs after s \<Longrightarrow> within bs after (snd (pb_readbyte s))"
proof -
  assume w: "within bs after s"
  then obtain e xs ys where s: "bs = xs @ ys" "s = instream e ys after" "length bs < 2 ^ 64" by (rule within_cases)
  show ?thesis
  proof (cases ys)
    case Nil
    with w s show ?thesis using within_error by fastforce
  next
    case (Cons b zs)
    with s within_instream [of "xs @ [b]" zs after e] show ?thesis by simp
  qed
qed

lemma within_read: "within bs after s \<Longrightarrow> within bs after (snd (pb_read s st n))"
proof -
  assume w: "within bs after s"
  then obtain e xs ys where s: "bs = xs @ ys" "s = instream e ys after" "length bs < 2 ^ 64" by (rule within_cases)
  show ?thesis
  proof (cases "unat n \<le> length ys")
    case True
    then have "pb_read s st n = (Some (take (unat n) ys), instream e (drop (unat n) ys) after)"
      using pb_read_buffer [of "take (unat n) ys" "drop (unat n) ys" n e after st] s by simp
    with s within_instream [of "xs @ take (unat n) ys" "drop (unat n) ys"] show ?thesis by simp
  next
    case False
    with s w pb_read_short [of ys n e after st] within_error show ?thesis by fastforce
  qed
qed

lemma within_bind:
  "within bs after (snd r) \<Longrightarrow> (\<And>x s. within bs after s \<Longrightarrow> within bs after (snd (k x s))) \<Longrightarrow> within bs after (snd (in_bind r k))"
  by (auto simp: in_bind_def split: prod.splits option.splits)

lemma within_varint32_loop: "within bs after s \<Longrightarrow> within bs after (snd (varint32_loop s p r))"
proof (induction s p r rule: varint32_loop.induct)
  case (1 s p r)
  then show ?case
    using within_readbyte [OF 1(2)]
    by (subst varint32_loop.simps) (auto simp: Let_def within_error split: prod.splits option.splits)
qed

lemma within_varint_loop: "within bs after s \<Longrightarrow> within bs after (snd (varint_loop s p r))"
proof (induction s p r rule: varint_loop.induct)
  case (1 s p r)
  then show ?case
    using within_readbyte [OF 1(2)]
    by (subst varint_loop.simps) (auto simp: Let_def within_error split: prod.splits option.splits)
qed

lemma within_skip_varint: "within bs after s \<Longrightarrow> within bs after (snd (pb_skip_varint s))"
proof (induction s rule: pb_skip_varint.induct)
  case (1 s)
  then show ?case
    using within_read [OF 1(2), of True 1]
    by (subst pb_skip_varint.simps) (auto split: prod.splits option.splits)
qed

lemma within_varint32: "within bs after s \<Longrightarrow> within bs after (snd (fst (pb_decode_varint32_eof s)))"
  using within_readbyte [of bs after s]
  by (auto simp: pb_decode_varint32_eof_def within_varint32_loop split: prod.splits option.splits)

lemma within_raw_varint: "within bs after s \<Longrightarrow> within bs after (snd (raw_varint_loop n s))"
proof (induction n arbitrary: s)
  case (Suc n)
  have "within bs after (snd (in_bind (raw_varint_loop n s') (\<lambda>more s''. (Some (x # more), s''))))"
    if "within bs after s'" for s' x
    by (rule within_bind [OF Suc.IH [OF that]]) simp
  then show ?case
    unfolding raw_varint_loop.simps by (intro within_bind within_read Suc.prems) simp
qed simp

lemmas within_intros = within_read within_varint32 within_varint_loop within_skip_varint within_raw_varint within_error

section \<open>Properties\<close>

text \<open>
  C3: no read passes the limit of its stream. Whatever the input bytes are, a read, a varint, a
  tag, a skipped field, a raw value or a scalar leaves a buffer stream positioned inside its
  content, with \<open>bytes_left\<close> equal to what is left of it, on success and on every error.
\<close>

theorem reads_stay_inside:
  assumes "within bs after s"
  shows "within bs after (snd (pb_read s st n)) \<and> within bs after (snd (pb_decode_varint s)) \<and>
    within bs after (snd (pb_decode_varint32 s)) \<and> within bs after (snd (snd (pb_decode_tag s))) \<and>
    within bs after (snd (pb_skip_field s wt)) \<and> within bs after (snd (read_raw_value s wt k)) \<and>
    within bs after (snd (pb_decode_svarint s)) \<and> within bs after (snd (pb_decode_fixed32 s)) \<and>
    within bs after (snd (pb_decode_fixed64 s))"
proof -
  have v32: "within bs after (snd (pb_decode_varint32 s))"
    using assms by (simp add: pb_decode_varint32_def within_varint32)
  have tag: "within bs after (snd (snd (pb_decode_tag s)))"
    using within_varint32 [OF assms] by (auto simp: pb_decode_tag_def split: prod.splits option.splits)
  have skip: "within bs after (snd (pb_skip_field s wt))"
    using assms v32 by (cases wt) (auto simp: pb_skip_field_def pb_skip_string_def intro!: within_bind within_intros)
  show ?thesis
    using assms v32 tag skip
    by (auto simp: pb_decode_varint_def pb_decode_svarint_def pb_decode_fixed32_def pb_decode_fixed64_def read_raw_value_def
        intro!: within_bind within_intros split: pb_wire_type_t.splits)
qed

theorem reads_stay_inside_witness:
  "within [0x80, 0x80] [1, 2, 3] (snd (pb_decode_varint (instream None [0x80, 0x80] [1, 2, 3])))"
  using reads_stay_inside [of "[0x80, 0x80]" "[1, 2, 3]" "instream None [0x80, 0x80] [1, 2, 3]"]
    within_instream [of "[]" "[0x80, 0x80]" "[1, 2, 3]" None] by simp


lemma substream_example:
  "pb_make_string_substream (instream None [2, 7, 8, 9] []) = (Some (instream None [7, 8] [9]), instream None [7, 8, 9] []\<lparr>bytes_left := 1\<rparr>)"
proof -
  have d: "pb_decode_varint32 (instream None [2, 7, 8, 9] []) = (Some 2, instream None [7, 8, 9] [])"
    using pb_decode_varint32_ok [of "[2, 7, 8, 9]" "[2]" "[7, 8, 9]" None "[]"] by simp
  show ?thesis unfolding pb_make_string_substream_def d by (simp add: in_bind_def instream_def)
qed



end
