(* ===== verification/Nanopb_Roundtrip.thy ===== *)
theory Nanopb_Roundtrip
  imports Nanopb_Encode_Correct Nanopb_Decode
begin

text \<open>
  The nanopb encoder against the nanopb decoder: scalars and tags round-trip, and the output of
  \<^verbatim>\<open>pb_encode\<close> is a sequence of records that the decoder's tag and skip operations walk over.
\<close>


section \<open>Varints\<close>

lemma split_varint_ref: "split_varint (varint_ref n @ rest) = Some (varint_ref n, rest)"
proof (induction n rule: varint_ref.induct)
  case (1 n)
  show ?case
  proof (cases "n < 128")
    case True
    then have "(word_of_nat n :: u8) < 0x80" by (simp add: word_less_nat_alt unat_word_of_nat)
    with True show ?thesis by (simp add: varint_ref.simps [of n])
  next
    case False
    have "n mod 128 < 128" by simp
    then have "unat (word_of_nat (128 + n mod 128) :: u8) = 128 + n mod 128" by (intro unat_word_of_nat) simp
    then have "\<not> (word_of_nat (128 + n mod 128) :: u8) < 0x80" by (simp add: word_less_nat_alt)
    with False 1 show ?thesis by (simp add: varint_ref.simps [of n] del: of_nat_add)
  qed
qed

lemma varint_val_ref: "varint_val (varint_ref n) = n"
proof (induction n rule: varint_ref.induct)
  case (1 n)
  show ?case
  proof (cases "n < 128")
    case True
    then show ?thesis by (simp add: varint_ref.simps [of n] unat_word_of_nat)
  next
    case False
    have "n mod 128 < 128" by simp
    then have "unat (word_of_nat (128 + n mod 128) :: u8) = 128 + n mod 128" by (intro unat_word_of_nat) simp
    with False 1 show ?thesis by (simp add: varint_ref.simps [of n] del: of_nat_add)
  qed
qed

lemma length_varint_ref: "n < 2 ^ (7 * Suc k) \<Longrightarrow> length (varint_ref n) \<le> Suc k"
proof (induction k arbitrary: n)
  case (Suc k)
  then have "n div 128 < 2 ^ (7 * Suc k)" by (simp add: less_mult_imp_div_less power_add)
  from Suc.IH [OF this] show ?case by (simp add: varint_ref.simps [of n])
qed (simp add: varint_ref.simps)

lemma decode_varint_ref:
  assumes "n < 2 ^ 64" "length (varint_ref n @ rest) < 2 ^ 64"
  shows "pb_decode_varint (instream e (varint_ref n @ rest) after) = (Some (word_of_nat n), instream e rest after)"
proof -
  have "length (varint_ref n) \<le> 10" using length_varint_ref [of n 9] assms(1) by simp
  with pb_decode_varint_buffer [OF assms(2), of e after] show ?thesis
    by (simp add: split_varint_ref varint_val_ref)
qed

lemma decode_varint32_ref:
  assumes "n < 2 ^ 32" "length (varint_ref n @ rest) < 2 ^ 64"
  shows "pb_decode_varint32_eof (instream e (varint_ref n @ rest) after) = ((Some (word_of_nat n), instream e rest after), False)"
proof -
  have "length (varint_ref n) \<le> 5" using length_varint_ref [of n 4] assms(1) by simp
  with pb_decode_varint32_buffer [OF assms(2) split_varint_ref, of e after] assms(1) show ?thesis
    by (simp add: varint_val_ref)
qed

lemma zigzag_decode:
  fixes v :: u64
  defines "w \<equiv> (word_of_nat (zigzag_ref (sint v)) :: u64)"
  shows "(if w AND 1 \<noteq> 0 then NOT (drop_bit 1 w) else drop_bit 1 w) = v"
proof -
  have w: "w = (if v <s 0 then NOT (push_bit 1 v) else push_bit 1 v)"
    unfolding w_def zigzag_correct [of v, symmetric] by simp
  have sgn: "v <s 0 \<longleftrightarrow> bit v 63"
    by (simp add: word_sless_alt bit_last_iff [of v, symmetric, simplified] not_le)
  have one: "x AND 1 \<noteq> 0 \<longleftrightarrow> bit x 0" for x :: u64
    by (simp add: and_one_eq bit_0 odd_iff_mod_2_eq_one)
  define p where "p = push_bit 1 v"
  have p: "bit p n \<longleftrightarrow> 0 < n \<and> n < 64 \<and> bit v (n - 1)" for n
    unfolding p_def bit_push_bit_iff by (auto simp: possible_bit_word)
  have d: "bit (drop_bit (Suc 0) x) n \<longleftrightarrow> bit x (Suc n)" for x :: u64 and n
    by (simp add: bit_drop_bit_eq)
  show ?thesis
    unfolding w p_def [symmetric]
  proof (rule bit_word_eqI)
    fix n assume "n < LENGTH(64)"
    then consider "n < 63" | "n = 63" by fastforce
    then show "bit (if (if v <s 0 then NOT p else p) AND 1 \<noteq> 0 then NOT (drop_bit 1 (if v <s 0 then NOT p else p))
        else drop_bit 1 (if v <s 0 then NOT p else p)) n = bit v n"
      by cases (auto simp: one sgn p d bit_not_iff possible_bit_word)
  qed
qed

lemma decode_svarint_ref:
  fixes v :: u64
  assumes "length (varint_ref (zigzag_ref (sint v)) @ rest) < 2 ^ 64"
  shows "pb_decode_svarint (instream e (varint_ref (zigzag_ref (sint v)) @ rest) after) = (Some v, instream e rest after)"
proof -
  have "zigzag_ref (sint v) < 2 ^ 64" using zigzag_correct [of v] unat_lt_u64 by metis
  from decode_varint_ref [OF this assms] zigzag_decode [of v] show ?thesis
    by (simp add: pb_decode_svarint_def in_bind_def)
qed

section \<open>Fixed-width values\<close>

lemma byte_or_step:
  assumes "r < 2 ^ (8 * i)" "i < length bs"
  shows "(word_of_nat r OR byte_at bs i :: 'a::len word) = word_of_nat (r + 2 ^ (8 * i) * unat (bs ! i))"
proof -
  have "(ucast (bs ! i) :: 'a word) = word_of_nat (unat (bs ! i))" by simp
  then show ?thesis
    unfolding byte_at_def using assms or_disjoint_add [OF assms(1), where 'a = 'a]
    by (simp add: push_bit_eq_mult mult.commute del: of_nat_unat)
qed

lemma byte_sum_bound:
  assumes "r < 2 ^ (8 * i)"
  shows "r + 2 ^ (8 * i) * unat (b :: u8) < 2 ^ (8 * Suc i)"
proof -
  have "unat b \<le> 255" using unat_lt_u8 [of b] by simp
  with assms have "r + 2 ^ (8 * i) * unat b < 2 ^ (8 * i) + 2 ^ (8 * i) * 255" by (intro add_less_le_mono mult_le_mono2)
  then show ?thesis by (simp add: power_add)
qed

primrec or_bytes :: "bytes \<Rightarrow> nat \<Rightarrow> 'a::len word" where
  "or_bytes bs 0 = 0"
| "or_bytes bs (Suc i) = or_bytes bs i OR byte_at bs i"

lemma le_value_append: "le_value (xs @ [b]) = le_value xs + 2 ^ (8 * length xs) * unat b"
  by (induction xs) (simp_all add: power_add algebra_simps)

lemma or_bytes_value: "i \<le> length bs \<Longrightarrow> or_bytes bs i = (word_of_nat (le_value (take i bs)) :: 'a::len word)"
proof (induction i)
  case (Suc i)
  have "le_value (take i bs) < 2 ^ (8 * i)"
    using le_value_bound [of "take i bs"] Suc.prems by (simp add: power_mult)
  with Suc byte_or_step [of "le_value (take i bs)" i bs, where 'a = 'a] show ?case
    by (simp add: take_Suc_conv_app_nth le_value_append)
qed simp

lemma decode_fixed32_bytes:
  assumes "length (xs @ rest) < 2 ^ 64" "length xs = 4"
  shows "pb_decode_fixed32 (instream e (xs @ rest) after) = (Some (word_of_nat (le_value xs)), instream e rest after)"
proof -
  have "byte_at xs 0 OR byte_at xs 1 OR byte_at xs 2 OR byte_at xs 3 = (or_bytes xs 4 :: u32)"
    by (simp add: numeral_eq_Suc or.assoc)
  with or_bytes_value [of 4 xs, where 'a = 32] assms pb_read_buffer [OF assms(1), of 4 e after True] show ?thesis
    by (simp add: pb_decode_fixed32_def in_bind_def)
qed

lemma decode_fixed64_bytes:
  assumes "length (xs @ rest) < 2 ^ 64" "length xs = 8"
  shows "pb_decode_fixed64 (instream e (xs @ rest) after) = (Some (word_of_nat (le_value xs)), instream e rest after)"
proof -
  have "byte_at xs 0 OR byte_at xs 1 OR byte_at xs 2 OR byte_at xs 3 OR byte_at xs 4 OR byte_at xs 5 OR byte_at xs 6 OR byte_at xs 7
      = (or_bytes xs 8 :: u64)"
    by (simp add: numeral_eq_Suc or.assoc)
  with or_bytes_value [of 8 xs, where 'a = 64] assms pb_read_buffer [OF assms(1), of 8 e after True] show ?thesis
    by (simp add: pb_decode_fixed64_def in_bind_def)
qed

section \<open>Tags\<close>

lemma decode_tag_ref:
  assumes "num \<noteq> 0" "unat num < 2 ^ 29" "wt \<in> {PB_WT_VARINT, PB_WT_64BIT, PB_WT_STRING, PB_WT_32BIT}"
    and "length (tag_ref wt num @ rest) < 2 ^ 64"
  shows "pb_decode_tag (instream e (tag_ref wt num @ rest) after) =
    (True, \<lparr>wire_type = wt, field_tag = num, eof = False\<rparr>, instream e rest after)"
proof -
  define t where "t = 8 * unat num + unat (wire_type_value wt)"
  have w: "unat (wire_type_value wt) < 8" using assms(3) by auto
  then have t: "t < 2 ^ 32" using assms(2) by (simp add: t_def)
  then have u: "unat (word_of_nat t :: u32) = t" by (simp add: unat_word_of_nat)
  have "t \<noteq> 0" using assms(1) by (simp add: t_def unat_eq_zero)
  then have nz: "(word_of_nat t :: u32) \<noteq> 0" using u by (metis unat_0)
  have "unat (drop_bit 3 (word_of_nat t :: u32)) = unat num"
    using u w by (simp add: drop_bit_eq_div unat_div t_def)
  then have num: "drop_bit 3 (word_of_nat t :: u32) = num" by (simp add: word_unat_eq_iff)
  have "(word_of_nat t :: u32) AND 7 = take_bit 3 (word_of_nat t)" by (simp add: take_bit_eq_mask mask_eq_exp_minus_1)
  then have "unat ((word_of_nat t :: u32) AND 7) = t mod 8" using u by (simp add: take_bit_eq_mod unat_mod)
  then have "(word_of_nat t :: u32) AND 7 = wire_type_value wt"
    using w by (simp add: t_def word_unat_eq_iff)
  moreover have "wire_type_of (wire_type_value wt) = wt" using assms(3) by (auto simp: wire_type_of_def)
  ultimately show ?thesis
    using decode_varint32_ref [OF t, of rest e after] assms(4) num nz
    by (simp add: pb_decode_tag_def tag_ref_def t_def [symmetric])
qed

section \<open>Records\<close>

fun payload_ok :: "pb_wire_type_t \<Rightarrow> bytes \<Rightarrow> bool" where
  "payload_ok PB_WT_VARINT p \<longleftrightarrow> (\<exists>n. p = varint_ref n)"
| "payload_ok PB_WT_64BIT p \<longleftrightarrow> length p = 8"
| "payload_ok PB_WT_STRING p \<longleftrightarrow> (\<exists>xs. p = varint_ref (length xs) @ xs)"
| "payload_ok PB_WT_32BIT p \<longleftrightarrow> length p = 4"
| "payload_ok (PB_WT_OTHER _) p \<longleftrightarrow> False"

definition wire_tag :: "u32 \<Rightarrow> bool" where
  "wire_tag num \<longleftrightarrow> num \<noteq> 0 \<and> unat num < 2 ^ 29"

text \<open>A byte string that is a sequence of tagged records.\<close>

inductive records :: "bytes \<Rightarrow> bool" where
  records_Nil: "records []"
| records_Rec: "wire_tag num \<Longrightarrow> payload_ok wt p \<Longrightarrow> records rest \<Longrightarrow> records (tag_ref wt num @ p @ rest)"

text \<open>The loop of \<open>pb_decode_noinit\<close> for a message type that knows none of the fields: read a tag, skip
  the field. The fuel counts the turns.\<close>

fun skim :: "nat \<Rightarrow> 's pb_istream_t \<Rightarrow> bool option \<times> 's pb_istream_t" where
  "skim 0 stream = (None, stream)"
| "skim (Suc n) stream =
     (if bytes_left stream = 0 then (Some True, stream)
      else case pb_decode_tag stream of
        (False, t, s1) \<Rightarrow> (Some (eof t), s1)
      | (True, t, s1) \<Rightarrow>
          (case pb_skip_field s1 (wire_type t) of
             (None, s2) \<Rightarrow> (Some False, s2)
           | (Some _, s2) \<Rightarrow> skim n s2))"

lemma records_append: "records a \<Longrightarrow> records b \<Longrightarrow> records (a @ b)"
proof (induction rule: records.induct)
  case (records_Rec num wt p rest)
  from records.records_Rec [OF records_Rec(1,2) records_Rec.IH [OF records_Rec.prems]] show ?case by simp
qed simp

lemma records_one: "wire_tag num \<Longrightarrow> payload_ok wt p \<Longrightarrow> records (tag_ref wt num @ p)"
  using records_Rec [OF _ _ records_Nil] by fastforce

lemma skip_payload:
  assumes "payload_ok wt p" "length (p @ rest) < 2 ^ 32"
  shows "pb_skip_field (instream e (p @ rest) after) wt = (Some (), instream e rest after)"
proof (cases wt)
  case PB_WT_VARINT
  then obtain n where "p = varint_ref n" using assms(1) by auto
  with assms(2) PB_WT_VARINT split_varint_ref [of n rest] pb_skip_varint_buffer [of "p @ rest" p rest e after] show ?thesis
    by (simp add: pb_skip_field_def)
next
  case PB_WT_64BIT
  with assms pb_read_buffer [of p rest 8 e after False] show ?thesis by (simp add: pb_skip_field_def in_bind_def)
next
  case PB_WT_32BIT
  with assms pb_read_buffer [of p rest 4 e after False] show ?thesis by (simp add: pb_skip_field_def in_bind_def)
next
  case PB_WT_STRING
  then obtain xs where xs: "p = varint_ref (length xs) @ xs" using assms(1) by auto
  have "length (varint_ref (length xs)) \<le> 5"
    using length_varint_ref [of "length xs" 4] assms(2) xs by simp
  with assms(2) xs PB_WT_STRING split_varint_ref [of "length xs" "xs @ rest"] varint_val_ref [of "length xs"]
    pb_skip_string_buffer [of "p @ rest" "varint_ref (length xs)" xs rest e after] show ?thesis
    by (simp add: pb_skip_field_def)
qed (use assms in simp)

lemma varint_ref_ne [simp]: "varint_ref n \<noteq> []"
  by (simp add: varint_ref.simps [of n])

lemma skim_records: "records bs \<Longrightarrow> length bs < n \<Longrightarrow> length bs < 2 ^ 32 \<Longrightarrow> skim n (instream e bs after) = (Some True, instream e [] after)"
proof (induction arbitrary: n rule: records.induct)
  case records_Nil
  then show ?case by (cases n) simp_all
next
  case (records_Rec num wt p rest)
  then obtain k where n: "n = Suc k" by (cases n) auto
  let ?bs = "tag_ref wt num @ p @ rest"
  have ne: "tag_ref wt num \<noteq> []" by (simp add: tag_ref_def)
  have "unat (bytes_left (instream e ?bs after)) \<noteq> 0" using records_Rec.prems(2) ne by simp
  then have left: "bytes_left (instream e ?bs after) \<noteq> 0" by (metis unat_0)
  have wt: "wt \<in> {PB_WT_VARINT, PB_WT_64BIT, PB_WT_STRING, PB_WT_32BIT}" using records_Rec(2) by (cases wt) auto
  have tag: "pb_decode_tag (instream e ?bs after) = (True, \<lparr>wire_type = wt, field_tag = num, eof = False\<rparr>, instream e (p @ rest) after)"
    using records_Rec(1) records_Rec.prems(2) wt by (intro decode_tag_ref) (auto simp: wire_tag_def)
  have "length rest < k" using records_Rec.prems(1) n ne by (cases "tag_ref wt num") auto
  with records_Rec.IH [of k] records_Rec.prems(2) records_Rec(2) skip_payload [of wt p rest e after] show ?case
    by (simp add: n left tag)
qed

section \<open>Encoder output is a sequence of records\<close>

definition rec_ok :: "outcome \<Rightarrow> bool" where
  "rec_ok r \<longleftrightarrow> (\<forall>bs. r = Emit bs \<longrightarrow> records bs)"

lemma seq_EmitD: "seq r r' = Emit bs \<Longrightarrow> \<exists>a b. r = Emit a \<and> r' = Emit b \<and> bs = a @ b"
  by (cases r; cases r') (auto simp: emit_def split: if_splits)

lemma rec_ok_seq: "rec_ok r \<Longrightarrow> rec_ok r' \<Longrightarrow> rec_ok (seq r r')"
  unfolding rec_ok_def by (auto dest!: seq_EmitD intro: records_append)

lemma rec_ok_simps [simp]: "rec_ok (Emit [])" "rec_ok Fail" "rec_ok Stuck" "rec_ok Undef"
  by (simp_all add: rec_ok_def records_Nil)

lemma rec_ok_seqs: "(\<And>r. r \<in> set rs \<Longrightarrow> rec_ok r) \<Longrightarrow> rec_ok (seqs rs)"
  by (induction rs) (auto intro: rec_ok_seq)

lemma delimit_EmitD: "delimit r = Emit v \<Longrightarrow> \<exists>xs. v = varint_ref (length xs) @ xs"
  by (cases r) (auto simp: delimit_def emit_def split: if_splits)

lemma value_payload:
  assumes "tag_for_field_ref field = Emit t" "value_ref sub m fof field p = Emit v"
  shows "\<exists>wt. t = tag_ref wt (tag field) \<and> payload_ok wt v"
proof -
  have pick: "payload_ok wt v \<Longrightarrow> \<exists>wt'. tag_ref wt n = tag_ref wt' n \<and> payload_ok wt' v" for wt n v by blast
  have bool: "\<exists>n. [1 :: u8] = varint_ref n" "\<exists>n. [0 :: u8] = varint_ref n"
    by (rule exI [of _ 1], simp add: varint_ref.simps) (rule exI [of _ 0], simp add: varint_ref.simps)
  show ?thesis
    using assms unfolding tag_for_field_ref_def value_ref_def Let_def
    by (auto simp: pick bool split: if_splits option.splits dest!: delimit_EmitD intro!: pick)
qed

lemma rec_ok_single:
  assumes "wire_tag (tag field)"
  shows "rec_ok (seq (tag_for_field_ref field) (value_ref sub m fof field p))"
  unfolding rec_ok_def using assms by (auto dest!: seq_EmitD value_payload intro: records_one)

lemma rec_ok_items: "(\<And>p. rec_ok (r p)) \<Longrightarrow> rec_ok (items_ref r step n p)"
  unfolding items_ref_def by (rule rec_ok_seqs) auto

lemma rec_ok_array:
  assumes "wire_tag (tag field)"
  shows "rec_ok (array_ref m field pd count (value_ref sub m fof field))"
proof -
  have "rec_ok (seq (Emit (tag_ref PB_WT_STRING (tag field))) (delimit r))" for r
    unfolding rec_ok_def using assms records_one [of "tag field" PB_WT_STRING] by (auto dest!: seq_EmitD delimit_EmitD)
  then show ?thesis
    by (auto simp: array_ref_def intro!: rec_ok_items rec_ok_single assms)
qed

lemma rec_ok_field:
  assumes "wire_tag (tag field)" "\<And>fn f a. rec_ok (cb_ref cr fn f a)"
  shows "rec_ok (field_ref n sub m fof cr field pd)"
  using rec_ok_single [OF assms(1)] rec_ok_array [OF assms(1)] assms(2)
  by (simp add: field_ref_def basic_field_ref_def Let_def)

lemma rec_ok_encode:
  assumes "\<And>f. f \<in> set fs \<Longrightarrow> wire_tag (tag f) \<and> PB_LTYPE (type f) \<noteq> PB_LTYPE_EXTENSION"
    and "\<And>fn f a. rec_ok (cb_ref cr fn f a)"
  shows "rec_ok (encode_ref n m fof cr fs src)"
proof (cases n)
  case (Suc k)
  then show ?thesis
    using assms by (auto simp: Let_def intro!: rec_ok_seqs rec_ok_field)
qed simp

section \<open>Properties\<close>

text \<open>
  C13: scalars survive the wire. The value that \<open>pb_encode_varint\<close>, \<open>pb_encode_svarint\<close>, \<open>pb_encode_fixed32\<close> or
  \<open>pb_encode_fixed64\<close> stores in a buffer is the value that the matching decoder returns, and the decoder
  stops exactly at the end of the encoding.
\<close>

theorem scalar_roundtrip:
  fixes v w y :: u64 and x :: u32
  assumes "length rest < 2 ^ 32"
  shows "(\<exists>s b. pb_encode_varint v (pb_ostream_from_buffer 16) = Some (True, s) \<and> state s = Some b \<and>
            pb_decode_varint (instream e (b @ rest) after) = (Some v, instream e rest after)) \<and>
    (\<exists>s b. pb_encode_svarint w (pb_ostream_from_buffer 16) = Some (True, s) \<and> state s = Some b \<and>
            pb_decode_svarint (instream e (b @ rest) after) = (Some w, instream e rest after)) \<and>
    (\<exists>s b. pb_encode_fixed32 x (pb_ostream_from_buffer 16) = Some (True, s) \<and> state s = Some b \<and>
            pb_decode_fixed32 (instream e (b @ rest) after) = (Some x, instream e rest after)) \<and>
    (\<exists>s b. pb_encode_fixed64 y (pb_ostream_from_buffer 16) = Some (True, s) \<and> state s = Some b \<and>
            pb_decode_fixed64 (instream e (b @ rest) after) = (Some y, instream e rest after))"
proof -
  have r: "length (bs @ rest) < 2 ^ 64" if "length bs \<le> 10" for bs using assms that by simp
  have run: "\<exists>s'. f (pb_ostream_from_buffer 16) = Some (True, s') \<and> state s' = Some bs" if "acts f (Emit bs)" "length bs \<le> 10" for f bs
    using acts_run(2) [OF that(1), of 16] that(2) by auto
  have z: "zigzag_ref (sint w) < 2 ^ 64" using zigzag_correct [of w] unat_lt_u64 by metis
  have l: "length (varint_ref (unat v)) \<le> 10" "length (varint_ref (zigzag_ref (sint w))) \<le> 10"
    using length_varint_ref [of "unat v" 9] unat_lt_u64 [of v] length_varint_ref [of "zigzag_ref (sint w)" 9] z by simp_all
  have d1: "pb_decode_varint (instream e (varint_ref (unat v) @ rest) after) = (Some v, instream e rest after)"
    using decode_varint_ref [OF unat_lt_u64 r [OF l(1)], of e after] by simp
  have d2: "pb_decode_svarint (instream e (varint_ref (zigzag_ref (sint w)) @ rest) after) = (Some w, instream e rest after)"
    by (rule decode_svarint_ref [OF r [OF l(2)]])
  have d3: "pb_decode_fixed32 (instream e (le_bytes 4 (unat x) @ rest) after) = (Some x, instream e rest after)"
    using decode_fixed32_bytes [of "le_bytes 4 (unat x)" rest e after] assms unat_lt_u32 [of x] by (simp add: le_value_bytes)
  have d4: "pb_decode_fixed64 (instream e (le_bytes 8 (unat y) @ rest) after) = (Some y, instream e rest after)"
    using decode_fixed64_bytes [of "le_bytes 8 (unat y)" rest e after] assms unat_lt_u64 [of y] by (simp add: le_value_bytes)
  from run [OF acts_varint l(1)] run [OF acts_svarint l(2)] run [OF acts_fixed32, of x] run [OF acts_fixed64, of y]
  show ?thesis by (intro conjI) (use d1 d2 d3 d4 in fastforce)+
qed

theorem scalar_roundtrip_witness:
  "\<exists>s b. pb_encode_svarint (- 3) (pb_ostream_from_buffer 16) = Some (True, s) \<and> state s = Some b \<and>
     pb_decode_svarint (instream None (b @ [1, 2]) []) = (Some (- 3), instream None [1, 2] [])"
  using scalar_roundtrip [of "[1, 2]" 0 None "[]" "- 3" 0 0] by simp

text \<open>
  C25: tags survive the wire: for every legal field number (below \<open>2 ^ 29\<close>) and wire type, \<open>pb_decode_tag\<close>
  reads back what \<open>pb_encode_tag\<close> wrote, and does not take it for the end of the message.
\<close>

theorem tag_roundtrip:
  assumes "num \<noteq> 0" "unat num < 2 ^ 29" "wt \<in> {PB_WT_VARINT, PB_WT_64BIT, PB_WT_STRING, PB_WT_32BIT}" "length rest < 2 ^ 32"
  shows "\<exists>s b. pb_encode_tag wt num (pb_ostream_from_buffer 16) = Some (True, s) \<and> state s = Some b \<and>
    pb_decode_tag (instream e (b @ rest) after) = (True, \<lparr>wire_type = wt, field_tag = num, eof = False\<rparr>, instream e rest after)"
proof -
  have w: "unat (wire_type_value wt) < 8" using assms(3) by auto
  then have "8 * unat num + unat (wire_type_value wt) < 2 ^ 35" using assms(2) by simp
  then have l: "length (tag_ref wt num) \<le> 5"
    using length_varint_ref [of "8 * unat num + unat (wire_type_value wt)" 4] by (simp add: tag_ref_def)
  have "pb_decode_tag (instream e (tag_ref wt num @ rest) after) = (True, \<lparr>wire_type = wt, field_tag = num, eof = False\<rparr>, instream e rest after)"
    using assms l by (intro decode_tag_ref) auto
  with acts_run(2) [OF acts_tag [OF w, of num], of 16] l show ?thesis by auto
qed

theorem tag_roundtrip_witness:
  "\<exists>s b. pb_encode_tag PB_WT_STRING 536870911 (pb_ostream_from_buffer 16) = Some (True, s) \<and> state s = Some b \<and>
    pb_decode_tag (instream None (b @ []) []) = (True, \<lparr>wire_type = PB_WT_STRING, field_tag = 536870911, eof = False\<rparr>, instream None [] [])"
  by (rule tag_roundtrip) simp_all

text \<open>
  C2: what the encoder writes, any decoder can walk over. If \<open>pb_encode\<close> fills a buffer from a message
  whose field numbers are legal (callbacks writing whole records), then reading a tag and
  skipping the field, repeatedly, succeeds and ends exactly at the end of the encoding: every
  length prefix, packed array and submessage is consistent.
\<close>

theorem encoded_message_skims:
  assumes "conforms env cr" "encode_ref n (mem env) (fields_of env) cr fs src = Emit bs"
    and "length bs \<le> unat bufsize" "unat bufsize < 2 ^ 32"
    and "\<And>f. f \<in> set fs \<Longrightarrow> wire_tag (tag f) \<and> PB_LTYPE (type f) \<noteq> PB_LTYPE_EXTENSION"
    and "\<And>fn f a. rec_ok (cb_ref cr fn f a)"
  shows "\<exists>s out. pb_encode n env fs src (pb_ostream_from_buffer bufsize) = Some (True, s) \<and> state s = Some out \<and>
    skim (Suc (length out)) (instream e out after) = (Some True, instream e [] after)"
proof -
  have "acts (pb_encode n env fs src) (Emit bs)"
    using acts_encode [OF assms(1), of n fs src] assms(2) by simp
  from acts_run(2) [OF this _ assms(3)] assms(4) obtain s where
    "pb_encode n env fs src (pb_ostream_from_buffer bufsize) = Some (True, s)" "state s = Some bs" by auto
  moreover have "records bs"
    using rec_ok_encode [of fs cr n "mem env" "fields_of env" src] assms by (simp add: rec_ok_def)
  then have "skim (Suc (length bs)) (instream e bs after) = (Some True, instream e [] after)"
    using assms(3,4) by (intro skim_records) simp_all
  ultimately show ?thesis by blast
qed

theorem encoded_message_skims_witness:
  "\<exists>s out. pb_encode 3 example_env example_fields 4096 (pb_ostream_from_buffer 64) = Some (True, s) \<and> state s = Some out \<and>
    skim (Suc (length out)) (instream None out []) = (Some True, instream None [] [])"
  by (rule encoded_message_skims [OF example_conforms example_encode_ref])
    (auto simp: example_fields_def wire_tag_def no_callbacks_def pb_type_defs)

end
