(* ===== verification/Bytestring_CBS.thy ===== *)
theory Bytestring_CBS
  imports Prelude
begin

text \<open>
  \<^verbatim>\<open>crypto/bytestring/cbs.c\<close>: the CBS reader. A CBS is a slice of memory; the model keeps the bytes it
  covers. An operation returns \<open>None\<close> where the C function returns zero, together with the CBS
  as the call leaves it. Out parameters are results; those the C code may write before it fails are
  not observed.
\<close>

type_synonym CBS = bytes
type_synonym 'a cbs_res = "'a option \<times> CBS"

section \<open>Constants\<close>

definition CBS_ASN1_TAG_SHIFT :: nat where "CBS_ASN1_TAG_SHIFT = 24"
definition CBS_ASN1_CONSTRUCTED :: u32 where "CBS_ASN1_CONSTRUCTED = push_bit CBS_ASN1_TAG_SHIFT 0x20"
definition CBS_ASN1_TAG_NUMBER_MASK :: u32 where
  "CBS_ASN1_TAG_NUMBER_MASK = push_bit (5 + CBS_ASN1_TAG_SHIFT) 1 - 1"
definition CBS_ASN1_BOOLEAN :: u32 where "CBS_ASN1_BOOLEAN = 0x1"
definition CBS_ASN1_INTEGER :: u32 where "CBS_ASN1_INTEGER = 0x2"
definition CBS_ASN1_OCTETSTRING :: u32 where "CBS_ASN1_OCTETSTRING = 0x4"
definition CBS_ASN1_UTF8STRING :: u32 where "CBS_ASN1_UTF8STRING = 0xC"
definition CBS_ASN1_NUMERICSTRING :: u32 where "CBS_ASN1_NUMERICSTRING = 0x12"
definition CBS_ASN1_PRINTABLESTRING :: u32 where "CBS_ASN1_PRINTABLESTRING = 0x13"
definition CBS_ASN1_T61STRING :: u32 where "CBS_ASN1_T61STRING = 0x14"
definition CBS_ASN1_VIDEOTEXSTRING :: u32 where "CBS_ASN1_VIDEOTEXSTRING = 0x15"
definition CBS_ASN1_IA5STRING :: u32 where "CBS_ASN1_IA5STRING = 0x16"
definition CBS_ASN1_GRAPHICSTRING :: u32 where "CBS_ASN1_GRAPHICSTRING = 0x19"
definition CBS_ASN1_VISIBLESTRING :: u32 where "CBS_ASN1_VISIBLESTRING = 0x1A"
definition CBS_ASN1_GENERALSTRING :: u32 where "CBS_ASN1_GENERALSTRING = 0x1B"
definition CBS_ASN1_UNIVERSALSTRING :: u32 where "CBS_ASN1_UNIVERSALSTRING = 0x1C"
definition CBS_ASN1_BMPSTRING :: u32 where "CBS_ASN1_BMPSTRING = 0x1E"

section \<open>Raw bytes\<close>

definition CBS_init :: "bytes \<Rightarrow> u64 \<Rightarrow> CBS" where
  "CBS_init data len = take (unat len) data"

definition CBS_len :: "CBS \<Rightarrow> u64" where
  "CBS_len cbs = word_of_nat (length cbs)"

definition CBS_data :: "CBS \<Rightarrow> bytes" where
  "CBS_data cbs = cbs"

definition cbs_get :: "CBS \<Rightarrow> u64 \<Rightarrow> bytes cbs_res" where
  "cbs_get cbs n = (if CBS_len cbs < n then (None, cbs) else (Some (take (unat n) cbs), drop (unat n) cbs))"

definition CBS_skip :: "CBS \<Rightarrow> u64 \<Rightarrow> unit cbs_res" where
  "CBS_skip cbs len = rbind (cbs_get cbs len) (\<lambda>_ c. (Some (), c))"

text \<open>\<open>memdup\<close> is the result of \<open>OPENSSL_memdup\<close>, \<open>None\<close> when the allocation fails; an empty CBS is a null
  pointer with length zero.\<close>

definition CBS_stow :: "(bytes \<Rightarrow> bytes option) \<Rightarrow> CBS \<Rightarrow> bytes option" where
  "CBS_stow memdup cbs = (if length cbs = 0 then Some [] else memdup cbs)"

definition CBS_strdup :: "(bytes \<Rightarrow> bytes option) \<Rightarrow> CBS \<Rightarrow> bytes option" where
  "CBS_strdup memdup cbs = memdup (takeWhile (\<lambda>b. b \<noteq> 0) cbs @ [0])"

definition CBS_contains_zero_byte :: "CBS \<Rightarrow> bool" where
  "CBS_contains_zero_byte cbs \<longleftrightarrow> 0 \<in> set cbs"

fun CRYPTO_memcmp :: "bytes \<Rightarrow> bytes \<Rightarrow> u8 \<Rightarrow> u8" where
  "CRYPTO_memcmp (a # as) (b # bs) x = CRYPTO_memcmp as bs (x OR (a XOR b))"
| "CRYPTO_memcmp _ _ x = x"

definition CBS_mem_equal :: "CBS \<Rightarrow> bytes \<Rightarrow> bool" where
  "CBS_mem_equal cbs data \<longleftrightarrow> length data = length cbs \<and> CRYPTO_memcmp cbs data 0 = 0"

definition cbs_get_u :: "CBS \<Rightarrow> u64 \<Rightarrow> u64 cbs_res" where
  "cbs_get_u cbs len =
     rbind (cbs_get cbs len) (\<lambda>data c. (Some (foldl (\<lambda>result b. push_bit 8 result OR ucast b) 0 data), c))"

definition CBS_get_u8 :: "CBS \<Rightarrow> u8 cbs_res" where
  "CBS_get_u8 cbs = rbind (cbs_get cbs 1) (\<lambda>v c. (Some (v ! 0), c))"

definition CBS_get_u16 :: "CBS \<Rightarrow> u16 cbs_res" where
  "CBS_get_u16 cbs = rbind (cbs_get_u cbs 2) (\<lambda>v c. (Some (ucast v), c))"

text \<open>The byte swaps, in their portable form.\<close>

definition CRYPTO_bswap2 :: "u16 \<Rightarrow> u16" where
  "CRYPTO_bswap2 x = drop_bit 8 x OR push_bit 8 x"

definition CRYPTO_bswap4 :: "u32 \<Rightarrow> u32" where
  "CRYPTO_bswap4 x =
     (let x = drop_bit 16 x OR push_bit 16 x
      in drop_bit 8 (x AND 0xFF00FF00) OR push_bit 8 (x AND 0x00FF00FF))"

definition CRYPTO_bswap8 :: "u64 \<Rightarrow> u64" where
  "CRYPTO_bswap8 x = ucast (CRYPTO_bswap4 (ucast (drop_bit 32 x))) OR push_bit 32 (ucast (CRYPTO_bswap4 (ucast x)))"

definition CBS_get_u16le :: "CBS \<Rightarrow> u16 cbs_res" where
  "CBS_get_u16le cbs = rbind (CBS_get_u16 cbs) (\<lambda>v c. (Some (CRYPTO_bswap2 v), c))"

definition CBS_get_u24 :: "CBS \<Rightarrow> u32 cbs_res" where
  "CBS_get_u24 cbs = rbind (cbs_get_u cbs 3) (\<lambda>v c. (Some (ucast v), c))"

definition CBS_get_u32 :: "CBS \<Rightarrow> u32 cbs_res" where
  "CBS_get_u32 cbs = rbind (cbs_get_u cbs 4) (\<lambda>v c. (Some (ucast v), c))"

definition CBS_get_u32le :: "CBS \<Rightarrow> u32 cbs_res" where
  "CBS_get_u32le cbs = rbind (CBS_get_u32 cbs) (\<lambda>v c. (Some (CRYPTO_bswap4 v), c))"

definition CBS_get_u64 :: "CBS \<Rightarrow> u64 cbs_res" where
  "CBS_get_u64 cbs = cbs_get_u cbs 8"

definition CBS_get_u64le :: "CBS \<Rightarrow> u64 cbs_res" where
  "CBS_get_u64le cbs = rbind (cbs_get_u cbs 8) (\<lambda>v c. (Some (CRYPTO_bswap8 v), c))"

definition CBS_get_last_u8 :: "CBS \<Rightarrow> u8 cbs_res" where
  "CBS_get_last_u8 cbs = (if length cbs = 0 then (None, cbs) else (Some (cbs ! (length cbs - 1)), take (length cbs - 1) cbs))"

definition CBS_get_bytes :: "CBS \<Rightarrow> u64 \<Rightarrow> CBS cbs_res" where
  "CBS_get_bytes cbs len = rbind (cbs_get cbs len) (\<lambda>v c. (Some (CBS_init v len), c))"

definition CBS_copy_bytes :: "CBS \<Rightarrow> u64 \<Rightarrow> bytes cbs_res" where
  "CBS_copy_bytes cbs len = cbs_get cbs len"

definition cbs_get_length_prefixed :: "CBS \<Rightarrow> u64 \<Rightarrow> CBS cbs_res" where
  "cbs_get_length_prefixed cbs len_len = rbind (cbs_get_u cbs len_len) (\<lambda>len c. CBS_get_bytes c len)"

definition CBS_get_u8_length_prefixed :: "CBS \<Rightarrow> CBS cbs_res" where
  "CBS_get_u8_length_prefixed cbs = cbs_get_length_prefixed cbs 1"

definition CBS_get_u16_length_prefixed :: "CBS \<Rightarrow> CBS cbs_res" where
  "CBS_get_u16_length_prefixed cbs = cbs_get_length_prefixed cbs 2"

definition CBS_get_u24_length_prefixed :: "CBS \<Rightarrow> CBS cbs_res" where
  "CBS_get_u24_length_prefixed cbs = cbs_get_length_prefixed cbs 3"

text \<open>The offset \<open>memchr\<close> finds.\<close>

fun memchr :: "u8 \<Rightarrow> bytes \<Rightarrow> nat option" where
  "memchr c [] = None"
| "memchr c (b # bs) = (if b = c then Some 0 else map_option Suc (memchr c bs))"

definition CBS_get_until_first :: "CBS \<Rightarrow> u8 \<Rightarrow> CBS cbs_res" where
  "CBS_get_until_first cbs c =
     (case memchr c cbs of None \<Rightarrow> (None, cbs) | Some split \<Rightarrow> CBS_get_bytes cbs (word_of_nat split))"

section \<open>ASN.1 tags and lengths\<close>

fun base128_loop :: "u64 \<Rightarrow> CBS \<Rightarrow> u64 cbs_res" where
  "base128_loop v [] = (None, [])"
| "base128_loop v (b # cbs) =
     (if drop_bit (64 - 7) v \<noteq> 0 then (None, cbs)
      else if v = 0 \<and> b = 0x80 then (None, cbs)
      else
        let v' = push_bit 7 v OR ucast (b AND 0x7F)
        in if b AND 0x80 \<noteq> 0 then base128_loop v' cbs else (Some v', cbs))"

definition parse_base128_integer :: "CBS \<Rightarrow> u64 cbs_res" where
  "parse_base128_integer cbs = base128_loop 0 cbs"

definition parse_asn1_tag :: "CBS \<Rightarrow> u32 cbs_res" where
  "parse_asn1_tag cbs =
     rbind (CBS_get_u8 cbs) (\<lambda>tag_byte c.
       let tg = push_bit CBS_ASN1_TAG_SHIFT (ucast tag_byte AND 0xE0); tag_number = ucast (tag_byte AND 0x1F) in
       if tag_number = 0x1F then
         rbind (parse_base128_integer c) (\<lambda>v c'.
           if ucast CBS_ASN1_TAG_NUMBER_MASK < v \<or> v < 0x1F then (None, c') else (Some (tg OR ucast v), c'))
       else (Some (tg OR tag_number), c))"

text \<open>An element as the C function reports it.\<close>

record asn1_element =
  element :: CBS \<comment> \<open>header and contents\<close>
  elem_tag :: u32
  header_len :: u64
  ber_found :: bool

definition make_element :: "CBS \<Rightarrow> u64 \<Rightarrow> u32 \<Rightarrow> u64 \<Rightarrow> bool \<Rightarrow> asn1_element cbs_res" where
  "make_element cbs len tg hlen ber =
     rbind (CBS_get_bytes cbs len) (\<lambda>out c. (Some \<lparr>element = out, elem_tag = tg, header_len = hlen, ber_found = ber\<rparr>, c))"

definition cbs_get_any_asn1_element :: "CBS \<Rightarrow> bool \<Rightarrow> asn1_element cbs_res" where
  "cbs_get_any_asn1_element cbs ber_ok =
     (case parse_asn1_tag cbs of
        (None, _) \<Rightarrow> (None, cbs)
      | (Some tg, header) \<Rightarrow>
          case CBS_get_u8 header of
            (None, _) \<Rightarrow> (None, cbs)
          | (Some length_byte, header1) \<Rightarrow>
              let hlen = CBS_len cbs - CBS_len header1 in
              if length_byte AND 0x80 = 0 then make_element cbs (ucast length_byte + hlen) tg hlen False
              else
                let num_bytes = ucast (length_byte AND 0x7F) :: u64 in
                if ber_ok \<and> tg AND CBS_ASN1_CONSTRUCTED \<noteq> 0 \<and> num_bytes = 0 then make_element cbs hlen tg hlen True
                else if num_bytes = 0 \<or> 4 < num_bytes then (None, cbs)
                else case cbs_get_u header1 num_bytes of
                  (None, _) \<Rightarrow> (None, cbs)
                | (Some len64, _) \<Rightarrow>
                    let not_minimal = (len64 < 128 \<or> drop_bit (unat ((num_bytes - 1) * 8)) len64 = 0) in
                    if not_minimal \<and> \<not> ber_ok then (None, cbs)
                    else if len64 + hlen + num_bytes < len64 then (None, cbs)
                    else make_element cbs (len64 + hlen + num_bytes) tg (hlen + num_bytes) not_minimal)"

definition CBS_get_any_asn1_element :: "CBS \<Rightarrow> asn1_element cbs_res" where
  "CBS_get_any_asn1_element cbs = cbs_get_any_asn1_element cbs False"

definition CBS_get_any_ber_asn1_element :: "CBS \<Rightarrow> asn1_element cbs_res" where
  "CBS_get_any_ber_asn1_element cbs = cbs_get_any_asn1_element cbs True"

definition CBS_get_any_asn1 :: "CBS \<Rightarrow> (CBS \<times> u32) cbs_res" where
  "CBS_get_any_asn1 cbs =
     rbind (CBS_get_any_asn1_element cbs) (\<lambda>e c.
       case CBS_skip (element e) (header_len e) of (None, _) \<Rightarrow> (None, c) | (Some _, out) \<Rightarrow> (Some (out, elem_tag e), c))"

definition cbs_get_asn1 :: "CBS \<Rightarrow> u32 \<Rightarrow> bool \<Rightarrow> CBS cbs_res" where
  "cbs_get_asn1 cbs tag_value skip_header =
     rbind (CBS_get_any_asn1_element cbs) (\<lambda>e c.
       if elem_tag e \<noteq> tag_value then (None, c)
       else if skip_header
       then case CBS_skip (element e) (header_len e) of (None, _) \<Rightarrow> (None, c) | (Some _, out) \<Rightarrow> (Some out, c)
       else (Some (element e), c))"

definition CBS_get_asn1 :: "CBS \<Rightarrow> u32 \<Rightarrow> CBS cbs_res" where
  "CBS_get_asn1 cbs tag_value = cbs_get_asn1 cbs tag_value True"

definition CBS_get_asn1_element :: "CBS \<Rightarrow> u32 \<Rightarrow> CBS cbs_res" where
  "CBS_get_asn1_element cbs tag_value = cbs_get_asn1 cbs tag_value False"

definition CBS_peek_asn1_tag :: "CBS \<Rightarrow> u32 \<Rightarrow> bool" where
  "CBS_peek_asn1_tag cbs tag_value \<longleftrightarrow> \<not> CBS_len cbs < 1 \<and> fst (parse_asn1_tag cbs) = Some tag_value"

section \<open>ASN.1 values\<close>

definition CBS_is_valid_asn1_integer :: "CBS \<Rightarrow> bool option" where
  "CBS_is_valid_asn1_integer cbs =
     (case CBS_get_u8 cbs of
        (None, _) \<Rightarrow> None
      | (Some first_byte, copy) \<Rightarrow>
          let is_negative = (first_byte AND 0x80 \<noteq> 0) in
          case CBS_get_u8 copy of
            (None, _) \<Rightarrow> Some is_negative
          | (Some second_byte, _) \<Rightarrow>
              if first_byte = 0x00 \<and> second_byte AND 0x80 = 0 \<or> first_byte = 0xFF \<and> second_byte AND 0x80 \<noteq> 0
              then None else Some is_negative)"

definition CBS_is_unsigned_asn1_integer :: "CBS \<Rightarrow> bool" where
  "CBS_is_unsigned_asn1_integer cbs \<longleftrightarrow> CBS_is_valid_asn1_integer cbs = Some False"

fun asn1_uint64_loop :: "u64 \<Rightarrow> bytes \<Rightarrow> u64 option" where
  "asn1_uint64_loop out [] = Some out"
| "asn1_uint64_loop out (b # data) =
     (if drop_bit 56 out \<noteq> 0 then None else asn1_uint64_loop (push_bit 8 out OR ucast b) data)"

definition CBS_get_asn1_uint64 :: "CBS \<Rightarrow> u64 cbs_res" where
  "CBS_get_asn1_uint64 cbs =
     rbind (CBS_get_asn1 cbs CBS_ASN1_INTEGER) (\<lambda>bs c.
       if \<not> CBS_is_unsigned_asn1_integer bs then (None, c) else (asn1_uint64_loop 0 bs, c))"

text \<open>The union of eight bytes is read back as a little-endian integer.\<close>

definition CBS_get_asn1_int64 :: "CBS \<Rightarrow> 64 word cbs_res" where
  "CBS_get_asn1_int64 cbs =
     rbind (CBS_get_asn1 cbs CBS_ASN1_INTEGER) (\<lambda>bs c.
       case CBS_is_valid_asn1_integer bs of
         None \<Rightarrow> (None, c)
       | Some is_negative \<Rightarrow>
           if 8 < length bs then (None, c)
           else (Some (word_of_nat (le_value (memcpy_at (replicate 8 (if is_negative then 0xFF else 0)) 0 (rev bs)))), c))"

definition CBS_get_asn1_bool :: "CBS \<Rightarrow> bool cbs_res" where
  "CBS_get_asn1_bool cbs =
     rbind (CBS_get_asn1 cbs CBS_ASN1_BOOLEAN) (\<lambda>bs c.
       if length bs \<noteq> 1 then (None, c)
       else if bs ! 0 \<noteq> 0 \<and> bs ! 0 \<noteq> 0xFF then (None, c) else (Some (bs ! 0 \<noteq> 0), c))"

text \<open>\<open>Some None\<close>: absent.\<close>

definition CBS_get_optional_asn1 :: "CBS \<Rightarrow> u32 \<Rightarrow> CBS option cbs_res" where
  "CBS_get_optional_asn1 cbs tg =
     (if CBS_peek_asn1_tag cbs tg then rbind (CBS_get_asn1 cbs tg) (\<lambda>out c. (Some (Some out), c))
      else (Some None, cbs))"

definition CBS_get_optional_asn1_octet_string :: "CBS \<Rightarrow> u32 \<Rightarrow> (CBS \<times> bool) cbs_res" where
  "CBS_get_optional_asn1_octet_string cbs tg =
     rbind (CBS_get_optional_asn1 cbs tg) (\<lambda>present c.
       case present of
         None \<Rightarrow> (Some ([], False), c)
       | Some child \<Rightarrow>
           (case CBS_get_asn1 child CBS_ASN1_OCTETSTRING of
              (None, _) \<Rightarrow> (None, c)
            | (Some out, child') \<Rightarrow> if length child' \<noteq> 0 then (None, c) else (Some (out, True), c)))"

definition CBS_get_optional_asn1_uint64 :: "CBS \<Rightarrow> u32 \<Rightarrow> u64 \<Rightarrow> u64 cbs_res" where
  "CBS_get_optional_asn1_uint64 cbs tg default_value =
     rbind (CBS_get_optional_asn1 cbs tg) (\<lambda>present c.
       case present of
         None \<Rightarrow> (Some default_value, c)
       | Some child \<Rightarrow>
           (case CBS_get_asn1_uint64 child of
              (None, _) \<Rightarrow> (None, c)
            | (Some out, child') \<Rightarrow> if length child' \<noteq> 0 then (None, c) else (Some out, c)))"

definition CBS_get_optional_asn1_bool :: "CBS \<Rightarrow> u32 \<Rightarrow> bool \<Rightarrow> bool cbs_res" where
  "CBS_get_optional_asn1_bool cbs tg default_value =
     rbind (CBS_get_optional_asn1 cbs tg) (\<lambda>present c.
       case present of
         None \<Rightarrow> (Some default_value, c)
       | Some child \<Rightarrow>
           (case CBS_get_asn1 child CBS_ASN1_BOOLEAN of
              (None, _) \<Rightarrow> (None, c)
            | (Some child2, child') \<Rightarrow>
                if length child2 \<noteq> 1 \<or> length child' \<noteq> 0 then (None, c)
                else if child2 ! 0 = 0 then (Some False, c)
                else if child2 ! 0 = 0xFF then (Some True, c) else (None, c)))"

definition CBS_is_valid_asn1_bitstring :: "CBS \<Rightarrow> bool" where
  "CBS_is_valid_asn1_bitstring cbs =
     (case CBS_get_u8 cbs of
        (None, _) \<Rightarrow> False
      | (Some num_unused_bits, c) \<Rightarrow>
          if 7 < num_unused_bits then False
          else if num_unused_bits = 0 then True
          else case CBS_get_last_u8 c of
                 (None, _) \<Rightarrow> False
               | (Some last_byte, _) \<Rightarrow> last_byte AND (push_bit (unat num_unused_bits) 1 - 1) = 0)"

definition CBS_asn1_bitstring_has_bit :: "CBS \<Rightarrow> u32 \<Rightarrow> bool" where
  "CBS_asn1_bitstring_has_bit cbs b =
     (if \<not> CBS_is_valid_asn1_bitstring cbs then False
      else
        let byte_num = drop_bit 3 b + 1; bit_num = 7 - (b AND 7)
        in ucast byte_num < CBS_len cbs \<and> (cbs ! unat byte_num) AND push_bit (unat bit_num) 1 \<noteq> 0)"

section \<open>Reads\<close>

lemma CBS_len_less: "length cbs < 2 ^ 64 \<Longrightarrow> CBS_len cbs < n \<longleftrightarrow> length cbs < unat n"
  by (simp add: CBS_len_def word_less_nat_alt unat_word_of_nat)

lemma cbs_get_eq: "length cbs < 2 ^ 64 \<Longrightarrow>
  cbs_get cbs n = (if length cbs < unat n then (None, cbs) else (Some (take (unat n) cbs), drop (unat n) cbs))"
  by (simp add: cbs_get_def CBS_len_less)

lemma CBS_get_u8_simps [simp]: "CBS_get_u8 [] = (None, [])"
  "length (b # cbs) < 2 ^ 64 \<Longrightarrow> CBS_get_u8 (b # cbs) = (Some b, cbs)"
  by (simp_all add: CBS_get_u8_def cbs_get_eq)

lemma CBS_get_bytes_eq: "length cbs < 2 ^ 64 \<Longrightarrow>
  CBS_get_bytes cbs n = (if length cbs < unat n then (None, cbs) else (Some (take (unat n) cbs), drop (unat n) cbs))"
  by (simp add: CBS_get_bytes_def cbs_get_eq CBS_init_def)

lemma CBS_skip_eq: "length cbs < 2 ^ 64 \<Longrightarrow>
  CBS_skip cbs n = (if length cbs < unat n then (None, cbs) else (Some (), drop (unat n) cbs))"
  by (simp add: CBS_skip_def cbs_get_eq)

lemma fold_be_value:
  "(foldl (\<lambda>r b. push_bit 8 r OR ucast b) (word_of_nat r) data :: u64) = word_of_nat (r * 256 ^ length data + be_value data)"
  if "r * 256 ^ length data + be_value data < 2 ^ 64"
  using that
proof (induction data arbitrary: r)
  case (Cons b data)
  have eq: "(r * 256 + unat b) * 256 ^ length data + be_value data = r * 256 ^ length (b # data) + be_value (b # data)"
    by (simp add: be_value_Cons algebra_simps)
  have "r * 256 + unat b \<le> (r * 256 + unat b) * 256 ^ length data + be_value data" by (simp add: trans_le_add1)
  also have "\<dots> < 2 ^ 64" using Cons.prems unfolding eq by simp
  finally have "r * 256 + unat b < 2 ^ 64" .
  then have "push_bit 8 (word_of_nat r) OR ucast b = (word_of_nat (r * 256 + unat b) :: u64)"
    using or_low_add [of r 8 "unat b", where 'a = 64] unat_lt_u8 [of b] by simp
  then show ?case using Cons.IH [of "r * 256 + unat b"] Cons.prems eq by (simp del: of_nat_add of_nat_mult of_nat_power)
qed simp

lemma cbs_get_u_eq:
  assumes "length cbs < 2 ^ 64" "unat n \<le> 8"
  shows "cbs_get_u cbs n = (if length cbs < unat n then (None, cbs)
    else (Some (word_of_nat (be_value (take (unat n) cbs))), drop (unat n) cbs))"
proof (cases "length cbs < unat n")
  case False
  have "be_value (take (unat n) cbs) < 256 ^ length (take (unat n) cbs)" by (rule be_value_bound)
  also have "\<dots> \<le> 256 ^ 8" using assms(2) by (intro power_increasing) auto
  finally have "be_value (take (unat n) cbs) < 2 ^ 64" by simp
  then show ?thesis
    using fold_be_value [of 0 "take (unat n) cbs"] assms by (simp add: cbs_get_u_def cbs_get_eq)
qed (use assms in \<open>simp add: cbs_get_u_def cbs_get_eq\<close>)

section \<open>Base-128 integers\<close>

text \<open>The canonical big-endian base-128 encoding: the high groups carry the continuation bit.\<close>

fun base128_hi :: "nat \<Rightarrow> bytes" where
  "base128_hi n = (if n = 0 then [] else base128_hi (n div 128) @ [word_of_nat (128 + n mod 128)])"

declare base128_hi.simps [simp del]

definition base128 :: "nat \<Rightarrow> bytes" where
  "base128 n = base128_hi (n div 128) @ [word_of_nat (n mod 128)]"

lemma base128_hi_0 [simp]: "base128_hi 0 = []"
  by (simp add: base128_hi.simps)

lemma low_group [simp]: "unat (word_of_nat (n mod 128) :: u8) = n mod 128" "unat (word_of_nat (128 + n mod 128) :: u8) = 128 + n mod 128"
proof -
  have "n mod 128 < 128" by simp
  then show "unat (word_of_nat (n mod 128) :: u8) = n mod 128" "unat (word_of_nat (128 + n mod 128) :: u8) = 128 + n mod 128"
    by (intro unat_word_of_nat; simp)+
qed

lemma base128_step:
  assumes "unat v < 2 ^ 57"
  shows "(push_bit 7 v OR ucast (b AND 0x7F :: u8) :: u64) = word_of_nat (unat v * 128 + unat b mod 128)"
proof -
  have m: "unat b mod 128 < 2 ^ 7" by simp
  have "unat (b AND 0x7F) = unat b mod 128" by (simp add: high_bit(2))
  then have "ucast (b AND 0x7F) = (word_of_nat (unat b mod 128) :: u64)" by (metis of_nat_unat)
  moreover have "unat v * 2 ^ 7 + unat b mod 128 < 2 ^ 64" using assms m by simp
  ultimately show ?thesis
    using or_low_add [of "unat v" 7 "unat b mod 128", where 'a = 64] m by simp
qed

lemma drop57: "drop_bit (64 - 7) (v :: u64) = 0 \<longleftrightarrow> unat v < 2 ^ 57"
proof -
  have "drop_bit 57 v = 0 \<longleftrightarrow> unat (drop_bit 57 v) = 0" by (simp add: unat_eq_zero)
  also have "unat (drop_bit 57 v) = unat v div 2 ^ 57" by (simp add: drop_bit_eq_div unat_div)
  also have "unat v div 2 ^ 57 = 0 \<longleftrightarrow> unat v < 2 ^ 57" by (simp add: div_eq_0_iff)
  finally show ?thesis by simp
qed

lemma base128_loop_hi:
  "m < 2 ^ 57 \<Longrightarrow> base128_loop 0 (base128_hi m @ cs) = base128_loop (word_of_nat m) cs"
proof (induction m arbitrary: cs rule: base128_hi.induct)
  case (1 m)
  show ?case
  proof (cases "m = 0")
    case False
    let ?b = "word_of_nat (128 + m mod 128) :: u8"
    have q: "m div 128 < 2 ^ 57" using 1(2) by simp
    then have u: "unat (word_of_nat (m div 128) :: u64) = m div 128" by (simp add: unat_word_of_nat)
    have b80: "?b = 0x80 \<longleftrightarrow> m mod 128 = 0" using low_group(2) [of m] by (auto simp: word_unat_eq_iff simp del: of_nat_add)
    have nz: "\<not> (word_of_nat (m div 128) = (0 :: u64) \<and> ?b = 0x80)"
      using False u b80 by (metis div_mult_mod_eq add.right_neutral mult_zero_left unat_0)
    have hi: "?b AND 0x80 \<noteq> 0" using low_group(2) [of m] by (simp add: high_bit(1) word_less_nat_alt del: of_nat_add)
    have v: "push_bit 7 (word_of_nat (m div 128)) OR ucast (?b AND 0x7F) = (word_of_nat m :: u64)"
      using base128_step [of "word_of_nat (m div 128)" ?b] q u low_group(2) [of m] by (simp add: add.commute mult.commute del: of_nat_add of_nat_mult)
    have "base128_loop 0 (base128_hi m @ cs) = base128_loop (word_of_nat (m div 128)) (?b # cs)"
      using 1(1) [OF False q, of "?b # cs"] False by (simp add: base128_hi.simps [of m])
    also have "\<dots> = base128_loop (word_of_nat m) cs"
      using nz hi v q u by (auto simp: drop57 [simplified] simp del: of_nat_add)
    finally show ?thesis .
  qed simp
qed

lemma parse_base128_encode:
  assumes "n < 2 ^ 64"
  shows "parse_base128_integer (base128 n @ rest) = (Some (word_of_nat n), rest)"
proof -
  let ?b = "word_of_nat (n mod 128) :: u8"
  have q: "n div 128 < 2 ^ 57" using assms by simp
  then have u: "unat (word_of_nat (n div 128) :: u64) = n div 128" by (simp add: unat_word_of_nat)
  have "unat ?b < 128" by simp
  then have lo: "?b AND 0x80 = 0" "?b \<noteq> 0x80" by (auto simp: high_bit(1) word_less_nat_alt simp del: low_group)
  have v: "push_bit 7 (word_of_nat (n div 128)) OR ucast (?b AND 0x7F) = (word_of_nat n :: u64)"
    using base128_step [of "word_of_nat (n div 128)" ?b] q u low_group(1) [of n] by (simp add: add.commute mult.commute del: of_nat_add of_nat_mult)
  show ?thesis
    using base128_loop_hi [OF q, of "?b # rest"] lo v q u
    by (simp add: parse_base128_integer_def base128_def drop57 [simplified])
qed

lemma base128_loop_decode:
  "base128_loop v cbs = (Some w, rest) \<Longrightarrow> base128_hi (unat v) @ cbs = base128 (unat w) @ rest"
proof (induction v cbs rule: base128_loop.induct)
  case (2 v b cbs)
  define v' where "v' = push_bit 7 v OR ucast (b AND 0x7F)"
  have ok: "unat v < 2 ^ 57" "\<not> (v = 0 \<and> b = 0x80)"
    using 2(2) by (auto simp: drop57 [simplified] split: if_splits)
  have m: "unat b mod 128 < 128" by simp
  then have "unat v * 128 + unat b mod 128 < 2 ^ 64" using ok(1) by simp
  then have u: "unat v' = unat v * 128 + unat b mod 128"
    unfolding v'_def base128_step [OF ok(1)] by (simp add: unat_word_of_nat del: of_nat_add of_nat_mult)
  then have dm: "unat v' div 128 = unat v" "unat v' mod 128 = unat b mod 128" by simp_all
  show ?case
  proof (cases "b AND 0x80 \<noteq> 0")
    case True
    then have b: "unat b = 128 + unat b mod 128" using unat_lt_u8 [of b] by (intro high_half) (simp_all add: high_bit(1) word_less_nat_alt)
    have "unat v' \<noteq> 0"
    proof
      assume "unat v' = 0"
      then have "v = 0" "unat b = 128" using u b by (simp_all add: unat_eq_zero)
      then show False using ok(2) by (simp add: word_unat_eq_iff)
    qed
    moreover have "word_of_nat (128 + unat b mod 128) = b" using b by (metis of_nat_unat ucast_id)
    ultimately have "base128_hi (unat v') = base128_hi (unat v) @ [b]"
      by (simp add: base128_hi.simps [of "unat v'"] dm del: of_nat_add)
    moreover have "base128_loop v' cbs = (Some w, rest)" using 2(2) ok True by (simp add: Let_def v'_def split: if_splits)
    ultimately show ?thesis using 2(1) [OF _ ok(2) v'_def True] ok(1) by (simp add: drop57 [simplified])
  next
    case False
    then have b: "unat b = unat b mod 128" by (simp add: high_bit(1) word_less_nat_alt)
    have w: "w = v'" "rest = cbs" using 2(2) ok False by (auto simp: Let_def v'_def split: if_splits)
    have "word_of_nat (unat b mod 128) = b" using b by (metis of_nat_unat ucast_id)
    then show ?thesis by (simp add: w base128_def dm)
  qed
qed simp

lemma parse_base128_decode: "parse_base128_integer cbs = (Some w, rest) \<Longrightarrow> cbs = base128 (unat w) @ rest"
  using base128_loop_decode [of 0 cbs w rest] by (simp add: parse_base128_integer_def)

section \<open>DER tags\<close>

definition class_bits :: "u32 \<Rightarrow> u8" where
  "class_bits tg = ucast (drop_bit 24 tg AND 0xE0)"

definition tag_num :: "u32 \<Rightarrow> nat" where
  "tag_num tg = unat (tg AND CBS_ASN1_TAG_NUMBER_MASK)"

definition der_tag :: "u32 \<Rightarrow> bytes" where
  "der_tag tg =
     (if 31 \<le> tag_num tg then (class_bits tg OR 0x1F) # base128 (tag_num tg) else [class_bits tg OR word_of_nat (tag_num tg)])"

lemma mask5: "(0x1F :: 'a::len word) = mask 5" and mask3: "(0xE0 :: 'a::len word) = push_bit 5 (mask 3)"
  by (simp_all add: mask_eq_exp_minus_1 push_bit_eq_mult)

lemma number_mask: "CBS_ASN1_TAG_NUMBER_MASK = mask 29"
  by (simp add: CBS_ASN1_TAG_NUMBER_MASK_def CBS_ASN1_TAG_SHIFT_def mask_eq_exp_minus_1)

lemma bit_class: "bit (class_bits tg) n \<longleftrightarrow> 5 \<le> n \<and> n < 8 \<and> bit tg (n + 24)"
  unfolding class_bits_def mask3 by (auto simp: bit_simps add.commute)

lemma class_and_E0: "ucast (class_bits tg OR w) AND 0xE0 = (ucast (class_bits tg) :: u32)" if "w AND 0xE0 = 0" for w :: u8
proof -
  have "\<not> bit w n" if "5 \<le> n" "n < 8" for n
  proof -
    have "\<not> bit (w AND 0xE0) n" using \<open>w AND 0xE0 = 0\<close> by simp
    then show ?thesis using that unfolding mask3 by (auto simp: bit_simps)
  qed
  then show ?thesis unfolding mask3 by (intro bit_word_eqI) (auto simp: bit_simps bit_class)
qed

lemma class_and_1F: "(class_bits tg OR w) AND 0x1F = w AND 0x1F"
  unfolding mask5 by (rule bit_word_eqI) (auto simp: bit_simps bit_class)

lemma tag_join: "push_bit CBS_ASN1_TAG_SHIFT (ucast (class_bits tg)) OR word_of_nat (tag_num tg) = tg"
proof -
  have "word_of_nat (tag_num tg) = take_bit 29 tg" by (simp add: tag_num_def number_mask take_bit_eq_mask)
  then show ?thesis
    unfolding CBS_ASN1_TAG_SHIFT_def by (intro bit_word_eqI) (auto simp: bit_simps bit_class)
qed

lemma tag_num_less: "tag_num tg < 2 ^ 29"
proof -
  have "unat (take_bit 29 tg) = unat tg mod 2 ^ 29" by (simp add: take_bit_eq_mod unat_mod)
  then show ?thesis by (simp add: tag_num_def number_mask take_bit_eq_mask [symmetric])
qed

lemma small_E0: "k < 32 \<Longrightarrow> (word_of_nat k :: u8) AND 0xE0 = 0" and small_1F: "k < 32 \<Longrightarrow> (word_of_nat k :: u8) AND 0x1F = word_of_nat k"
proof -
  assume "k < 32"
  then have t: "take_bit 5 k = k" by (simp add: take_bit_nat_eq_self)
  then have b: "bit k n \<Longrightarrow> n < 5" for n by (metis bit_take_bit_iff)
  show "(word_of_nat k :: u8) AND 0xE0 = 0"
    unfolding mask3 by (rule bit_word_eqI) (auto simp: bit_simps dest: b)
  show "(word_of_nat k :: u8) AND 0x1F = word_of_nat k"
    unfolding mask5 by (rule bit_word_eqI) (auto simp: bit_simps dest: b)
qed

lemma parse_tag_encode:
  assumes "length (der_tag tg @ rest) < 2 ^ 64"
  shows "parse_asn1_tag (der_tag tg @ rest) = (Some tg, rest)"
proof (cases "31 \<le> tag_num tg")
  case True
  let ?b = "class_bits tg OR 0x1F"
  have e0: "(0x1F :: u8) AND 0xE0 = 0" "(0x1F :: u8) AND 0x1F = 0x1F" by simp_all
  have lt: "tag_num tg < 2 ^ 64" using tag_num_less [of tg] by simp
  have u: "unat (word_of_nat (tag_num tg) :: u64) = tag_num tg" using lt by (simp add: unat_word_of_nat)
  have c: "ucast (word_of_nat (tag_num tg) :: u64) = (word_of_nat (tag_num tg) :: u32)"
    using u by (metis of_nat_unat)
  have ok: "\<not> ucast CBS_ASN1_TAG_NUMBER_MASK < (word_of_nat (tag_num tg) :: u64)" "\<not> word_of_nat (tag_num tg) < (0x1F :: u64)"
    using tag_num_less [of tg] True u by (simp_all add: word_less_nat_alt CBS_ASN1_TAG_NUMBER_MASK_def CBS_ASN1_TAG_SHIFT_def)
  have "CBS_get_u8 (?b # base128 (tag_num tg) @ rest) = (Some ?b, base128 (tag_num tg) @ rest)"
    using assms True by (simp add: der_tag_def)
  moreover have "(ucast (?b AND 0x1F) :: u32) = 0x1F" using class_and_1F [of tg "0x1F"] e0 by simp
  ultimately show ?thesis
    using True class_and_E0 [OF e0(1), of tg] parse_base128_encode [OF lt, of rest] ok c tag_join [of tg]
    by (simp add: parse_asn1_tag_def der_tag_def Let_def del: push_bit_and)
next
  case False
  then have k: "tag_num tg < 32" "tag_num tg \<noteq> 31" by simp_all
  let ?w = "word_of_nat (tag_num tg) :: u8"
  have u: "unat ?w = tag_num tg" using k by (simp add: unat_word_of_nat)
  have w: "(class_bits tg OR ?w) AND 0x1F = ?w" using class_and_1F small_1F [OF k(1)] by simp
  have c: "ucast ?w = (word_of_nat (tag_num tg) :: u32)" using u by (metis of_nat_unat)
  have ne: "(word_of_nat (tag_num tg) :: u32) \<noteq> 0x1F"
    using k unat_word_of_nat [of "tag_num tg", where 'a = 32] by (auto simp: word_unat_eq_iff)
  show ?thesis
    using False assms class_and_E0 [OF small_E0 [OF k(1)], of tg] w c ne tag_join [of tg]
    by (simp add: parse_asn1_tag_def der_tag_def Let_def del: push_bit_and)
qed

lemma class_recover:
  fixes b :: u8 and n :: u32
  assumes "unat n < 2 ^ 29"
  defines "tg \<equiv> push_bit CBS_ASN1_TAG_SHIFT (ucast b AND 0xE0) OR n"
  shows "class_bits tg = b AND 0xE0" "tag_num tg = unat n"
proof -
  have "take_bit 29 n = n" using assms(1) by (simp add: take_bit_eq_mod word_unat_eq_iff unat_mod)
  then have nb: "bit n k \<Longrightarrow> k < 29" for k by (metis bit_take_bit_iff)
  have tgb: "bit tg k \<longleftrightarrow> (24 \<le> k \<and> k < 32 \<and> 29 \<le> k \<and> bit b (k - 24)) \<or> bit n k" for k
    unfolding tg_def CBS_ASN1_TAG_SHIFT_def mask3 by (auto simp: bit_simps simp del: push_bit_and dest: bit_imp_le_length)
  show "class_bits tg = b AND 0xE0"
    by (rule bit_word_eqI) (auto simp: bit_class tgb bit_and_iff mask3 bit_push_bit_iff bit_mask_iff simp del: push_bit_and dest: nb)
  have "tg AND mask 29 = n"
    by (rule bit_word_eqI) (auto simp: bit_and_iff bit_mask_iff tgb dest: nb)
  then show "tag_num tg = unat n" by (simp add: tag_num_def number_mask)
qed

lemma byte_split: "(b AND 0xE0) OR (b AND 0x1F) = b" for b :: u8
  unfolding mask3 mask5 by (rule bit_word_eqI) (auto simp: bit_simps)

lemma parse_tag_decode:
  assumes "length cbs < 2 ^ 64" "parse_asn1_tag cbs = (Some tg, rest)"
  shows "cbs = der_tag tg @ rest"
proof -
  obtain b cs where cbs: "cbs = b # cs" using assms(2) by (cases cbs) (auto simp: parse_asn1_tag_def)
  then have get: "CBS_get_u8 cbs = (Some b, cs)" using assms(1) by simp
  have low: "unat (b AND 0x1F) < 32"
  proof -
    have "b AND 0x1F = take_bit 5 b" unfolding mask5 by (simp add: take_bit_eq_mask)
    then show ?thesis by (simp add: take_bit_eq_mod unat_mod)
  qed
  show ?thesis
  proof (cases "ucast (b AND 0x1F) = (0x1F :: u32)")
    case True
    then have "unat (b AND 0x1F) = 31" using ucast_u8_u64(2) [of "b AND 0x1F"] by simp
    then have b1f: "b AND 0x1F = 0x1F" by (simp add: word_unat_eq_iff)
    from assms(2) True obtain v where v: "parse_base128_integer cs = (Some v, rest)" "v \<le> ucast CBS_ASN1_TAG_NUMBER_MASK" "0x1F \<le> v"
        "tg = push_bit CBS_ASN1_TAG_SHIFT (ucast b AND 0xE0) OR ucast v"
      by (auto simp: parse_asn1_tag_def get Let_def rbind_def simp del: push_bit_and split: prod.splits option.splits if_splits)
    have "unat v < 2 ^ 29" using v(2) by (simp add: word_le_nat_alt CBS_ASN1_TAG_NUMBER_MASK_def CBS_ASN1_TAG_SHIFT_def)
    then have uv: "unat (ucast v :: u32) = unat v" by (simp add: unsigned_ucast_eq take_bit_nat_eq_self)
    have "class_bits tg = b AND 0xE0" "tag_num tg = unat v"
      using class_recover [of "ucast v" b] uv \<open>unat v < 2 ^ 29\<close> by (simp_all add: v(4) del: push_bit_and)
    moreover have "31 \<le> unat v" using v(3) by (simp add: word_le_nat_alt)
    ultimately show ?thesis
      using parse_base128_decode [OF v(1)] byte_split [of b] b1f by (simp add: der_tag_def cbs)
  next
    case False
    then have tg: "tg = push_bit CBS_ASN1_TAG_SHIFT (ucast b AND 0xE0) OR ucast (b AND 0x1F)" "rest = cs"
      using assms(2) by (auto simp: parse_asn1_tag_def get Let_def simp del: push_bit_and unsigned_and_eq)
    have uv: "unat (ucast (b AND 0x1F) :: u32) = unat (b AND 0x1F)" by simp
    have "class_bits tg = b AND 0xE0" "tag_num tg = unat (b AND 0x1F)"
      using class_recover [of "ucast (b AND 0x1F)" b] uv low by (simp_all add: tg(1) del: push_bit_and)
    moreover have "unat (b AND 0x1F) \<noteq> 31" using False uv by (auto simp: word_unat_eq_iff)
    ultimately show ?thesis
      using low byte_split [of b] by (simp add: der_tag_def cbs tg(2))
  qed
qed

section \<open>DER elements\<close>

definition octets :: "nat \<Rightarrow> nat" where
  "octets l = (if l < 256 then 1 else if l < 65536 then 2 else if l < 16777216 then 3 else 4)"

definition der_len :: "nat \<Rightarrow> bytes" where
  "der_len l = (if l < 128 then [word_of_nat l] else word_of_nat (128 + octets l) # be_bytes (octets l) l)"

definition der :: "u32 \<Rightarrow> bytes \<Rightarrow> bytes" where
  "der tg body = der_tag tg @ der_len (length body) @ body"

lemma octets_range: "1 \<le> octets l" "octets l \<le> 4"
  by (simp_all add: octets_def)

lemma octets_bound: "l < 2 ^ 32 \<Longrightarrow> l < 256 ^ octets l"
  by (auto simp: octets_def)

lemma octets_minimal: "128 \<le> l \<Longrightarrow> l div 2 ^ ((octets l - 1) * 8) \<noteq> 0"
  by (auto simp: octets_def div_eq_0_iff)

lemma octets_unique: "l < 256 ^ k \<Longrightarrow> 1 \<le> k \<Longrightarrow> k \<le> 4 \<Longrightarrow> l div 2 ^ ((k - 1) * 8) \<noteq> 0 \<Longrightarrow> octets l = k"
proof -
  assume a: "l < 256 ^ k" "1 \<le> k" "k \<le> 4" "l div 2 ^ ((k - 1) * 8) \<noteq> 0"
  then have "2 ^ ((k - 1) * 8) \<le> l" by (simp add: div_eq_0_iff not_less)
  moreover have "k = 1 \<or> k = 2 \<or> k = 3 \<or> k = 4" using a by auto
  ultimately show ?thesis using a(1) by (auto simp: octets_def)
qed

lemma der_tag_bound: "1 \<le> length (der_tag tg)"
  by (simp add: der_tag_def)

lemma der_len_bound: "1 \<le> length (der_len l)" "length (der_len l) \<le> 5"
  using octets_range [of l] by (simp_all add: der_len_def)

lemma long_byte: "1 \<le> k \<Longrightarrow> k \<le> 4 \<Longrightarrow> (word_of_nat (128 + k) :: u8) AND 0x80 \<noteq> 0 \<and>
    (ucast ((word_of_nat (128 + k) :: u8) AND 0x7F) :: u64) = word_of_nat k"
proof -
  assume k: "1 \<le> k" "k \<le> 4"
  have ku: "unat (word_of_nat k :: u8) = k" using k by (intro unat_word_of_nat) simp
  from k have u: "unat (word_of_nat (128 + k) :: u8) = 128 + k" by (intro unat_word_of_nat) simp
  then have "(word_of_nat (128 + k) :: u8) AND 0x80 \<noteq> 0" using k by (simp add: high_bit(1) word_less_nat_alt del: of_nat_add)
  moreover have "(word_of_nat (128 + k) :: u8) AND 0x7F = word_of_nat k"
    using u k by (simp add: high_bit(2) del: of_nat_add)
  moreover have "ucast (word_of_nat k :: u8) = (word_of_nat k :: u64)"
    using ku by (metis of_nat_unat)
  ultimately show ?thesis by simp
qed

lemma short_byte: "l < 128 \<Longrightarrow> (word_of_nat l :: u8) AND 0x80 = 0 \<and> (ucast (word_of_nat l :: u8) :: u64) = word_of_nat l"
proof -
  assume l: "l < 128"
  then have u: "unat (word_of_nat l :: u8) = l" by (intro unat_word_of_nat) simp
  then show ?thesis using l by (simp add: high_bit(1) word_less_nat_alt) (metis of_nat_unat)
qed

lemma hlen_eq: "cbs = hdr @ rest \<Longrightarrow> CBS_len cbs - CBS_len rest = word_of_nat (length hdr)"
  by (simp add: CBS_len_def)

lemma make_element_ok:
  assumes "length (x @ rest) < 2 ^ 64" "n = word_of_nat (length x)"
  shows "make_element (x @ rest) n tg h f = (Some \<lparr>element = x, elem_tag = tg, header_len = h, ber_found = f\<rparr>, rest)"
  using assms by (simp add: make_element_def CBS_get_bytes_eq unat_word_of_nat)

lemma get_element_encode:
  assumes "length (der tg body @ rest) < 2 ^ 64" "length body < 2 ^ 32"
  shows "cbs_get_any_asn1_element (der tg body @ rest) ber_ok =
    (Some \<lparr>element = der tg body, elem_tag = tg, header_len = word_of_nat (length (der tg body) - length body), ber_found = False\<rparr>, rest)"
proof -
  let ?cbs = "der tg body @ rest" and ?l = "length body"
  have tag: "parse_asn1_tag ?cbs = (Some tg, der_len ?l @ body @ rest)"
    using parse_tag_encode [of tg "der_len ?l @ body @ rest"] assms(1) by (simp add: der_def)
  have tot: "length (der_tag tg) + length (der_len ?l) + ?l < 2 ^ 64" using assms(1) by (simp add: der_def)
  have hl: "word_of_nat (length (der tg body) - ?l) = (word_of_nat (length (der_tag tg) + length (der_len ?l)) :: u64)"
    by (simp add: der_def)
  show ?thesis
  proof (cases "?l < 128")
    case True
    let ?b = "word_of_nat ?l :: u8"
    have dl: "der_len ?l = [?b]" using True by (simp add: der_len_def)
    have u8: "CBS_get_u8 (?b # body @ rest) = (Some ?b, body @ rest)" using assms(1) dl by (simp add: der_def)
    let ?H = "CBS_len ?cbs - CBS_len (body @ rest)"
    have h: "?H = word_of_nat (length (der tg body) - ?l)"
      using hlen_eq [of ?cbs "der_tag tg @ [?b]" "body @ rest"] dl by (simp add: der_def)
    have n: "ucast ?b + ?H = (word_of_nat (length (der tg body)) :: u64)"
      unfolding h using short_byte [OF True] by (simp add: der_def)
    have "cbs_get_any_asn1_element ?cbs ber_ok = make_element ?cbs (ucast ?b + ?H) tg ?H False"
      using short_byte [OF True] by (simp add: cbs_get_any_asn1_element_def tag dl u8 Let_def)
    then show ?thesis
      using make_element_ok [OF assms(1) n] h by simp
  next
    case False
    define k where "k = octets ?l"
    let ?b = "word_of_nat (128 + k) :: u8"
    have k: "1 \<le> k" "k \<le> 4" using octets_range by (simp_all add: k_def)
    have dl: "der_len ?l = ?b # be_bytes k ?l" using False by (simp add: der_len_def k_def)
    have u8: "CBS_get_u8 (?b # be_bytes k ?l @ body @ rest) = (Some ?b, be_bytes k ?l @ body @ rest)"
      using assms(1) dl by (simp add: der_def)
    have uk: "unat (word_of_nat k :: u64) = k" using k by (simp add: unat_word_of_nat)
    have getu: "cbs_get_u (be_bytes k ?l @ body @ rest) (word_of_nat k) = (Some (word_of_nat ?l), body @ rest)"
      using cbs_get_u_eq [of "be_bytes k ?l @ body @ rest" "word_of_nat k"] uk k assms dl octets_bound [OF assms(2)]
      by (simp add: der_def be_value_bytes k_def)
    have h: "CBS_len ?cbs - CBS_len (be_bytes k ?l @ body @ rest) = (word_of_nat (length (der_tag tg) + 1) :: u64)"
      using hlen_eq [of ?cbs "der_tag tg @ [?b]" "be_bytes k ?l @ body @ rest"] dl by (simp add: der_def)
    have ul: "unat (word_of_nat ?l :: u64) = ?l" using assms(2) by (simp add: unat_word_of_nat)
    have min: "\<not> (word_of_nat ?l < (128 :: u64))" using False ul by (simp add: word_less_nat_alt)
    have "unat (drop_bit (unat ((word_of_nat k - 1) * 8 :: u64)) (word_of_nat ?l :: u64)) = ?l div 2 ^ ((k - 1) * 8)"
    proof -
      have "unat ((word_of_nat k - 1) * 8 :: u64) = (k - 1) * 8"
        using k uk by (simp add: unat_mult_lem [THEN iffD1] unat_sub_if' unat_minus_one)
      moreover have "take_bit 64 ?l = ?l" using assms(2) by (simp add: take_bit_nat_eq_self)
      ultimately show ?thesis by (subst unsigned_drop_bit_eq) (simp add: ul drop_bit_eq_div)
    qed
    then have min2: "drop_bit (unat ((word_of_nat k - 1) * 8 :: u64)) (word_of_nat ?l :: u64) \<noteq> 0"
      using octets_minimal [of ?l] False by (metis k_def not_less unat_0)
    let ?H = "CBS_len ?cbs - CBS_len (be_bytes k ?l @ body @ rest)"
    have n: "word_of_nat ?l + ?H + word_of_nat k = (word_of_nat (length (der tg body)) :: u64)"
      unfolding h using dl by (simp add: der_def)
    have hk: "?H + word_of_nat k = word_of_nat (length (der tg body) - ?l)"
      unfolding h using dl by (simp add: der_def)
    have ov: "\<not> word_of_nat (length (der tg body)) < (word_of_nat ?l :: u64)"
      using tot ul by (simp add: word_less_nat_alt unat_word_of_nat der_def del: of_nat_add)
    have nb: "(word_of_nat k :: u64) \<noteq> 0" "\<not> 4 < (word_of_nat k :: u64)"
      using uk k by (auto simp: word_less_nat_alt)
    have "cbs_get_any_asn1_element ?cbs ber_ok = make_element ?cbs (word_of_nat ?l + ?H + word_of_nat k) tg (?H + word_of_nat k) False"
      using long_byte [OF k] nb min min2 n ov
      by (simp add: cbs_get_any_asn1_element_def tag dl u8 getu Let_def del: of_nat_add)
    then show ?thesis
      using make_element_ok [OF assms(1) n] hk by simp
  qed
qed

lemma make_element_SomeD:
  assumes "make_element cbs n tg h f = (Some e, rest)" "length cbs < 2 ^ 64"
  shows "unat n \<le> length cbs" "e = \<lparr>element = take (unat n) cbs, elem_tag = tg, header_len = h, ber_found = f\<rparr>" "rest = drop (unat n) cbs"
  using assms by (auto simp: make_element_def CBS_get_bytes_eq split: if_splits)

lemma take_header: "take (length hdr + n) (hdr @ body @ rest) = hdr @ body" if "n = length body" for hdr :: bytes
  using that by simp

lemma get_element_decode:
  assumes len: "length cbs < 2 ^ 63" and "cbs_get_any_asn1_element cbs False = (Some e, rest)"
  shows "\<exists>body. cbs = der (elem_tag e) body @ rest \<and> element e = der (elem_tag e) body \<and> length body < 2 ^ 32 \<and>
    header_len e = word_of_nat (length (der (elem_tag e) body) - length body)"
proof -
  have assms1: "length cbs < 2 ^ 64" using len by simp
  from assms(2) obtain tg h1 where tag: "parse_asn1_tag cbs = (Some tg, h1)"
    by (auto simp: cbs_get_any_asn1_element_def split: prod.splits option.splits)
  have cbs: "cbs = der_tag tg @ h1" by (rule parse_tag_decode [OF assms1 tag])
  from assms(2) tag obtain lb h2 where h1: "h1 = lb # h2"
    by (cases h1) (auto simp: cbs_get_any_asn1_element_def)
  have u8: "CBS_get_u8 h1 = (Some lb, h2)" using assms1 by (simp add: cbs h1)
  let ?t = "length (der_tag tg) + 1"
  have H: "CBS_len cbs - CBS_len h2 = word_of_nat ?t"
    using hlen_eq [of cbs "der_tag tg @ [lb]" h2] by (simp add: cbs h1)
  have dl: "?t + length h2 = length cbs" by (simp add: cbs h1)
  show ?thesis
  proof (cases "lb AND 0x80 = 0")
    case True
    have lb: "unat lb < 128" using True by (simp add: high_bit(1) word_less_nat_alt)
    have me: "make_element cbs (ucast lb + (CBS_len cbs - CBS_len h2)) tg (CBS_len cbs - CBS_len h2) False = (Some e, rest)"
      using assms(2) True by (simp add: cbs_get_any_asn1_element_def tag u8 Let_def)
    have "ucast lb + (CBS_len cbs - CBS_len h2) = (word_of_nat (?t + unat lb) :: u64)"
      by (simp add: H)
    moreover have "?t + unat lb < 2 ^ LENGTH(64)" using lb dl len by simp
    ultimately have n: "unat (ucast lb + (CBS_len cbs - CBS_len h2) :: u64) = ?t + unat lb"
      using unat_word_of_nat [where 'a = 64] by metis
    note d = make_element_SomeD [OF me assms1, unfolded n]
    define body where "body = take (unat lb) h2"
    have "length body = unat lb" using d(1) dl by (simp add: body_def)
    then have "der_len (length body) = [lb]" using lb by (simp add: der_len_def)
    then have "der tg body = der_tag tg @ lb # body" by (simp add: der_def)
    moreover have "take (?t + unat lb) cbs = der_tag tg @ lb # body" "drop (?t + unat lb) cbs = drop (unat lb) h2"
      by (simp_all add: cbs h1 body_def)
    moreover have "cbs = (der_tag tg @ lb # body) @ drop (unat lb) h2" by (simp add: cbs h1 body_def)
    ultimately show ?thesis
      using d(2,3) H \<open>length body = unat lb\<close> lb by (intro exI [of _ body]) simp
  next
    case False
    define k where "k = unat lb mod 128"
    have lbk: "unat lb = 128 + k" unfolding k_def using False unat_lt_u8 [of lb] by (intro high_half) (simp_all add: high_bit(1) word_less_nat_alt)
    have nk: "ucast (lb AND 0x7F) = (word_of_nat k :: u64)"
      using high_bit(2) [of lb] low_group(1) [of "unat lb"] by (metis k_def of_nat_unat)
    have k128: "k < 128" by (simp add: k_def)
    then have uk: "unat (word_of_nat k :: u64) = k" by (simp add: unat_word_of_nat)
    have k: "1 \<le> k" "k \<le> 4"
    proof -
      have "\<not> ((word_of_nat k :: u64) = 0 \<or> 4 < (word_of_nat k :: u64))"
        using assms(2) False by (auto simp: cbs_get_any_asn1_element_def tag u8 Let_def nk)
      then have "(word_of_nat k :: u64) \<noteq> 0" "\<not> 4 < (word_of_nat k :: u64)" by simp_all
      then show "1 \<le> k" "k \<le> 4" using uk by (cases k, auto simp: word_less_nat_alt)
    qed
    have kh: "k \<le> length h2"
    proof (rule ccontr)
      assume "\<not> k \<le> length h2"
      then have "cbs_get_u h2 (word_of_nat k) = (None, h2)"
        using cbs_get_u_eq [of h2 "word_of_nat k"] uk k len dl by simp
      with assms(2) False show False by (auto simp: cbs_get_any_asn1_element_def tag u8 Let_def nk split: if_splits)
    qed
    define l where "l = be_value (take k h2)"
    have l256: "l < 256 ^ k" using be_value_bound [of "take k h2"] kh by (simp add: l_def)
    also have "\<dots> \<le> 256 ^ 4" using k by (intro power_increasing) auto
    finally have l32: "l < 2 ^ 32" by simp
    then have ul: "unat (word_of_nat l :: u64) = l" by (simp add: unat_word_of_nat)
    have getu: "cbs_get_u h2 (word_of_nat k) = (Some (word_of_nat l), drop k h2)"
      using cbs_get_u_eq [of h2 "word_of_nat k"] uk k kh len dl by (simp add: l_def)
    let ?H = "CBS_len cbs - CBS_len h2"
    have sh: "unat ((word_of_nat k - 1) * 8 :: u64) = (k - 1) * 8"
      using k uk by (simp add: unat_mult_lem [THEN iffD1] unat_sub_if' unat_minus_one)
    have "take_bit 64 l = l" using l32 by (simp add: take_bit_nat_eq_self)
    then have dd: "unat (drop_bit (unat ((word_of_nat k - 1) * 8 :: u64)) (word_of_nat l :: u64)) = l div 2 ^ ((k - 1) * 8)"
      unfolding sh by (subst unsigned_drop_bit_eq) (simp add: ul drop_bit_eq_div)
    have nb: "(word_of_nat k :: u64) \<noteq> 0" "\<not> 4 < (word_of_nat k :: u64)"
      using uk k by (auto simp: word_less_nat_alt)
    have minimal: "\<not> (word_of_nat l < (128 :: u64) \<or> drop_bit (unat ((word_of_nat k - 1) * 8 :: u64)) (word_of_nat l :: u64) = 0)"
      and me: "make_element cbs (word_of_nat l + ?H + word_of_nat k) tg (?H + word_of_nat k) False = (Some e, rest)"
      using assms(2) False nb by (auto simp: cbs_get_any_asn1_element_def tag u8 Let_def nk getu split: if_splits)
    have "drop_bit (unat ((word_of_nat k - 1) * 8 :: u64)) (word_of_nat l :: u64) \<noteq> 0" using minimal by blast
    then have "l div 2 ^ ((k - 1) * 8) \<noteq> 0" unfolding dd [symmetric] by (simp only: unat_eq_zero) simp
    then have "octets l = k" by (rule octets_unique [OF l256 k])
    have l128: "\<not> l < 128" using minimal ul by (simp add: word_less_nat_alt)
    have "word_of_nat (128 + k) = lb" using lbk by (metis of_nat_unat ucast_id)
    then have dlen: "der_len l = lb # take k h2"
      using l128 \<open>octets l = k\<close> be_bytes_value [of "take k h2"] kh by (simp add: der_len_def l_def)
    have "word_of_nat l + ?H + word_of_nat k = (word_of_nat (?t + k + l) :: u64)" by (simp add: H)
    moreover have "?t + k + l < 2 ^ LENGTH(64)" using k dl len l32 by simp
    ultimately have n: "unat (word_of_nat l + ?H + word_of_nat k :: u64) = ?t + k + l"
      using unat_word_of_nat [where 'a = 64] by metis
    note d = make_element_SomeD [OF me assms1, unfolded n]
    define body where "body = take l (drop k h2)"
    have lb: "length body = l" using d(1) dl by (simp add: body_def)
    have dr: "der tg body = der_tag tg @ lb # take k h2 @ body" by (simp add: der_def lb dlen)
    have tk: "take (?t + k + l) cbs = der tg body" "drop (?t + k + l) cbs = drop l (drop k h2)"
      unfolding dr using kh by (simp_all add: cbs h1 body_def take_add add.assoc add.commute)
    moreover have "cbs = der tg body @ drop l (drop k h2)"
      using append_take_drop_id [of "?t + k + l" cbs] unfolding tk by (rule sym)
    moreover have "?H + word_of_nat k = word_of_nat (length (der tg body) - length body)"
      using kh by (simp add: H dr)
    ultimately show ?thesis
      using d(2,3) l32 lb by (intro exI [of _ body]) simp
  qed
qed

section \<open>The readers as codes\<close>

text \<open>The element reader as a pair of tag and contents.\<close>

definition der_ok :: "u32 \<times> bytes \<Rightarrow> bool" where
  "der_ok e \<longleftrightarrow> length (snd e) < 2 ^ 32"

definition der_read :: "bytes \<Rightarrow> (u32 \<times> bytes) option \<times> bytes" where
  "der_read cbs = (case CBS_get_any_asn1 cbs of (None, c) \<Rightarrow> (None, c) | (Some (out, tg), c) \<Rightarrow> (Some (tg, out), c))"

interpretation base128_code: canonical_code "\<lambda>n :: u64. True" "\<lambda>n. base128 (unat n)" parse_base128_integer
proof unfold_locales
  show "parse_base128_integer (base128 (unat x) @ rest) = (Some x, rest)" for x rest
    using parse_base128_encode [OF unat_lt_u64, of x rest] by simp
  show "True \<and> bs = base128 (unat x) @ rest" if "parse_base128_integer bs = (Some x, rest)" for bs x rest
    using parse_base128_decode [OF that] by simp
qed

interpretation tag_code: canonical_code "\<lambda>tg. True" der_tag parse_asn1_tag
proof unfold_locales
  show "parse_asn1_tag (der_tag x @ rest) = (Some x, rest)" if "length (der_tag x @ rest) < 2 ^ 63" for x rest
    using that by (intro parse_tag_encode) simp
  show "True \<and> bs = der_tag x @ rest" if "length bs < 2 ^ 63" "parse_asn1_tag bs = (Some x, rest)" for bs x rest
    using parse_tag_decode [OF _ that(2)] that(1) by simp
qed

lemma CBS_get_any_asn1_encode:
  assumes "length (der tg body @ rest) < 2 ^ 63" "length body < 2 ^ 32"
  shows "CBS_get_any_asn1 (der tg body @ rest) = (Some (body, tg), rest)"
proof -
  define h where "h = length (der tg body) - length body"
  have "h \<le> length (der tg body)" "length (der tg body) < 2 ^ 64" "drop h (der tg body) = body"
    using assms(1) by (simp_all add: h_def der_def)
  moreover have "unat (word_of_nat h :: u64) = h" using calculation by (intro unat_word_of_nat) simp
  ultimately show ?thesis
    using get_element_encode [of tg body rest False] assms
    by (simp add: CBS_get_any_asn1_def CBS_get_any_asn1_element_def CBS_skip_eq h_def [symmetric])
qed

interpretation der_code: canonical_code der_ok "\<lambda>(tg, body). der tg body" der_read
proof unfold_locales
  show "der_read ((case x of (tg, body) \<Rightarrow> der tg body) @ rest) = (Some x, rest)"
    if "der_ok x" "length ((case x of (tg, body) \<Rightarrow> der tg body) @ rest) < 2 ^ 63" for x rest
    using that CBS_get_any_asn1_encode by (cases x) (simp add: der_read_def der_ok_def)
  show "der_ok x \<and> bs = (case x of (tg, body) \<Rightarrow> der tg body) @ rest"
    if len: "length bs < 2 ^ 63" and d: "der_read bs = (Some x, rest)" for bs x rest
  proof -
    from d obtain e where e: "cbs_get_any_asn1_element bs False = (Some e, rest)"
      by (auto simp: der_read_def CBS_get_any_asn1_def CBS_get_any_asn1_element_def rbind_def split: prod.splits option.splits)
    from get_element_decode [OF len e] obtain body where b: "bs = der (elem_tag e) body @ rest" "length body < 2 ^ 32" by blast
    from CBS_get_any_asn1_encode [of "elem_tag e" body rest] b len d show ?thesis
      by (auto simp: der_read_def der_ok_def)
  qed
qed

lemma memcmp_zero: "length as = length bs \<Longrightarrow> CRYPTO_memcmp as bs x = 0 \<longleftrightarrow> x = 0 \<and> as = bs"
proof (induction as bs x rule: CRYPTO_memcmp.induct)
  case (1 a as b bs x)
  have "x OR (a XOR b) = 0 \<longleftrightarrow> x = 0 \<and> a = b" by (metis or_eq_0_iff word_bw_same(3) xor.right_neutral xor.assoc xor_self_eq xor.left_neutral)
  with 1 show ?case by auto
qed auto

section \<open>Properties\<close>

text \<open>
  C4: the DER reader accepts exactly DER. \<open>CBS_get_any_asn1\<close> succeeds on a string if and only if it starts with
  the canonical encoding of a tag and a length below \<open>2 ^ 32\<close> and holds that many bytes of contents; then it
  returns the tag, the contents and the rest. Every non-minimal tag or length is rejected.
\<close>

theorem CBS_get_any_asn1_accepts_DER:
  assumes "length cbs < 2 ^ 63"
  shows "CBS_get_any_asn1 cbs = (Some (body, tg), rest) \<longleftrightarrow> length body < 2 ^ 32 \<and> cbs = der tg body @ rest"
proof -
  have "CBS_get_any_asn1 cbs = (Some (body, tg), rest) \<longleftrightarrow> der_read cbs = (Some (tg, body), rest)"
    by (auto simp: der_read_def split: prod.splits option.splits)
  also have "\<dots> \<longleftrightarrow> length body < 2 ^ 32 \<and> cbs = der tg body @ rest"
    using der_code.accepts_iff [OF assms, of "(tg, body)" rest] by (simp add: der_ok_def)
  finally show ?thesis .
qed

theorem CBS_get_any_asn1_accepts_DER_witness:
  "CBS_get_any_asn1 [0x30, 2, 5, 0, 7] = (Some ([5, 0], 0x20000010), [7]) \<longleftrightarrow>
     length [5, 0 :: u8] < 2 ^ 32 \<and> [0x30, 2, 5, 0, 7] = der 0x20000010 [5, 0] @ [7]"
  by (rule CBS_get_any_asn1_accepts_DER) simp



text \<open>
  C18: base-128 integers. \<open>parse_base128_integer\<close> accepts exactly the minimal encodings of 64-bit values, returns
  the value and stops behind it.
\<close>

theorem parse_base128_accepts_minimal:
  "length cbs < 2 ^ 63 \<Longrightarrow> parse_base128_integer cbs = (Some v, rest) \<longleftrightarrow> cbs = base128 (unat v) @ rest"
  using base128_code.accepts_iff [of cbs v rest] by simp

theorem parse_base128_accepts_minimal_witness:
  "parse_base128_integer [0x86, 0xF7, 0x0D, 1] = (Some 113549, [1]) \<longleftrightarrow> [0x86, 0xF7, 0x0D, 1] = base128 (unat (113549 :: u64)) @ [1]"
  by (rule parse_base128_accepts_minimal) simp

text \<open>
  C30: \<open>CBS_mem_equal\<close>, which compares in constant time, decides equality of byte strings.
\<close>

theorem CBS_mem_equal_correct: "CBS_mem_equal cbs data \<longleftrightarrow> cbs = data"
  using memcmp_zero [of cbs data 0] by (auto simp: CBS_mem_equal_def)

end
