(* ===== verification/Bytestring_CBB.thy ===== *)
theory Bytestring_CBB
  imports Bytestring_CBS
begin

text \<open>
  \<^verbatim>\<open>crypto/bytestring/cbb.c\<close>: the CBB builder, with the i2d helper of \<^verbatim>\<open>asn1_compat.c\<close>. All CBBs of one build
  share the buffer \<open>base\<close>; a CBB has at most one open child, so the CBBs form a chain. The model keeps
  the chain in the top-level value: \<open>children\<close> lists the open children from the outermost to the
  innermost, and an operation on a CBB takes its depth in the chain (0 for the top-level one). A handle
  deeper than the chain is a child that has been flushed, whose \<open>base\<close> pointer is null.

  An operation returns a truth value, zero or one in C, and the state. Allocation may fail:
  \<open>grants n\<close> tells whether the allocator grants \<open>n\<close> bytes.
\<close>

section \<open>Buffers\<close>

record cbb_buffer =
  buf :: bytes \<comment> \<open>the allocation: \<open>cap\<close> bytes, of which \<open>len\<close> are valid\<close>
  len :: u64
  cap :: u64
  can_resize :: bool
  error :: bool
  grants :: "u64 \<Rightarrow> bool"

record pending =
  offset :: u64
  pending_len_len :: u8
  pending_is_asn1 :: bool

record CBB =
  base :: "cbb_buffer option"
  children :: "pending list"

text \<open>\<open>f && g\<close> on calls that change the state.\<close>

definition both :: "(CBB \<Rightarrow> bool \<times> CBB) \<Rightarrow> (CBB \<Rightarrow> bool \<times> CBB) \<Rightarrow> CBB \<Rightarrow> bool \<times> CBB" where
  "both f g cbb = (case f cbb of (ok, cbb') \<Rightarrow> if ok then g cbb' else (False, cbb'))"

definition CBB_zero :: CBB where
  "CBB_zero = \<lparr>base = None, children = []\<rparr>"

text \<open>The \<open>cbb_buffer_st\<close> itself has 40 bytes.\<close>

definition cbb_init :: "(u64 \<Rightarrow> bool) \<Rightarrow> bytes \<Rightarrow> u64 \<Rightarrow> bool \<times> CBB" where
  "cbb_init alloc data capacity =
     (if \<not> alloc 40 then (False, CBB_zero)
      else (True, \<lparr>base = Some \<lparr>buf = data, len = 0, cap = capacity, can_resize = True, error = False, grants = alloc\<rparr>,
                   children = []\<rparr>))"

text \<open>Fresh memory has unspecified content; the model has zeros there.\<close>

definition CBB_init :: "(u64 \<Rightarrow> bool) \<Rightarrow> u64 \<Rightarrow> bool \<times> CBB" where
  "CBB_init alloc initial_capacity =
     (if 0 < initial_capacity \<and> \<not> alloc initial_capacity then (False, CBB_zero)
      else cbb_init alloc (replicate (unat initial_capacity) 0) initial_capacity)"

definition CBB_init_fixed :: "(u64 \<Rightarrow> bool) \<Rightarrow> bytes \<Rightarrow> u64 \<Rightarrow> bool \<times> CBB" where
  "CBB_init_fixed alloc data n =
     (case cbb_init alloc data n of
        (False, cbb) \<Rightarrow> (False, cbb)
      | (True, cbb) \<Rightarrow> (True, cbb\<lparr>base := map_option (\<lambda>b. b\<lparr>can_resize := False\<rparr>) (base cbb)\<rparr>))"

definition CBB_cleanup :: "CBB \<Rightarrow> CBB" where
  "CBB_cleanup cbb = cbb\<lparr>base := None\<rparr>"

definition cbb_buffer_reserve :: "cbb_buffer \<Rightarrow> u64 \<Rightarrow> bool \<times> cbb_buffer" where
  "cbb_buffer_reserve b n =
     (let newlen = len b + n; err = (False, b\<lparr>error := True\<rparr>) in
      if newlen < len b then err
      else if cap b < newlen then
        if \<not> can_resize b then err
        else
          let newcap0 = cap b * 2; newcap = (if newcap0 < cap b \<or> newcap0 < newlen then newlen else newcap0) in
          if \<not> grants b newcap then err
          else (True, b\<lparr>buf := buf b @ replicate (unat newcap - unat (cap b)) 0, cap := newcap\<rparr>)
      else (True, b))"

definition cbb_buffer_add :: "cbb_buffer \<Rightarrow> u64 \<Rightarrow> bool \<times> cbb_buffer" where
  "cbb_buffer_add b n =
     (case cbb_buffer_reserve b n of
        (False, b') \<Rightarrow> (False, b')
      | (True, b') \<Rightarrow> (True, b'\<lparr>len := len b' + n\<rparr>))"

text \<open>\<^verbatim>\<open>for (i = n - 1; i < n; i--) { p[i] = v; v >>= 8; }\<close>: the bytes written and what is left of \<open>v\<close>.\<close>

fun write_be :: "bytes \<Rightarrow> nat \<Rightarrow> nat \<Rightarrow> u64 \<Rightarrow> bytes \<times> u64" where
  "write_be dst p 0 v = (dst, v)"
| "write_be dst p (Suc n) v = write_be (dst[p + n := ucast v]) p n (drop_bit 8 v)"

definition cbb_buffer_add_u :: "cbb_buffer \<Rightarrow> u64 \<Rightarrow> nat \<Rightarrow> bool \<times> cbb_buffer" where
  "cbb_buffer_add_u b v len_len =
     (if len_len = 0 then (True, b)
      else case cbb_buffer_add b (word_of_nat len_len) of
        (False, b') \<Rightarrow> (False, b')
      | (True, b') \<Rightarrow>
          (let (dst, v') = write_be (buf b') (unat (len b)) len_len v; b'' = b'\<lparr>buf := dst\<rparr>
           in if v' \<noteq> 0 then (False, b''\<lparr>error := True\<rparr>) else (True, b'')))"

section \<open>Flushing\<close>

text \<open>The length of the length of an ASN.1 element, its first octet, and the value left to write.\<close>

definition asn1_length_form :: "u64 \<Rightarrow> (u8 \<times> u8 \<times> u64) option" where
  "asn1_length_form l =
     (if 0xFFFFFFFE < l then None
      else if 0xFFFFFF < l then Some (5, 0x80 OR 4, l)
      else if 0xFFFF < l then Some (4, 0x80 OR 3, l)
      else if 0xFF < l then Some (3, 0x80 OR 2, l)
      else if 0x7F < l then Some (2, 0x80 OR 1, l)
      else Some (1, ucast l, 0))"

text \<open>The last part of \<open>CBB_flush\<close>: \<open>n\<close> length octets at \<open>off\<close>.\<close>

definition write_length :: "cbb_buffer \<Rightarrow> u64 \<Rightarrow> u8 \<Rightarrow> u64 \<Rightarrow> bool \<times> cbb_buffer" where
  "write_length b off n l =
     (let (dst, l') = write_be (buf b) (unat off) (unat n) l; b' = b\<lparr>buf := dst\<rparr>
      in if l' \<noteq> 0 then (False, b'\<lparr>error := True\<rparr>) else (True, b'))"

text \<open>The ASN.1 branch: make room for a longer length, write its first octet.\<close>

definition flush_asn1 :: "cbb_buffer \<Rightarrow> u64 \<Rightarrow> u64 \<Rightarrow> u64 \<Rightarrow> bool \<times> cbb_buffer" where
  "flush_asn1 b off child_start l =
     (case asn1_length_form l of
        None \<Rightarrow> (False, b\<lparr>error := True\<rparr>)
      | Some (len_len, initial, l') \<Rightarrow>
          let extra = ucast (len_len - 1) :: u64 in
          case (if len_len \<noteq> 1 then cbb_buffer_add b extra else (True, b)) of
            (False, b1) \<Rightarrow> (False, b1\<lparr>error := True\<rparr>)
          | (True, b1) \<Rightarrow>
              let moved = (if len_len \<noteq> 1
                           then memcpy_at (buf b1) (unat (child_start + extra)) (take (unat l) (drop (unat child_start) (buf b1)))
                           else buf b1);
                  b2 = b1\<lparr>buf := moved[unat off := initial]\<rparr>
              in write_length b2 (off + 1) (len_len - 1) l')"

text \<open>\<open>CBB_flush\<close> of a CBB whose open descendants are the list; it returns those still open.\<close>

fun flush_chain :: "cbb_buffer \<Rightarrow> pending list \<Rightarrow> bool \<times> cbb_buffer \<times> pending list" where
  "flush_chain b [] = (\<not> error b, b, [])"
| "flush_chain b (c # cs) =
     (if error b then (False, b, c # cs)
      else if pending_len_len c = 0 then (True, b, c # cs)
      else
        let child_start = offset c + ucast (pending_len_len c) in
        case flush_chain b cs of
          (ok, b1, cs1) \<Rightarrow>
            if \<not> ok \<or> child_start < offset c \<or> len b1 < child_start then (False, b1\<lparr>error := True\<rparr>, c # cs1)
            else
              let l = len b1 - child_start in
              case (if pending_is_asn1 c then flush_asn1 b1 (offset c) child_start l
                    else write_length b1 (offset c) (pending_len_len c) l) of
                (False, b2) \<Rightarrow> (False, b2, c # cs1)
              | (True, b2) \<Rightarrow> (True, b2, []))"

definition CBB_flush :: "nat \<Rightarrow> CBB \<Rightarrow> bool \<times> CBB" where
  "CBB_flush d cbb =
     (case base cbb of
        None \<Rightarrow> (False, cbb)
      | Some b \<Rightarrow>
          if length (children cbb) < d then (False, cbb)
          else case flush_chain b (drop d (children cbb)) of
                 (ok, b', cs) \<Rightarrow> (ok, cbb\<lparr>base := Some b', children := take d (children cbb) @ cs\<rparr>))"

text \<open>A step on the buffer after a flush.\<close>

definition on_base :: "(cbb_buffer \<Rightarrow> bool \<times> cbb_buffer) \<Rightarrow> CBB \<Rightarrow> bool \<times> CBB" where
  "on_base f cbb = (case base cbb of None \<Rightarrow> (False, cbb) | Some b \<Rightarrow> (case f b of (ok, b') \<Rightarrow> (ok, cbb\<lparr>base := Some b'\<rparr>)))"

text \<open>\<open>out_given\<close>: both out pointers are non-null. The buffer is handed over and the CBB cleaned up.\<close>

definition CBB_finish :: "nat \<Rightarrow> bool \<Rightarrow> CBB \<Rightarrow> bytes option \<times> CBB" where
  "CBB_finish d out_given cbb =
     (if 0 < d then (None, cbb)
      else case CBB_flush 0 cbb of
        (False, cbb') \<Rightarrow> (None, cbb')
      | (True, cbb') \<Rightarrow>
          (case base cbb' of
             None \<Rightarrow> (None, cbb')
           | Some b \<Rightarrow>
               if can_resize b \<and> \<not> out_given then (None, cbb')
               else (Some (take (unat (len b)) (buf b)), CBB_cleanup cbb')))"

text \<open>Where the content of the CBB at depth \<open>d\<close> starts.\<close>

definition content_start :: "nat \<Rightarrow> CBB \<Rightarrow> u64" where
  "content_start d cbb =
     (if d = 0 then 0 else let c = children cbb ! (d - 1) in offset c + ucast (pending_len_len c))"

definition CBB_len :: "nat \<Rightarrow> CBB \<Rightarrow> u64" where
  "CBB_len d cbb = (case base cbb of None \<Rightarrow> 0 | Some b \<Rightarrow> len b - content_start d cbb)"

definition CBB_data :: "nat \<Rightarrow> CBB \<Rightarrow> bytes" where
  "CBB_data d cbb =
     (case base cbb of None \<Rightarrow> [] | Some b \<Rightarrow> take (unat (CBB_len d cbb)) (drop (unat (content_start d cbb)) (buf b)))"

section \<open>Adding\<close>

text \<open>Open a child of the CBB at depth \<open>d\<close> (which has been flushed).\<close>

definition open_child :: "nat \<Rightarrow> pending \<Rightarrow> CBB \<Rightarrow> CBB" where
  "open_child d p cbb = cbb\<lparr>children := take d (children cbb) @ [p]\<rparr>"

definition cbb_add_length_prefixed :: "nat \<Rightarrow> u8 \<Rightarrow> CBB \<Rightarrow> bool \<times> CBB" where
  "cbb_add_length_prefixed d len_len =
     both (CBB_flush d)
       (\<lambda>cbb. case base cbb of
          None \<Rightarrow> (False, cbb)
        | Some b \<Rightarrow>
            (case cbb_buffer_add b (ucast len_len) of
               (False, b') \<Rightarrow> (False, cbb\<lparr>base := Some b'\<rparr>)
             | (True, b') \<Rightarrow>
                 (True, open_child d \<lparr>offset = len b, pending_len_len = len_len, pending_is_asn1 = False\<rparr>
                          (cbb\<lparr>base := Some (b'\<lparr>buf := memcpy_at (buf b') (unat (len b)) (replicate (unat len_len) 0)\<rparr>)\<rparr>))))"

definition CBB_add_u8_length_prefixed :: "nat \<Rightarrow> CBB \<Rightarrow> bool \<times> CBB" where
  "CBB_add_u8_length_prefixed d = cbb_add_length_prefixed d 1"

definition CBB_add_u16_length_prefixed :: "nat \<Rightarrow> CBB \<Rightarrow> bool \<times> CBB" where
  "CBB_add_u16_length_prefixed d = cbb_add_length_prefixed d 2"

definition CBB_add_u24_length_prefixed :: "nat \<Rightarrow> CBB \<Rightarrow> bool \<times> CBB" where
  "CBB_add_u24_length_prefixed d = cbb_add_length_prefixed d 3"

text \<open>A write of known bytes: the common part of \<open>CBB_add_bytes\<close>, \<open>CBB_add_zeros\<close> and a filled \<open>CBB_add_space\<close>.\<close>

definition buffer_append :: "bytes \<Rightarrow> cbb_buffer \<Rightarrow> bool \<times> cbb_buffer" where
  "buffer_append data b =
     (case cbb_buffer_add b (word_of_nat (length data)) of
        (False, b') \<Rightarrow> (False, b')
      | (True, b') \<Rightarrow> (True, b'\<lparr>buf := memcpy_at (buf b') (unat (len b)) data\<rparr>))"

definition CBB_add_bytes :: "nat \<Rightarrow> bytes \<Rightarrow> CBB \<Rightarrow> bool \<times> CBB" where
  "CBB_add_bytes d data = both (CBB_flush d) (on_base (buffer_append data))"

definition CBB_add_space :: "nat \<Rightarrow> u64 \<Rightarrow> CBB \<Rightarrow> bool \<times> CBB" where
  "CBB_add_space d n = both (CBB_flush d) (on_base (\<lambda>b. cbb_buffer_add b n))"

definition CBB_add_zeros :: "nat \<Rightarrow> u64 \<Rightarrow> CBB \<Rightarrow> bool \<times> CBB" where
  "CBB_add_zeros d n = both (CBB_flush d) (on_base (buffer_append (replicate (unat n) 0)))"

definition CBB_reserve :: "nat \<Rightarrow> u64 \<Rightarrow> CBB \<Rightarrow> bool \<times> CBB" where
  "CBB_reserve d n = both (CBB_flush d) (on_base (\<lambda>b. cbb_buffer_reserve b n))"

definition CBB_did_write :: "nat \<Rightarrow> u64 \<Rightarrow> CBB \<Rightarrow> bool \<times> CBB" where
  "CBB_did_write d n cbb =
     (case base cbb of
        None \<Rightarrow> (False, cbb)
      | Some b \<Rightarrow>
          let newlen = len b + n in
          if d < length (children cbb) \<or> newlen < len b \<or> cap b < newlen then (False, cbb)
          else (True, cbb\<lparr>base := Some (b\<lparr>len := newlen\<rparr>)\<rparr>))"

definition CBB_add_u :: "nat \<Rightarrow> u64 \<Rightarrow> nat \<Rightarrow> CBB \<Rightarrow> bool \<times> CBB" where
  "CBB_add_u d v n = both (CBB_flush d) (on_base (\<lambda>b. cbb_buffer_add_u b v n))"

definition CBB_add_u8 :: "nat \<Rightarrow> u8 \<Rightarrow> CBB \<Rightarrow> bool \<times> CBB" where
  "CBB_add_u8 d v = CBB_add_u d (ucast v) 1"

definition CBB_add_u16 :: "nat \<Rightarrow> u16 \<Rightarrow> CBB \<Rightarrow> bool \<times> CBB" where
  "CBB_add_u16 d v = CBB_add_u d (ucast v) 2"

definition CBB_add_u16le :: "nat \<Rightarrow> u16 \<Rightarrow> CBB \<Rightarrow> bool \<times> CBB" where
  "CBB_add_u16le d v = CBB_add_u16 d (CRYPTO_bswap2 v)"

definition CBB_add_u24 :: "nat \<Rightarrow> u32 \<Rightarrow> CBB \<Rightarrow> bool \<times> CBB" where
  "CBB_add_u24 d v = CBB_add_u d (ucast v) 3"

definition CBB_add_u32 :: "nat \<Rightarrow> u32 \<Rightarrow> CBB \<Rightarrow> bool \<times> CBB" where
  "CBB_add_u32 d v = CBB_add_u d (ucast v) 4"

definition CBB_add_u32le :: "nat \<Rightarrow> u32 \<Rightarrow> CBB \<Rightarrow> bool \<times> CBB" where
  "CBB_add_u32le d v = CBB_add_u32 d (CRYPTO_bswap4 v)"

definition CBB_add_u64 :: "nat \<Rightarrow> u64 \<Rightarrow> CBB \<Rightarrow> bool \<times> CBB" where
  "CBB_add_u64 d v = CBB_add_u d v 8"

definition CBB_add_u64le :: "nat \<Rightarrow> u64 \<Rightarrow> CBB \<Rightarrow> bool \<times> CBB" where
  "CBB_add_u64le d v = CBB_add_u64 d (CRYPTO_bswap8 v)"

definition CBB_discard_child :: "nat \<Rightarrow> CBB \<Rightarrow> CBB" where
  "CBB_discard_child d cbb =
     (if length (children cbb) \<le> d then cbb
      else cbb\<lparr>base := map_option (\<lambda>b. b\<lparr>len := offset (children cbb ! d)\<rparr>) (base cbb), children := take d (children cbb)\<rparr>)"

section \<open>ASN.1\<close>

function base128_len :: "u64 \<Rightarrow> nat" where
  "base128_len v = (if 0 < v then Suc (base128_len (drop_bit 7 v)) else 0)"
  by pat_completeness auto
termination
  by (relation "measure unat") (auto simp: drop_bit_eq_div unat_div word_less_nat_alt)

declare base128_len.simps [simp del]

text \<open>\<^verbatim>\<open>for (i = len_len - 1; i < len_len; i--)\<close>: \<open>n\<close> octets are left.\<close>

fun base128_octets :: "nat \<Rightarrow> nat \<Rightarrow> u64 \<Rightarrow> CBB \<Rightarrow> bool \<times> CBB" where
  "base128_octets d 0 v cbb = (True, cbb)"
| "base128_octets d (Suc i) v cbb =
     both (CBB_add_u8 d (let byte = ucast (drop_bit (7 * i) v AND 0x7F) in if i \<noteq> 0 then byte OR 0x80 else byte))
       (base128_octets d i v) cbb"

definition add_base128_integer :: "nat \<Rightarrow> u64 \<Rightarrow> CBB \<Rightarrow> bool \<times> CBB" where
  "add_base128_integer d v =
     (let n = base128_len v; len_len = (if n = 0 then 1 else n) in base128_octets d len_len v)"

definition CBB_add_asn1 :: "nat \<Rightarrow> u32 \<Rightarrow> CBB \<Rightarrow> bool \<times> CBB" where
  "CBB_add_asn1 d tg =
     both (CBB_flush d)
       (let tag_bits = ucast (drop_bit CBS_ASN1_TAG_SHIFT tg AND 0xE0) :: u8; tag_number = tg AND CBS_ASN1_TAG_NUMBER_MASK in
        both (if 0x1F \<le> tag_number
              then both (CBB_add_u8 d (tag_bits OR 0x1F)) (add_base128_integer d (ucast tag_number))
              else CBB_add_u8 d (tag_bits OR ucast tag_number))
          (\<lambda>cbb. case base cbb of
             None \<Rightarrow> (False, cbb)
           | Some b \<Rightarrow>
               (case CBB_add_u8 d 0 cbb of
                  (False, cbb') \<Rightarrow> (False, cbb')
                | (True, cbb') \<Rightarrow>
                    (True, open_child d \<lparr>offset = len b, pending_len_len = 1, pending_is_asn1 = True\<rparr> cbb'))))"

text \<open>The loop of \<open>CBB_add_asn1_uint64\<close> over the octets, most significant first; \<open>c\<close> is the child's depth.\<close>

fun asn1_uint64_octets :: "nat \<Rightarrow> bool \<Rightarrow> bytes \<Rightarrow> CBB \<Rightarrow> bool \<times> CBB" where
  "asn1_uint64_octets c started [] cbb = (if \<not> started then CBB_add_u8 c 0 cbb else (True, cbb))"
| "asn1_uint64_octets c started (byte # bs) cbb =
     (if \<not> started \<and> byte = 0 then asn1_uint64_octets c False bs cbb
      else both (if \<not> started \<and> byte AND 0x80 \<noteq> 0 then CBB_add_u8 c 0 else (\<lambda>s. (True, s)))
             (both (CBB_add_u8 c byte) (asn1_uint64_octets c True bs)) cbb)"

definition octets_be :: "u64 \<Rightarrow> bytes" where
  "octets_be v = map (\<lambda>i. ucast (drop_bit (8 * (7 - i)) v AND 0xFF)) [0..<8]"

definition CBB_add_asn1_uint64 :: "nat \<Rightarrow> u64 \<Rightarrow> CBB \<Rightarrow> bool \<times> CBB" where
  "CBB_add_asn1_uint64 d v =
     both (CBB_add_asn1 d CBS_ASN1_INTEGER) (both (asn1_uint64_octets (Suc d) False (octets_be v)) (CBB_flush d))"

text \<open>The index of the first octet of a negative number that is not mere sign extension; \<open>u\<close> is little-endian.\<close>

fun int64_start :: "bytes \<Rightarrow> nat \<Rightarrow> nat" where
  "int64_start u 0 = 0"
| "int64_start u (Suc n) = (if u ! Suc n = 0xFF \<and> (u ! n) AND 0x80 \<noteq> 0 then int64_start u n else Suc n)"

fun add_octets :: "nat \<Rightarrow> bytes \<Rightarrow> CBB \<Rightarrow> bool \<times> CBB" where
  "add_octets c [] cbb = (True, cbb)"
| "add_octets c (b # bs) cbb = both (CBB_add_u8 c b) (add_octets c bs) cbb"

definition CBB_add_asn1_int64 :: "nat \<Rightarrow> 64 word \<Rightarrow> CBB \<Rightarrow> bool \<times> CBB" where
  "CBB_add_asn1_int64 d v =
     (if 0 \<le>s v then CBB_add_asn1_uint64 d v
      else
        let u = le_bytes 8 (unat v); start = int64_start u 7 in
        both (CBB_add_asn1 d CBS_ASN1_INTEGER) (both (add_octets (Suc d) (rev (take (Suc start) u))) (CBB_flush d)))"

definition CBB_add_asn1_octet_string :: "nat \<Rightarrow> bytes \<Rightarrow> CBB \<Rightarrow> bool \<times> CBB" where
  "CBB_add_asn1_octet_string d data =
     both (CBB_add_asn1 d CBS_ASN1_OCTETSTRING) (both (CBB_add_bytes (Suc d) data) (CBB_flush d))"

definition CBB_add_asn1_bool :: "nat \<Rightarrow> bool \<Rightarrow> CBB \<Rightarrow> bool \<times> CBB" where
  "CBB_add_asn1_bool d v =
     both (CBB_add_asn1 d CBS_ASN1_BOOLEAN) (both (CBB_add_u8 (Suc d) (if v then 0xFF else 0)) (CBB_flush d))"

end
