(* ===== verification/Bytestring_ASN1.thy ===== *)
theory Bytestring_ASN1
  imports Bytestring_CBB
begin

text \<open>
  The rest of \<^verbatim>\<open>crypto/bytestring\<close>: object identifiers as text, SET OF ordering, the i2d helper of
  \<^verbatim>\<open>asn1_compat.c\<close> and the BER conversion of \<^verbatim>\<open>ber.c\<close>. The BER walks take fuel; \<open>None\<close> means it ran out.
\<close>

section \<open>Object identifiers\<close>

text \<open>\<open>48\<close> is the digit zero, \<open>46\<close> the dot.\<close>

fun dotted_loop :: "u64 \<Rightarrow> bool \<Rightarrow> CBS \<Rightarrow> u64 cbs_res" where
  "dotted_loop out seen_digit [] = (if seen_digit then Some out else None, [])"
| "dotted_loop out seen_digit (u # cbs) =
     (if u = 46 \<and> 0 < length cbs then (if seen_digit then Some out else None, cbs)
      else if u < 48 \<or> 57 < u \<or> seen_digit \<and> out = 0 \<or> (- 1) div 10 < out \<or> - 1 - ucast (u - 48) < out * 10
      then (None, cbs)
      else dotted_loop (out * 10 + ucast (u - 48)) True cbs)"

definition parse_dotted_decimal :: "CBS \<Rightarrow> u64 cbs_res" where
  "parse_dotted_decimal cbs = dotted_loop 0 False cbs"

lemma dotted_loop_le: "length (snd (dotted_loop out seen cbs)) \<le> length cbs"
  by (induction out seen cbs rule: dotted_loop.induct) auto

lemma parse_dotted_less: "cbs \<noteq> [] \<Longrightarrow> length (snd (parse_dotted_decimal cbs)) < length cbs"
  by (cases cbs) (auto simp: parse_dotted_decimal_def intro: le_less_trans [OF dotted_loop_le])

lemma parse_dotted_lessD: "cbs \<noteq> [] \<Longrightarrow> parse_dotted_decimal cbs = (r, cbs') \<Longrightarrow> length cbs' < length cbs"
  using parse_dotted_less [of cbs] by simp

text \<open>The components after the first two.\<close>

function oid_rest :: "nat \<Rightarrow> CBS \<Rightarrow> CBB \<Rightarrow> bool \<times> CBB" where
  "oid_rest d cbs cbb =
     (if cbs = [] then (True, cbb)
      else case parse_dotted_decimal cbs of
        (None, _) \<Rightarrow> (False, cbb)
      | (Some a, cbs') \<Rightarrow> both (add_base128_integer d a) (oid_rest d cbs') cbb)"
  by pat_completeness auto
termination
  by (relation "measure (\<lambda>(d, cbs, cbb). length cbs)") (auto dest: parse_dotted_lessD [OF _ sym])

declare oid_rest.simps [simp del]

definition CBB_add_asn1_oid_from_text :: "nat \<Rightarrow> bytes \<Rightarrow> CBB \<Rightarrow> bool \<times> CBB" where
  "CBB_add_asn1_oid_from_text d text =
     both (CBB_flush d)
       (\<lambda>cbb. case parse_dotted_decimal text of
          (None, _) \<Rightarrow> (False, cbb)
        | (Some a, cbs) \<Rightarrow>
            (case parse_dotted_decimal cbs of
               (None, _) \<Rightarrow> (False, cbb)
             | (Some b, cbs') \<Rightarrow>
                 if 2 < a \<or> a < 2 \<and> 39 < b \<or> - 1 - 80 < b then (False, cbb)
                 else both (add_base128_integer d (40 * a + b)) (oid_rest d cbs') cbb))"

text \<open>\<open>"%" PRIu64\<close>\<close>

fun decimal :: "nat \<Rightarrow> bytes" where
  "decimal n = (if n < 10 then [word_of_nat (48 + n)] else decimal (n div 10) @ [word_of_nat (48 + n mod 10)])"

declare decimal.simps [simp del]

definition add_decimal :: "u64 \<Rightarrow> CBB \<Rightarrow> bool \<times> CBB" where
  "add_decimal v = CBB_add_bytes 0 (decimal (unat v))"

lemma base128_loop_le: "length (snd (base128_loop v cbs)) \<le> length cbs"
  by (induction v cbs rule: base128_loop.induct) (auto simp: Let_def)

lemma parse_base128_less: "cbs \<noteq> [] \<Longrightarrow> length (snd (parse_base128_integer cbs)) < length cbs"
  by (cases cbs) (auto simp: parse_base128_integer_def Let_def intro: le_less_trans [OF base128_loop_le])

lemma parse_base128_lessD: "cbs \<noteq> [] \<Longrightarrow> parse_base128_integer cbs = (r, cbs') \<Longrightarrow> length cbs' < length cbs"
  using parse_base128_less [of cbs] by simp

function oid_text_rest :: "CBS \<Rightarrow> CBB \<Rightarrow> bool \<times> CBB" where
  "oid_text_rest cbs cbb =
     (if cbs = [] then (True, cbb)
      else case parse_base128_integer cbs of
        (None, _) \<Rightarrow> (False, cbb)
      | (Some v, cbs') \<Rightarrow> both (CBB_add_u8 0 46) (both (add_decimal v) (oid_text_rest cbs')) cbb)"
  by pat_completeness auto
termination
  by (relation "measure (\<lambda>(cbs, cbb). length cbs)") (auto dest: parse_base128_lessD [OF _ sym])

declare oid_text_rest.simps [simp del]

text \<open>The result is the NUL-terminated string.\<close>

definition CBS_asn1_oid_to_text :: "(u64 \<Rightarrow> bool) \<Rightarrow> CBS \<Rightarrow> bytes option" where
  "CBS_asn1_oid_to_text alloc cbs =
     (case CBB_init alloc 32 of
        (False, _) \<Rightarrow> None
      | (True, cbb) \<Rightarrow>
          (case parse_base128_integer cbs of
             (None, _) \<Rightarrow> None
           | (Some v, copy) \<Rightarrow>
               (case both
                  (if 80 \<le> v then both (CBB_add_bytes 0 [50, 46]) (add_decimal (v - 80))
                   else both (add_decimal (v div 40)) (both (CBB_add_u8 0 46) (add_decimal (v mod 40))))
                  (both (oid_text_rest copy) (CBB_add_u8 0 0)) cbb of
                  (False, _) \<Rightarrow> None
                | (True, cbb') \<Rightarrow> fst (CBB_finish 0 True cbb'))))"

section \<open>SET OF\<close>

text \<open>\<open>memcmp\<close> on two prefixes of the same length: negative, zero or positive.\<close>

fun OPENSSL_memcmp :: "bytes \<Rightarrow> bytes \<Rightarrow> int" where
  "OPENSSL_memcmp (a # as) (b # bs) = (if a < b then - 1 else if b < a then 1 else OPENSSL_memcmp as bs)"
| "OPENSSL_memcmp _ _ = 0"

definition compare_set_of_element :: "CBS \<Rightarrow> CBS \<Rightarrow> int" where
  "compare_set_of_element a b =
     (let min_len = (if length a < length b then length a else length b); ret = OPENSSL_memcmp (take min_len a) (take min_len b) in
      if ret \<noteq> 0 then ret else if length a = length b then 0 else if length a < length b then - 1 else 1)"

text \<open>\<open>qsort\<close> with a comparison function.\<close>

fun insert_cmp :: "('a \<Rightarrow> 'a \<Rightarrow> int) \<Rightarrow> 'a \<Rightarrow> 'a list \<Rightarrow> 'a list" where
  "insert_cmp cmp x [] = [x]"
| "insert_cmp cmp x (y # ys) = (if cmp x y \<le> 0 then x # y # ys else y # insert_cmp cmp x ys)"

definition qsort :: "('a \<Rightarrow> 'a \<Rightarrow> int) \<Rightarrow> 'a list \<Rightarrow> 'a list" where
  "qsort cmp xs = foldr (insert_cmp cmp) xs []"

text \<open>The elements of the content, \<open>None\<close> when it does not parse; \<open>n\<close> bounds their number.\<close>

fun split_elements :: "nat \<Rightarrow> CBS \<Rightarrow> CBS list option" where
  "split_elements 0 cbs = (if cbs = [] then Some [] else None)"
| "split_elements (Suc n) cbs =
     (if cbs = [] then Some []
      else case CBS_get_any_asn1_element cbs of
        (None, _) \<Rightarrow> None
      | (Some e, cbs') \<Rightarrow> map_option ((#) (element e)) (split_elements n cbs'))"

fun add_all :: "nat \<Rightarrow> bytes list \<Rightarrow> CBB \<Rightarrow> bool \<times> CBB" where
  "add_all d [] cbb = (True, cbb)"
| "add_all d (x # xs) cbb = both (CBB_add_bytes d x) (add_all d xs) cbb"

text \<open>A \<open>CBS\<close> has 16 bytes.\<close>

definition CBB_flush_asn1_set_of :: "nat \<Rightarrow> CBB \<Rightarrow> bool \<times> CBB" where
  "CBB_flush_asn1_set_of d =
     both (CBB_flush d)
       (\<lambda>cbb.
          let content = CBB_data d cbb in
          case split_elements (length content) content of
            None \<Rightarrow> (False, cbb)
          | Some elems \<Rightarrow>
              if length elems < 2 then (True, cbb)
              else if (- 1 :: u64) div 16 < word_of_nat (length elems) then (False, cbb)
              else case base cbb of
                None \<Rightarrow> (False, cbb)
              | Some b \<Rightarrow>
                  if \<not> grants b (word_of_nat (length content)) \<or> \<not> grants b (16 * word_of_nat (length elems)) then (False, cbb)
                  else add_all d (qsort compare_set_of_element elems) (cbb\<lparr>base := Some (b\<lparr>len := content_start d cbb\<rparr>)\<rparr>))"

section \<open>i2d\<close>

text \<open>
  \<open>outp\<close>: \<open>None\<close> for a null pointer, otherwise the memory \<open>*outp\<close> points to, itself \<open>None\<close> when null. The
  result is the return value and what \<open>*outp\<close> designates afterwards.
\<close>

definition CBB_finish_i2d :: "CBB \<Rightarrow> bytes option option \<Rightarrow> int \<times> bytes option option" where
  "CBB_finish_i2d cbb outp =
     (case fst (CBB_finish 0 True cbb) of
        None \<Rightarrow> (- 1, outp)
      | Some data \<Rightarrow>
          if 2147483647 < length data then (- 1, outp)
          else
            (int (length data),
             case outp of None \<Rightarrow> None | Some None \<Rightarrow> Some (Some data)
             | Some (Some dest) \<Rightarrow> Some (Some (drop (length data) (memcpy_at dest 0 data)))))"

section \<open>BER\<close>

definition kMaxDepth :: nat where "kMaxDepth = 2048"

definition is_string_type :: "u32 \<Rightarrow> bool" where
  "is_string_type tg \<longleftrightarrow>
     tg AND NOT CBS_ASN1_CONSTRUCTED \<in>
       {CBS_ASN1_OCTETSTRING, CBS_ASN1_UTF8STRING, CBS_ASN1_NUMERICSTRING, CBS_ASN1_PRINTABLESTRING, CBS_ASN1_T61STRING,
        CBS_ASN1_VIDEOTEXSTRING, CBS_ASN1_IA5STRING, CBS_ASN1_GRAPHICSTRING, CBS_ASN1_VISIBLESTRING,
        CBS_ASN1_GENERALSTRING, CBS_ASN1_UNIVERSALSTRING, CBS_ASN1_BMPSTRING}"

text \<open>\<open>Some None\<close>: the input does not parse; \<open>Some (Some b)\<close>: the value of \<open>*ber_found\<close>.\<close>

fun cbs_find_ber :: "nat \<Rightarrow> nat \<Rightarrow> CBS \<Rightarrow> bool option option" where
  "cbs_find_ber 0 depth cbs = None"
| "cbs_find_ber (Suc n) depth cbs =
     (if kMaxDepth < depth then Some None
      else if cbs = [] then Some (Some False)
      else case CBS_get_any_ber_asn1_element cbs of
        (None, _) \<Rightarrow> Some None
      | (Some e, rest) \<Rightarrow>
          if ber_found e then Some (Some True)
          else if elem_tag e AND CBS_ASN1_CONSTRUCTED \<noteq> 0 then
            if is_string_type (elem_tag e) then Some (Some True)
            else (case CBS_skip (element e) (header_len e) of
                (None, _) \<Rightarrow> Some None
              | (Some _, contents) \<Rightarrow>
                  (case cbs_find_ber n (depth + 1) contents of
                     None \<Rightarrow> None
                   | Some None \<Rightarrow> Some None
                   | Some (Some found) \<Rightarrow>
                       if rest = [] then Some (Some found) else cbs_find_ber n depth rest))
          else cbs_find_ber n depth rest)"

definition is_eoc :: "u64 \<Rightarrow> CBS \<Rightarrow> bool" where
  "is_eoc hlen contents \<longleftrightarrow> hlen = 2 \<and> length contents = 2 \<and> OPENSSL_memcmp contents [0, 0] = 0"


text \<open>
  \<open>cbs_convert_ber\<close>: the result holds the input left in \<open>in\<close> and the builder. The CBB it writes to is the one
  at depth \<open>d\<close>.
\<close>

fun cbs_convert_ber :: "nat \<Rightarrow> nat \<Rightarrow> u32 \<Rightarrow> bool \<Rightarrow> nat \<Rightarrow> CBS \<Rightarrow> CBB \<Rightarrow> (bool \<times> CBS \<times> CBB) option" where
  "cbs_convert_ber 0 d string_tag looking_for_eoc depth cbs cbb = None"
| "cbs_convert_ber (Suc n) d string_tag looking_for_eoc depth cbs cbb =
     (if kMaxDepth < depth then Some (False, cbs, cbb)
      else if cbs = [] then Some (\<not> looking_for_eoc, cbs, cbb)
      else case CBS_get_any_ber_asn1_element cbs of
        (None, rest) \<Rightarrow> Some (False, rest, cbb)
      | (Some e, rest) \<Rightarrow>
          if is_eoc (header_len e) (element e) then Some (looking_for_eoc, rest, cbb)
          else
            let tg = elem_tag e; constructed = (tg AND CBS_ASN1_CONSTRUCTED \<noteq> 0);
                bare = tg AND NOT CBS_ASN1_CONSTRUCTED;
                is_cstr = (constructed \<and> is_string_type tg);
                out_tag = (if is_cstr then bare else tg);
                child_string_tag = (if string_tag \<noteq> 0 then string_tag else if is_cstr then out_tag else string_tag);
                opened = (if string_tag \<noteq> 0 then (bare = string_tag, cbb) else CBB_add_asn1 d out_tag cbb);
                d' = (if string_tag \<noteq> 0 then d else Suc d);
                continue = (\<lambda>rest' (ok, cbb2). if ok then cbs_convert_ber n d string_tag looking_for_eoc depth rest' cbb2
                                              else Some (False, rest', cbb2))
            in if \<not> fst opened then Some (False, rest, snd opened)
               else if length (element e) = unat (header_len e) \<and> 0 < header_len e \<and> element e ! (unat (header_len e) - 1) = 0x80
               then (case cbs_convert_ber n d' child_string_tag True (depth + 1) rest (snd opened) of
                       None \<Rightarrow> None
                     | Some (False, rest', cbb1) \<Rightarrow> Some (False, rest', cbb1)
                     | Some (True, rest', cbb1) \<Rightarrow> continue rest' (CBB_flush d cbb1))
               else (case CBS_skip (element e) (header_len e) of
                       (None, _) \<Rightarrow> Some (False, rest, snd opened)
                     | (Some _, contents) \<Rightarrow>
                         if constructed then
                           (case cbs_convert_ber n d' child_string_tag False (depth + 1) contents (snd opened) of
                              None \<Rightarrow> None
                            | Some (False, _, cbb1) \<Rightarrow> Some (False, rest, cbb1)
                            | Some (True, _, cbb1) \<Rightarrow> continue rest (CBB_flush d cbb1))
                         else continue rest (both (CBB_add_bytes d' contents) (CBB_flush d) (snd opened))))"

text \<open>
  The result: the element (\<open>*out\<close>), whether it lives in newly allocated storage, and what is left of
  \<open>in\<close>. The fuel is the length of the input, which every turn shortens.
\<close>

definition CBS_asn1_ber_to_der :: "(u64 \<Rightarrow> bool) \<Rightarrow> CBS \<Rightarrow> (CBS \<times> bool) option option \<times> CBS" where
  "CBS_asn1_ber_to_der alloc cbs =
     (case cbs_find_ber (Suc (length cbs)) 0 cbs of
        None \<Rightarrow> (None, cbs)
      | Some None \<Rightarrow> (Some None, cbs)
      | Some (Some False) \<Rightarrow>
          (case CBS_get_any_asn1_element cbs of
             (None, rest) \<Rightarrow> (Some None, rest)
           | (Some e, rest) \<Rightarrow> (Some (Some (element e, False)), rest))
      | Some (Some True) \<Rightarrow>
          (case CBB_init alloc (CBS_len cbs) of
             (False, _) \<Rightarrow> (Some None, cbs)
           | (True, cbb) \<Rightarrow>
               (case cbs_convert_ber (Suc (length cbs)) 0 0 False 0 cbs cbb of
                  None \<Rightarrow> (None, cbs)
                | Some (False, rest, _) \<Rightarrow> (Some None, rest)
                | Some (True, rest, cbb') \<Rightarrow>
                    (case fst (CBB_finish 0 True cbb') of
                       None \<Rightarrow> (Some None, rest)
                     | Some data \<Rightarrow> (Some (Some (data, True)), rest)))))"

text \<open>The loop over the chunks of an implicitly tagged constructed string.\<close>

fun implicit_chunks :: "nat \<Rightarrow> u32 \<Rightarrow> CBS \<Rightarrow> CBB \<Rightarrow> (bool \<times> CBB) option" where
  "implicit_chunks 0 inner_tag child cbb = None"
| "implicit_chunks (Suc n) inner_tag child cbb =
     (if child = [] then Some (True, cbb)
      else case CBS_get_asn1 child inner_tag of
        (None, _) \<Rightarrow> Some (False, cbb)
      | (Some chunk, child') \<Rightarrow>
          (case CBB_add_bytes 0 chunk cbb of
             (False, cbb') \<Rightarrow> Some (False, cbb')
           | (True, cbb') \<Rightarrow> implicit_chunks n inner_tag child' cbb'))"

definition CBS_get_asn1_implicit_string :: "(u64 \<Rightarrow> bool) \<Rightarrow> CBS \<Rightarrow> u32 \<Rightarrow> u32 \<Rightarrow> (CBS \<times> bool) option option \<times> CBS" where
  "CBS_get_asn1_implicit_string alloc cbs outer_tag inner_tag =
     (if CBS_peek_asn1_tag cbs outer_tag then
        (case CBS_get_asn1 cbs outer_tag of
           (None, rest) \<Rightarrow> (Some None, rest)
         | (Some out, rest) \<Rightarrow> (Some (Some (out, False)), rest))
      else case CBB_init alloc (CBS_len cbs) of
        (False, _) \<Rightarrow> (Some None, cbs)
      | (True, cbb) \<Rightarrow>
          (case CBS_get_asn1 cbs (outer_tag OR CBS_ASN1_CONSTRUCTED) of
             (None, rest) \<Rightarrow> (Some None, rest)
           | (Some child, rest) \<Rightarrow>
               (case implicit_chunks (Suc (length child)) inner_tag child cbb of
                  None \<Rightarrow> (None, rest)
                | Some (False, _) \<Rightarrow> (Some None, rest)
                | Some (True, cbb') \<Rightarrow>
                    (case fst (CBB_finish 0 True cbb') of
                       None \<Rightarrow> (Some None, rest)
                     | Some data \<Rightarrow> (Some (Some (data, True)), rest)))))"


end
