(* ===== verification/Bytestring_Unicode.thy ===== *)
theory Bytestring_Unicode
  imports Bytestring_CBB
begin

text \<open>\<^verbatim>\<open>crypto/bytestring/unicode.c\<close>: reading and writing single code points.\<close>

definition is_valid_code_point :: "u32 \<Rightarrow> bool" where
  "is_valid_code_point v \<longleftrightarrow>
     \<not> (0x10FFFF < v \<or> v AND 0xFFFE = 0xFFFE \<or> 0xFDD0 \<le> v \<and> v \<le> 0xFDEF \<or> 0xD800 \<le> v \<and> v \<le> 0xDFFF)"

definition BOTTOM_BITS :: "nat \<Rightarrow> u8" where "BOTTOM_BITS n = ucast (push_bit n (1 :: u32) - 1)"
definition TOP_BITS :: "nat \<Rightarrow> u8" where "TOP_BITS n = NOT (BOTTOM_BITS (8 - n))"

text \<open>The continuation bytes: \<open>n\<close> more are expected.\<close>

fun utf8_continue :: "nat \<Rightarrow> u32 \<Rightarrow> CBS \<Rightarrow> u32 cbs_res" where
  "utf8_continue 0 v cbs = (Some v, cbs)"
| "utf8_continue (Suc n) v cbs =
     rbind (CBS_get_u8 cbs) (\<lambda>c cbs'.
       if c AND TOP_BITS 2 \<noteq> TOP_BITS 1 then (None, cbs')
       else utf8_continue n (push_bit 6 v OR ucast (c AND BOTTOM_BITS 6)) cbs')"

definition cbs_get_utf8 :: "CBS \<Rightarrow> u32 cbs_res" where
  "cbs_get_utf8 cbs =
     rbind (CBS_get_u8 cbs) (\<lambda>c cbs1.
       if c \<le> 0x7F then (Some (ucast c), cbs1)
       else
         let form =
           (if c AND TOP_BITS 3 = TOP_BITS 2 then Some (ucast (c AND BOTTOM_BITS 5), 1, 0x80)
            else if c AND TOP_BITS 4 = TOP_BITS 3 then Some (ucast (c AND BOTTOM_BITS 4), 2, 0x800)
            else if c AND TOP_BITS 5 = TOP_BITS 4 then Some (ucast (c AND BOTTOM_BITS 3), 3, 0x10000)
            else None) :: (u32 \<times> nat \<times> u32) option
         in case form of
              None \<Rightarrow> (None, cbs1)
            | Some (v, n, lower_bound) \<Rightarrow>
                rbind (utf8_continue n v cbs1) (\<lambda>v' cbs2.
                  if \<not> is_valid_code_point v' \<or> v' < lower_bound then (None, cbs2) else (Some v', cbs2)))"

definition cbs_get_latin1 :: "CBS \<Rightarrow> u32 cbs_res" where
  "cbs_get_latin1 cbs = rbind (CBS_get_u8 cbs) (\<lambda>c cbs'. (Some (ucast c), cbs'))"

definition cbs_get_ucs2_be :: "CBS \<Rightarrow> u32 cbs_res" where
  "cbs_get_ucs2_be cbs =
     rbind (CBS_get_u16 cbs) (\<lambda>c cbs'. if \<not> is_valid_code_point (ucast c) then (None, cbs') else (Some (ucast c), cbs'))"

definition cbs_get_utf32_be :: "CBS \<Rightarrow> u32 cbs_res" where
  "cbs_get_utf32_be cbs =
     rbind (CBS_get_u32 cbs) (\<lambda>c cbs'. if is_valid_code_point c then (Some c, cbs') else (None, cbs'))"

definition cbb_get_utf8_len :: "u32 \<Rightarrow> u64" where
  "cbb_get_utf8_len u = (if u \<le> 0x7F then 1 else if u \<le> 0x7FF then 2 else if u \<le> 0xFFFF then 3 else 4)"

text \<open>A continuation byte with the six bits of \<open>u\<close> from position \<open>k\<close>.\<close>

definition continuation :: "u32 \<Rightarrow> nat \<Rightarrow> u8" where
  "continuation u k = TOP_BITS 1 OR (ucast (drop_bit k u) AND BOTTOM_BITS 6)"

definition cbb_add_utf8 :: "nat \<Rightarrow> u32 \<Rightarrow> CBB \<Rightarrow> bool \<times> CBB" where
  "cbb_add_utf8 d u =
     (if \<not> is_valid_code_point u then (\<lambda>cbb. (False, cbb))
      else if u \<le> 0x7F then CBB_add_u8 d (ucast u)
      else if u \<le> 0x7FF then both (CBB_add_u8 d (TOP_BITS 2 OR ucast (drop_bit 6 u))) (CBB_add_u8 d (continuation u 0))
      else if u \<le> 0xFFFF then
        both (CBB_add_u8 d (TOP_BITS 3 OR ucast (drop_bit 12 u)))
          (both (CBB_add_u8 d (continuation u 6)) (CBB_add_u8 d (continuation u 0)))
      else if u \<le> 0x10FFFF then
        both (CBB_add_u8 d (TOP_BITS 4 OR ucast (drop_bit 18 u)))
          (both (CBB_add_u8 d (continuation u 12))
             (both (CBB_add_u8 d (continuation u 6)) (CBB_add_u8 d (continuation u 0))))
      else (\<lambda>cbb. (False, cbb)))"

definition cbb_add_latin1 :: "nat \<Rightarrow> u32 \<Rightarrow> CBB \<Rightarrow> bool \<times> CBB" where
  "cbb_add_latin1 d u = (if u \<le> 0xFF then CBB_add_u8 d (ucast u) else (\<lambda>cbb. (False, cbb)))"

definition cbb_add_ucs2_be :: "nat \<Rightarrow> u32 \<Rightarrow> CBB \<Rightarrow> bool \<times> CBB" where
  "cbb_add_ucs2_be d u =
     (if u \<le> 0xFFFF \<and> is_valid_code_point u then CBB_add_u16 d (ucast u) else (\<lambda>cbb. (False, cbb)))"

definition cbb_add_utf32_be :: "nat \<Rightarrow> u32 \<Rightarrow> CBB \<Rightarrow> bool \<times> CBB" where
  "cbb_add_utf32_be d u = (if is_valid_code_point u then CBB_add_u32 d u else (\<lambda>cbb. (False, cbb)))"

end
