(* ===== verification/Bytestring_CBB_Correct.thy ===== *)
theory Bytestring_CBB_Correct
  imports Bytestring_CBB
begin

text \<open>
  Correctness of the CBB builder. The reference is a builder without a buffer: the bytes of the top level
  and a stack of open frames, each with its kind and what was written to it. Closing a frame puts its
  length in front of its content. The buffer of the code is related to it by \<open>layout\<close>: an open child has
  one octet, or a fixed number of octets, where its length will be.
\<close>

section \<open>Buffer invariant\<close>

definition buf_ok :: "cbb_buffer \<Rightarrow> bool" where
  "buf_ok b \<longleftrightarrow> length (buf b) = unat (cap b) \<and> unat (len b) \<le> unat (cap b)"

definition content :: "cbb_buffer \<Rightarrow> bytes" where
  "content b = take (unat (len b)) (buf b)"

lemma length_content: "buf_ok b \<Longrightarrow> length (content b) = unat (len b)"
  by (simp add: buf_ok_def content_def)

lemma reserve_cases:
  assumes "buf_ok b"
  shows "case cbb_buffer_reserve b n of
      (False, b') \<Rightarrow> b' = b\<lparr>error := True\<rparr>
    | (True, b') \<Rightarrow> \<exists>pad. b' = b\<lparr>buf := buf b @ pad, cap := cap b'\<rparr> \<and> buf_ok b' \<and>
        unat (len b) + unat n \<le> unat (cap b')"
proof -
  let ?newlen = "len b + n"
  have sum: "unat ?newlen = unat (len b) + unat n" if "\<not> ?newlen < len b"
    using that unat_lt_u64 [of n] by (simp add: word_less_nat_alt unat_plus_if' split: if_splits)
  define newcap where "newcap = (if cap b * 2 < cap b \<or> cap b * 2 < ?newlen then ?newlen else cap b * 2)"
  have big: "cap b \<le> newcap" "?newlen \<le> newcap" if "cap b < ?newlen"
    using that by (auto simp: newcap_def not_less)
  have unf: "cbb_buffer_reserve b n = (if ?newlen < len b then (False, b\<lparr>error := True\<rparr>)
      else if cap b < ?newlen then
        if can_resize b \<and> grants b newcap
        then (True, b\<lparr>buf := buf b @ replicate (unat newcap - unat (cap b)) 0, cap := newcap\<rparr>) else (False, b\<lparr>error := True\<rparr>)
      else (True, b))"
    by (simp add: cbb_buffer_reserve_def Let_def newcap_def)
  consider (err) "cbb_buffer_reserve b n = (False, b\<lparr>error := True\<rparr>)"
    | (same) "\<not> ?newlen < len b" "\<not> cap b < ?newlen" "cbb_buffer_reserve b n = (True, b)"
    | (grow) "\<not> ?newlen < len b" "cap b < ?newlen"
        "cbb_buffer_reserve b n = (True, b\<lparr>buf := buf b @ replicate (unat newcap - unat (cap b)) 0, cap := newcap\<rparr>)"
    using unf by (cases "?newlen < len b"; cases "cap b < ?newlen"; cases "can_resize b \<and> grants b newcap") auto
  then show ?thesis
  proof cases
    case err
    then show ?thesis by simp
  next
    case same
    have "\<exists>pad. b = b\<lparr>buf := buf b @ pad\<rparr>" by (rule exI [of _ "[]"]) simp
    then show ?thesis using same sum assms by (auto simp: word_less_nat_alt)
  next
    case grow
    have "unat (cap b) \<le> unat newcap" "unat ?newlen \<le> unat newcap" using big [OF grow(2)] by (simp_all add: word_le_nat_alt)
    with grow sum assms show ?thesis by (auto simp: buf_ok_def)
  qed
qed

text \<open>What an extension of the buffer leaves alone.\<close>

definition same_env :: "cbb_buffer \<Rightarrow> cbb_buffer \<Rightarrow> bool" where
  "same_env b b' \<longleftrightarrow> can_resize b' = can_resize b \<and> grants b' = grants b"

definition unlimited :: "cbb_buffer \<Rightarrow> bool" where
  "unlimited b \<longleftrightarrow> can_resize b \<and> (\<forall>n. grants b n)"

lemma add_True:
  assumes "buf_ok b" "cbb_buffer_add b n = (True, b')"
  shows "buf_ok b'" "\<exists>pad. buf b' = buf b @ pad" "unat (len b') = unat (len b) + unat n" "error b' = error b" "same_env b b'"
proof -
  from assms(2) obtain c where c: "cbb_buffer_reserve b n = (True, c)" "b' = c\<lparr>len := len c + n\<rparr>"
    by (auto simp: cbb_buffer_add_def split: prod.splits bool.splits)
  with reserve_cases [OF assms(1), of n] obtain pad where p: "c = b\<lparr>buf := buf b @ pad, cap := cap c\<rparr>" "buf_ok c"
    "unat (len b) + unat n \<le> unat (cap c)" by auto
  have f: "len c = len b" "error c = error b" "buf c = buf b @ pad" "can_resize c = can_resize b" "grants c = grants b"
    by (subst p(1), simp)+
  have u: "unat (len b + n) = unat (len b) + unat n"
    using p(3) unat_lt_u64 [of "cap c"] by (simp add: unat_plus_if')
  show "buf_ok b'" using p(2,3) u by (simp add: c(2) buf_ok_def f)
  show "\<exists>pad. buf b' = buf b @ pad" by (simp add: c(2) f)
  show "unat (len b') = unat (len b) + unat n" by (simp add: c(2) f u)
  show "error b' = error b" "same_env b b'" by (simp_all add: c(2) f same_env_def)
qed

lemma add_False:
  assumes "buf_ok b" "cbb_buffer_add b n = (False, b')"
  shows "b' = b\<lparr>error := True\<rparr>" "\<not> (unlimited b \<and> unat (len b) + unat n < 2 ^ 64)"
proof -
  have r: "cbb_buffer_reserve b n = (False, b')"
    using assms(2) by (auto simp: cbb_buffer_add_def split: prod.splits bool.splits)
  with reserve_cases [OF assms(1), of n] show "b' = b\<lparr>error := True\<rparr>" by simp
  show "\<not> (unlimited b \<and> unat (len b) + unat n < 2 ^ 64)"
    using r by (auto simp: cbb_buffer_reserve_def Let_def unlimited_def word_less_nat_alt unat_plus_if' split: if_splits)
qed

lemma same_env_trans: "same_env a b \<Longrightarrow> same_env b c \<Longrightarrow> same_env a c"
  by (simp add: same_env_def)

lemma same_env_unlimited: "same_env a b \<Longrightarrow> unlimited b \<longleftrightarrow> unlimited a"
  by (simp add: same_env_def unlimited_def)

section \<open>Writing numbers\<close>

lemma write_be_eq:
  "p + n \<le> length dst \<Longrightarrow> write_be dst p n v = (memcpy_at dst p (be_bytes n (unat v)), word_of_nat (unat v div 256 ^ n))"
proof (induction n arbitrary: dst v)
  case (Suc n)
  have d: "unat (drop_bit 8 v) = unat v div 256" by (simp add: drop_bit_eq_div unat_div)
  have "memcpy_at (dst[p + n := ucast v]) p (be_bytes n (unat v div 256)) = memcpy_at dst p (be_bytes n (unat v div 256) @ [ucast v])"
    using Suc.prems by (simp add: memcpy_at_def list_update_append upd_conv_take_nth_drop)
  then show ?case using Suc by (simp add: d be_bytes_Suc div_mult2_eq)
qed (simp add: memcpy_at_def)

section \<open>Closing one child\<close>

lemma content_memcpy:
  assumes "buf_ok b" "content b = pre @ h @ body" "length h = length h'"
  shows "content (b\<lparr>buf := memcpy_at (buf b) (length pre) h'\<rparr>) = pre @ h' @ body" "buf_ok (b\<lparr>buf := memcpy_at (buf b) (length pre) h'\<rparr>)"
proof -
  obtain rest where r: "buf b = pre @ h @ body @ rest"
    using assms(2) append_take_drop_id [of "unat (len b)" "buf b"] by (metis append.assoc content_def)
  have l: "unat (len b) = length pre + length h + length body"
    using length_content [OF assms(1)] assms(2) by simp
  show "content (b\<lparr>buf := memcpy_at (buf b) (length pre) h'\<rparr>) = pre @ h' @ body"
    using assms(3) by (simp add: content_def memcpy_at_def r l)
  show "buf_ok (b\<lparr>buf := memcpy_at (buf b) (length pre) h'\<rparr>)"
    using assms by (simp add: buf_ok_def memcpy_at_def r)
qed

lemma write_length_fixed:
  assumes "buf_ok b" "content b = pre @ h @ body" "length h = unat n" "unat off = length pre" "unat n \<le> 8"
    and "write_length b off n l = (ok, b')"
  shows "ok \<longleftrightarrow> unat l < 256 ^ unat n"
    and "buf_ok b'" "content b' = pre @ be_bytes (unat n) (unat l) @ body" "error b' = (error b \<or> \<not> ok)" "same_env b b'" "len b' = len b"
proof -
  have "length pre + unat n \<le> length (buf b)"
    using length_content [OF assms(1)] assms(1,2,3) by (simp add: buf_ok_def)
  from write_be_eq [OF this, of l] have w: "write_be (buf b) (unat off) (unat n) l =
      (memcpy_at (buf b) (length pre) (be_bytes (unat n) (unat l)), word_of_nat (unat l div 256 ^ unat n))"
    using assms(4) by simp
  have "unat l div 256 ^ unat n < 2 ^ 64" using unat_lt_u64 [of l] div_le_dividend [of "unat l" "256 ^ unat n"] by linarith
  then have z: "(word_of_nat (unat l div 256 ^ unat n) :: u64) = 0 \<longleftrightarrow> unat l < 256 ^ unat n"
    using unat_word_of_nat [of "unat l div 256 ^ unat n", where 'a = 64] by (auto simp: div_eq_0_iff simp flip: unat_eq_zero)
  note c = content_memcpy [OF assms(1,2), of "be_bytes (unat n) (unat l)"]
  show "ok \<longleftrightarrow> unat l < 256 ^ unat n"
    using assms(6) z by (auto simp: write_length_def w Let_def split: if_splits)
  show "buf_ok b'" "content b' = pre @ be_bytes (unat n) (unat l) @ body" "error b' = (error b \<or> \<not> ok)" "same_env b b'" "len b' = len b"
    using assms(6) c assms(3) by (auto simp: write_length_def w Let_def same_env_def buf_ok_def content_def split: if_splits)
qed

text \<open>The ASN.1 length octets the builder chooses are those of \<open>der_len\<close>.\<close>

lemma asn1_length_form_eq:
  assumes "unat l \<le> 0xFFFFFFFE"
  shows "\<exists>k init l'. asn1_length_form l = Some (word_of_nat (Suc k), init, l') \<and> k \<le> 4 \<and> der_len (unat l) = init # be_bytes k (unat l') \<and>
    unat l' < 256 ^ k \<and> (k = 0 \<or> l' = l)"
proof (cases "unat l < 128")
  case True
  then have "asn1_length_form l = Some (1, ucast l, 0)" by (simp add: asn1_length_form_def word_less_nat_alt)
  moreover have "der_len (unat l) = [ucast l]" using True by (simp add: der_len_def)
  ultimately show ?thesis by (intro exI [of _ 0] exI [of _ "ucast l"] conjI) simp_all
next
  case False
  define k where "k = octets (unat l)"
  have "asn1_length_form l = Some (word_of_nat (Suc k), word_of_nat (128 + k), l)"
    using False assms by (auto simp: asn1_length_form_def word_less_nat_alt k_def octets_def)
  moreover have "der_len (unat l) = word_of_nat (128 + k) # be_bytes k (unat l)" using False by (simp add: der_len_def k_def)
  moreover have "unat l < 256 ^ k" using octets_bound [of "unat l"] assms by (simp add: k_def)
  ultimately show ?thesis using octets_range [of "unat l"] by (intro exI [of _ k] exI conjI) (auto simp: k_def)
qed

text \<open>Making room: after the move there are \<open>k\<close> bytes between the first length octet and the body.\<close>

lemma make_room:
  fixes init :: u8
  assumes "buf_ok b" "unat (len b) = length pre + 1 + length body + k" "take (length pre + 1 + length body) (buf b) = pre @ [h] @ body"
  defines "b2 \<equiv> b\<lparr>buf := (memcpy_at (buf b) (length pre + 1 + k) body)[length pre := init]\<rparr>"
  shows "buf_ok b2" "\<exists>Y. length Y = k \<and> content b2 = (pre @ [init]) @ Y @ body"
proof -
  obtain rest where r: "buf b = pre @ [h] @ body @ rest"
    using assms(3) append_take_drop_id [of "length pre + 1 + length body" "buf b"] by (metis append.assoc)
  have len: "k \<le> length rest" using assms(1,2) r by (simp add: buf_ok_def)
  obtain Y where Y: "Y = take k (body @ rest)" "length Y = k" using len by simp
  have "memcpy_at (buf b) (length pre + 1 + k) body = pre @ h # Y @ body @ drop k rest"
    using len by (simp add: memcpy_at_def r Y(1))
  then have m: "buf b2 = pre @ init # Y @ body @ drop k rest"
    by (simp add: b2_def list_update_append)
  show "buf_ok b2" using assms(1) len length_memcpy_at [of "length pre + 1 + k" body "buf b"] r by (simp add: buf_ok_def b2_def)
  have "unat (len b2) = length (pre @ init # Y @ body)" using assms(2) Y(2) by (simp add: b2_def)
  then have "content b2 = pre @ init # Y @ body" unfolding content_def m by simp
  then show "\<exists>Y. length Y = k \<and> content b2 = (pre @ [init]) @ Y @ body"
    using Y(2) by (intro exI [of _ Y]) simp
qed

lemma flush_asn1_added:
  assumes b: "buf_ok b" "content b = pre @ [h] @ body" "unat off = length pre" "unat child_start = Suc (length pre)"
    and l: "unat l = length body" "unat l \<le> 0xFFFFFFFE" and r: "flush_asn1 b off child_start l = (ok, b')"
    and fm: "asn1_length_form l = Some (n, init0, l0)"
    and b1: "(if n \<noteq> 1 then cbb_buffer_add b (ucast (n - 1)) else (True, b)) = (True, b1)"
  shows "ok" "buf_ok b'" "content b' = pre @ der_len (length body) @ body" "error b' = error b" "same_env b b'"
proof -
  obtain k init l' where f: "asn1_length_form l = Some (word_of_nat (Suc k), init, l')" "k \<le> 4"
      "der_len (length body) = init # be_bytes k (unat l')" "unat l' < 256 ^ k" "k = 0 \<or> l' = l"
    using asn1_length_form_eq [of l] l by auto
  have usuc: "unat (word_of_nat (Suc k) :: u8) = Suc k" using f(2) by (intro unat_word_of_nat) simp
  have km: "word_of_nat (Suc k) - 1 = (word_of_nat k :: u8)" by simp
  have uk: "unat (word_of_nat k :: u8) = k" using f(2) by (intro unat_word_of_nat) simp
  have one: "word_of_nat (Suc k) \<noteq> (1 :: u8) \<longleftrightarrow> k \<noteq> 0" using usuc by (auto simp: word_unat_eq_iff simp del: of_nat_Suc)
  have tot: "length pre + 1 + length body = unat (len b)" using length_content [OF b(1)] b(2) by simp
  have tk: "take (length pre + 1 + length body) (buf b) = pre @ [h] @ body" using b(2) tot by (simp add: content_def)
  have b1: "(if word_of_nat (Suc k) \<noteq> (1 :: u8) then cbb_buffer_add b (ucast (word_of_nat (Suc k) - 1 :: u8)) else (True, b)) = (True, b1)"
  proof -
    from fm f(1) have "n = word_of_nat (Suc k)" by simp
    with b1 show ?thesis by (simp only:)
  qed
  have ue: "unat (ucast (word_of_nat (Suc k) - 1 :: u8) :: u64) = k" unfolding km using uk by simp
  have "buf_ok b1 \<and> (\<exists>pad. buf b1 = buf b @ pad) \<and> unat (len b1) = unat (len b) + k \<and> error b1 = error b \<and> same_env b b1"
  proof (cases "k = 0")
    case True
    with b1 b(1) show "buf_ok b1 \<and> (\<exists>pad. buf b1 = buf b @ pad) \<and> unat (len b1) = unat (len b) + k \<and> error b1 = error b \<and> same_env b b1"
      by (simp add: same_env_def)
  next
    case False
    with b1 one have "cbb_buffer_add b (ucast (word_of_nat (Suc k) - 1 :: u8)) = (True, b1)" by (simp del: of_nat_Suc)
    from add_True [OF b(1) this] ue show "buf_ok b1 \<and> (\<exists>pad. buf b1 = buf b @ pad) \<and> unat (len b1) = unat (len b) + k \<and> error b1 = error b \<and> same_env b b1"
      by (simp del: of_nat_Suc)
  qed
  then have p: "buf_ok b1" "\<exists>pad. buf b1 = buf b @ pad" "unat (len b1) = unat (len b) + k" "error b1 = error b" "same_env b b1"
    by blast+
  then obtain pad where pad: "buf b1 = buf b @ pad" by blast
  have lb: "length pre + 1 + length body \<le> length (buf b)" using b(1) tot by (simp add: buf_ok_def)
  then have tk1: "take (length pre + 1 + length body) (buf b1) = pre @ [h] @ body" using tk pad by simp
  have bd: "take (unat l) (drop (unat child_start) (buf b1)) = body"
  proof -
    have "take (unat l) (drop (unat child_start) (buf b1)) = drop (unat child_start) (take (length pre + 1 + length body) (buf b1))"
      using b(4) l(1) by (simp add: drop_take)
    then show ?thesis using tk1 b(4) by simp
  qed
  have ucs: "unat (child_start + ucast (word_of_nat (Suc k) - 1 :: u8)) = length pre + 1 + k"
    using ue b(4) p(1,3) tot unat_lt_u64 [of "len b1"] by (simp add: unat_plus_if' del: of_nat_Suc)
  define b2 where "b2 = b1\<lparr>buf := (memcpy_at (buf b1) (length pre + 1 + k) body)[length pre := init]\<rparr>"
  have moved: "(if word_of_nat (Suc k) \<noteq> (1 :: u8)
      then memcpy_at (buf b1) (unat (child_start + ucast (word_of_nat (Suc k) - 1 :: u8))) (take (unat l) (drop (unat child_start) (buf b1)))
      else buf b1)[unat off := init] = buf b2"
  proof (cases "k = 0")
    case True
    obtain rest where "buf b1 = pre @ [h] @ body @ rest"
      using tk1 append_take_drop_id [of "length pre + 1 + length body" "buf b1"] by (metis append.assoc)
    with True show ?thesis by (simp add: b2_def b(3) memcpy_at_def)
  next
    case False
    with one show ?thesis unfolding bd ucs b(3) b2_def by (simp del: of_nat_Suc)
  qed
  have w: "write_length b2 (off + 1) (word_of_nat k) l' = (ok, b')"
    using r b1 moved by (simp add: flush_asn1_def f(1) Let_def b2_def km del: of_nat_Suc)
  obtain Y where Y: "length Y = k" "content b2 = (pre @ [init]) @ Y @ body" and ok2: "buf_ok b2"
    using make_room [of b1 pre body k h init] p tot tk1 unfolding b2_def [symmetric] by auto
  have uo: "unat (off + 1) = length (pre @ [init])"
    using b(3) tot unat_lt_u64 [of "len b"] by (simp add: unat_plus_if')
  have k8: "unat (word_of_nat k :: u8) \<le> 8" using uk f(2) by simp
  from write_length_fixed(1) [OF ok2 Y(2) _ uo k8 w] Y(1) uk f(4) show ok: ok by simp
  from write_length_fixed [OF ok2 Y(2) _ uo k8 w] Y(1) uk f(3) p(4,5) ok
  show "buf_ok b'" "content b' = pre @ der_len (length body) @ body" "error b' = error b" "same_env b b'"
    by (simp_all add: b2_def same_env_def)
qed

lemma flush_asn1_ok:
  assumes b: "buf_ok b" "content b = pre @ [h] @ body" "unat off = length pre" "unat child_start = Suc (length pre)"
    and l: "unat l = length body" and r: "flush_asn1 b off child_start l = (True, b')"
  shows "length body \<le> 0xFFFFFFFE" "buf_ok b'" "content b' = pre @ der_len (length body) @ body" "error b' = error b" "same_env b b'"
proof -
  obtain n i l0 where fm: "asn1_length_form l = Some (n, i, l0)"
    using r by (auto simp: flush_asn1_def split: option.splits)
  then show le: "length body \<le> 0xFFFFFFFE" using l by (simp add: asn1_length_form_def word_less_nat_alt split: if_splits)
  obtain b1 where b1: "(if n \<noteq> 1 then cbb_buffer_add b (ucast (n - 1)) else (True, b)) = (True, b1)"
    using r fm by (auto simp: flush_asn1_def Let_def split: prod.splits bool.splits)
  from flush_asn1_added [OF b l _ r fm b1] le l
  show "buf_ok b'" "content b' = pre @ der_len (length body) @ body" "error b' = error b" "same_env b b'" by simp_all
qed

lemma flush_asn1_False:
  assumes b: "buf_ok b" "content b = pre @ [h] @ body" "unat off = length pre" "unat child_start = Suc (length pre)"
    and l: "unat l = length body" and r: "flush_asn1 b off child_start l = (False, b')"
  shows "error b'" "\<not> (unlimited b \<and> length (pre @ der_len (length body) @ body) < 2 ^ 64 \<and> length body \<le> 0xFFFFFFFE)"
proof -
  show "error b'"
    using r by (auto simp: flush_asn1_def write_length_def Let_def split: option.splits prod.splits bool.splits if_splits)
  show "\<not> (unlimited b \<and> length (pre @ der_len (length body) @ body) < 2 ^ 64 \<and> length body \<le> 0xFFFFFFFE)"
  proof (intro notI, elim conjE)
    assume u: "unlimited b" "length (pre @ der_len (length body) @ body) < 2 ^ 64" "length body \<le> 0xFFFFFFFE"
    then have le: "unat l \<le> 0xFFFFFFFE" using l by simp
    obtain k init l0 where f: "asn1_length_form l = Some (word_of_nat (Suc k), init, l0)" "k \<le> 4"
        "der_len (length body) = init # be_bytes k (unat l0)"
      using asn1_length_form_eq [OF le] l by auto
    define n :: u8 where "n = word_of_nat (Suc k)"
    have fm: "asn1_length_form l = Some (n, init, l0)" using f(1) by (simp add: n_def)
    have "unat (word_of_nat k :: u8) = k" using f(2) by (intro unat_word_of_nat) simp
    then have "unat (ucast (n - 1) :: u64) = k" by (simp add: n_def)
    moreover have "unat (len b) + k < 2 ^ 64" using length_content [OF b(1)] b(2) u(2) f(3) by simp
    ultimately have "fst (cbb_buffer_add b (ucast (n - 1)))"
      using add_False(2) [OF b(1), of "ucast (n - 1)"] u(1) by (cases "cbb_buffer_add b (ucast (n - 1))") auto
    then obtain b1 where b1: "(if n \<noteq> 1 then cbb_buffer_add b (ucast (n - 1)) else (True, b)) = (True, b1)"
      by (cases "n = 1"; cases "cbb_buffer_add b (ucast (n - 1))") auto
    from flush_asn1_added(1) [OF b l le r fm b1] show False by simp
  qed
qed

section \<open>The chain of open children\<close>

datatype frame_kind = Fixed nat | Asn1

definition kind_of :: "pending \<Rightarrow> frame_kind" where
  "kind_of c = (if pending_is_asn1 c then Asn1 else Fixed (unat (pending_len_len c)))"

text \<open>The length octets of a frame whose body has \<open>l\<close> bytes, \<open>None\<close> when they do not fit.\<close>

fun enc_len :: "frame_kind \<Rightarrow> nat \<Rightarrow> bytes option" where
  "enc_len (Fixed n) l = (if l < 256 ^ n then Some (be_bytes n l) else None)"
| "enc_len Asn1 l = (if l \<le> 0xFFFFFFFE then Some (der_len l) else None)"

text \<open>The open frames, outermost first, each with what has been written to it so far.\<close>

type_synonym frames = "(frame_kind \<times> bytes) list"

fun close_frames :: "frames \<Rightarrow> bytes option" where
  "close_frames [] = Some []"
| "close_frames ((k, s) # fs) =
     (case close_frames fs of None \<Rightarrow> None
      | Some t \<Rightarrow> map_option (\<lambda>h. h @ s @ t) (enc_len k (length (s @ t))))"

text \<open>How frames are laid out in the buffer behind position \<open>p\<close>: length octets still to be filled, then
  the content of the frame, then the inner frames.\<close>

fun layout :: "nat \<Rightarrow> pending list \<Rightarrow> frames \<Rightarrow> bytes \<Rightarrow> bool" where
  "layout p [] [] rest \<longleftrightarrow> rest = []"
| "layout p (c # cs) ((k, s) # fs) rest \<longleftrightarrow>
     kind_of c = k \<and> 1 \<le> unat (pending_len_len c) \<and> unat (pending_len_len c) \<le> 8 \<and> (k = Asn1 \<longrightarrow> pending_len_len c = 1) \<and>
     unat (offset c) = p \<and>
     (\<exists>h rest'. rest = h @ s @ rest' \<and> length h = unat (pending_len_len c) \<and> layout (p + length h + length s) cs fs rest')"
| "layout p _ _ rest \<longleftrightarrow> False"

lemma frame_bounds:
  fixes c :: pending
  defines "start \<equiv> offset c + ucast (pending_len_len c)"
  assumes "buf_ok b" "content b = (pre @ h @ s) @ t" "unat (offset c) = length pre" "length h = unat (pending_len_len c)"
  shows "unat start = length pre + length h" "\<not> start < offset c" "\<not> len b < start" "unat (len b - start) = length (s @ t)"
proof -
  have n: "unat (len b) = length pre + length h + length s + length t"
    using length_content [OF assms(2)] assms(3) by simp
  show us: "unat start = length pre + length h"
    using assms(4,5) n unat_lt_u64 [of "len b"] by (simp add: start_def unat_plus_if')
  show "\<not> start < offset c" "\<not> len b < start" "unat (len b - start) = length (s @ t)"
    using us n assms(4) by (simp_all add: word_less_nat_alt unat_sub_if')
qed

lemma flush_chain_ok:
  "buf_ok b \<Longrightarrow> content b = pre @ rest \<Longrightarrow> layout (length pre) cs fs rest \<Longrightarrow> flush_chain b cs = (True, b', cs') \<Longrightarrow>
   \<exists>t. close_frames fs = Some t \<and> content b' = pre @ t \<and> buf_ok b' \<and> cs' = [] \<and> \<not> error b' \<and> same_env b b'"
proof (induction "length pre" cs fs rest arbitrary: pre b' cs' rule: layout.induct)
  case (1 rest)
  then show ?case by (auto simp: same_env_def)
next
  case (2 c cs k s fs rest)
  from "2.prems"(3) obtain h rest' where L: "kind_of c = k" "1 \<le> unat (pending_len_len c)" "unat (pending_len_len c) \<le> 8"
      "k = Asn1 \<longrightarrow> pending_len_len c = 1" "unat (offset c) = length pre" "rest = h @ s @ rest'"
      "length h = unat (pending_len_len c)" "layout (length (pre @ h @ s)) cs fs rest'"
    by (auto simp: add.assoc)
  define start where "start = offset c + ucast (pending_len_len c)"
  have nz: "pending_len_len c \<noteq> 0" using L(2) by auto
  obtain ok1 b1 cs1 where f1: "flush_chain b cs = (ok1, b1, cs1)" by (cases "flush_chain b cs") auto
  with "2.prems"(4) nz have ok1: "ok1" and ne: "\<not> error b"
    by (auto simp: Let_def start_def split: if_splits)
  have "length pre + length h + length s = length (pre @ h @ s)" "content b = (pre @ h @ s) @ rest'"
    using "2.prems"(2) L(6) by simp_all
  from "2.hyps" [OF this(1) "2.prems"(1) this(2) L(8)] f1 ok1 obtain t where
    t: "close_frames fs = Some t" "content b1 = (pre @ h @ s) @ t" "buf_ok b1" "\<not> error b1" "same_env b b1"
    by auto
  note fb = frame_bounds [OF t(3,2) L(5,7), folded start_def]
  show ?case
  proof (cases "pending_is_asn1 c")
    case True
    then have k: "k = Asn1" "length h = 1" using L(1,4,7) by (auto simp: kind_of_def)
    obtain h0 where h: "h = [h0]" using k(2) by (cases h) auto
    have r: "flush_asn1 b1 (offset c) start (len b1 - start) = (True, b')" "cs' = []"
      using "2.prems"(4) nz f1 ok1 ne fb(2,3) True by (auto simp: Let_def start_def split: if_splits prod.splits bool.splits)
    from flush_asn1_ok [OF t(3) _ L(5) _ fb(4) r(1), of h0] t fb(1) h
    show ?thesis using r(2) k(1) by (auto intro: same_env_trans)
  next
    case False
    then have k: "k = Fixed (length h)" using L(1,7) by (simp add: kind_of_def)
    have r: "write_length b1 (offset c) (pending_len_len c) (len b1 - start) = (True, b')" "cs' = []"
      using "2.prems"(4) nz f1 ok1 ne fb(2,3) False by (auto simp: Let_def start_def split: if_splits prod.splits bool.splits)
    from write_length_fixed [OF t(3) _ L(7) L(5) L(3) r(1), of "s @ t"] t fb(4)
    show ?thesis using r(2) k L(7) by (auto intro: same_env_trans)
  qed
qed simp_all
section \<open>Weights\<close>

text \<open>The number of bytes an open frame has in the buffer.\<close>

fun room :: "frame_kind \<Rightarrow> nat" where
  "room (Fixed n) = n"
| "room Asn1 = 1"

fun weight :: "frames \<Rightarrow> nat" where
  "weight [] = 0"
| "weight ((k, s) # fs) = room k + length s + weight fs"

lemma enc_len_room: "enc_len k l = Some h \<Longrightarrow> room k \<le> length h"
  using der_len_bound(1) [of l] by (cases k) (auto split: if_splits)

lemma flush_chain_False:
  "buf_ok b \<Longrightarrow> content b = pre @ rest \<Longrightarrow> layout (length pre) cs fs rest \<Longrightarrow> flush_chain b cs = (False, b', cs') \<Longrightarrow>
   error b' \<and> (unlimited b \<longrightarrow> error b \<or> (\<forall>t. close_frames fs = Some t \<longrightarrow> 2 ^ 64 \<le> length pre + length t))"
proof (induction "length pre" cs fs rest arbitrary: pre b' cs' rule: layout.induct)
  case (2 c cs k s fs rest)
  from "2.prems"(3) obtain h rest' where L: "kind_of c = k" "1 \<le> unat (pending_len_len c)" "unat (pending_len_len c) \<le> 8"
      "k = Asn1 \<longrightarrow> pending_len_len c = 1" "unat (offset c) = length pre" "rest = h @ s @ rest'"
      "length h = unat (pending_len_len c)" "layout (length (pre @ h @ s)) cs fs rest'"
    by (auto simp: add.assoc)
  define start where "start = offset c + ucast (pending_len_len c)"
  have nz: "pending_len_len c \<noteq> 0" using L(2) by auto
  obtain ok1 b1 cs1 where f1: "flush_chain b cs = (ok1, b1, cs1)" by (cases "flush_chain b cs") auto
  have pre': "length pre + length h + length s = length (pre @ h @ s)" "content b = (pre @ h @ s) @ rest'"
    using "2.prems"(2) L(6) by simp_all
  have hk: "length h = room k" using L(1,4,7) by (auto simp: kind_of_def)
  have bnd: "length (pre @ h @ s) + length t \<le> length pre + length t'"
    if "close_frames fs = Some t" "close_frames ((k, s) # fs) = Some t'" for t t'
    using that hk by (auto dest!: enc_len_room)
  show ?case
  proof (cases "error b")
    case ne: False
    show ?thesis
    proof (cases ok1)
      case False
      with "2.hyps" [OF pre'(1) "2.prems"(1) pre'(2) L(8)] f1
      have IH: "error b1 \<and> (unlimited b \<longrightarrow> (\<forall>t. close_frames fs = Some t \<longrightarrow> 2 ^ 64 \<le> length (pre @ h @ s) + length t))"
        using ne by auto
      have "b' = b1\<lparr>error := True\<rparr>" using "2.prems"(4) f1 nz False ne by (simp add: Let_def)
      moreover have "2 ^ 64 \<le> length pre + length t'" if u: "unlimited b" and c: "close_frames ((k, s) # fs) = Some t'" for t'
      proof -
        obtain t where "close_frames fs = Some t" using c by (auto split: option.splits)
        with IH u c bnd show ?thesis by fastforce
      qed
      ultimately show ?thesis by auto
    next
      case True
      with flush_chain_ok [OF "2.prems"(1) pre'(2) L(8)] f1 obtain t where
        t: "close_frames fs = Some t" "content b1 = (pre @ h @ s) @ t" "buf_ok b1" "same_env b b1" by auto
      note fb = frame_bounds [OF t(3,2) L(5,7), folded start_def]
      show ?thesis
      proof (cases "pending_is_asn1 c")
        case asn1: True
        then have k: "k = Asn1" "length h = 1" using L(1,4,7) by (auto simp: kind_of_def)
        obtain h0 where h: "h = [h0]" using k(2) by (cases h) auto
        have r: "flush_asn1 b1 (offset c) start (len b1 - start) = (False, b')"
          using "2.prems"(4) nz f1 True ne fb(2,3) asn1 by (auto simp: Let_def start_def split: if_splits prod.splits bool.splits)
        from flush_asn1_False [OF t(3) _ L(5) _ fb(4) r, of h0] t fb(1) h k(1) same_env_unlimited [OF t(4)]
        show ?thesis by auto
      next
        case fixed: False
        then have k: "k = Fixed (length h)" using L(1,7) by (simp add: kind_of_def)
        have r: "write_length b1 (offset c) (pending_len_len c) (len b1 - start) = (False, b')"
          using "2.prems"(4) nz f1 True ne fb(2,3) fixed by (auto simp: Let_def start_def split: if_splits prod.splits bool.splits)
        from write_length_fixed [OF t(3) _ L(7) L(5) L(3) r, of "s @ t"] t fb(4) k L(7)
        show ?thesis by auto
      qed
    qed
  qed (use "2.prems"(4) in simp)
qed auto

section \<open>The reference builder\<close>

type_synonym builder = "bytes \<times> frames"

definition bulk :: "builder \<Rightarrow> nat" where
  "bulk st = length (fst st) + weight (snd st)"

text \<open>A buffer has fewer than \<open>2 ^ 64\<close> bytes.\<close>

definition fits :: "builder \<Rightarrow> builder option" where
  "fits st = (if bulk st < 2 ^ 64 then Some st else None)"

fun push_in :: "bytes \<Rightarrow> frames \<Rightarrow> frames" where
  "push_in x [] = []"
| "push_in x [(k, s)] = [(k, s @ x)]"
| "push_in x (f # g # fs) = f # push_in x (g # fs)"

text \<open>Append to the innermost frame, or to the top level when no frame is open.\<close>

definition push :: "bytes \<Rightarrow> builder \<Rightarrow> builder" where
  "push x st = (if snd st = [] then (fst st @ x, []) else (fst st, push_in x (snd st)))"

text \<open>Close the frames deeper than \<open>d\<close>.\<close>

definition abs_flush :: "nat \<Rightarrow> builder \<Rightarrow> builder option" where
  "abs_flush d st =
     (if length (snd st) < d then None
      else Option.bind (close_frames (drop d (snd st))) (\<lambda>t. fits (push t (fst st, take d (snd st)))))"

definition abs_add :: "nat \<Rightarrow> bytes \<Rightarrow> builder \<Rightarrow> builder option" where
  "abs_add d x st = Option.bind (abs_flush d st) (\<lambda>st'. fits (push x st'))"

definition abs_open :: "nat \<Rightarrow> frame_kind \<Rightarrow> builder \<Rightarrow> builder option" where
  "abs_open d k st = Option.bind (abs_flush d st) (\<lambda>st'. fits (fst st', snd st' @ [(k, [])]))"

text \<open>The bytes of a finished build.\<close>

definition abs_finish :: "builder \<Rightarrow> bytes option" where
  "abs_finish st = map_option fst (abs_flush 0 st)"

lemma length_push_in [simp]: "length (push_in x fs) = length fs"
  by (induction x fs rule: push_in.induct) auto

lemma push_in_Nil [simp]: "push_in [] fs = fs"
  by (induction "[] :: bytes" fs rule: push_in.induct) auto

lemma push_in_append: "push_in y (push_in x fs) = push_in (x @ y) fs"
proof (induction x fs rule: push_in.induct)
  case (3 x f g fs)
  then show ?case by (cases g; cases fs) auto
qed auto

lemma push_in_eq_Nil [simp]: "push_in x fs = [] \<longleftrightarrow> fs = []"
  by (metis length_0_conv length_push_in)

lemma weight_push_in: "fs \<noteq> [] \<Longrightarrow> weight (push_in x fs) = weight fs + length x"
proof (induction x fs rule: push_in.induct)
  case (3 x f g fs)
  then show ?case by (cases f) auto
qed auto

lemma weight_append: "weight (fs @ gs) = weight fs + weight gs"
  by (induction fs rule: weight.induct) auto

lemma push_Nil [simp]: "push [] st = st"
  by (simp add: push_def prod_eq_iff)

lemma push_push [simp]: "push y (push x st) = push (x @ y) st"
  by (simp add: push_def push_in_append)

lemma depth_push [simp]: "length (snd (push x st)) = length (snd st)"
  by (simp add: push_def)

lemma bulk_push [simp]: "bulk (push x st) = bulk st + length x"
  by (simp add: push_def bulk_def weight_push_in)

lemma fits_SomeD: "fits st = Some st' \<Longrightarrow> st' = st \<and> bulk st < 2 ^ 64"
  by (simp add: fits_def split: if_splits)

lemma abs_flush_depth: "abs_flush d st = Some st' \<Longrightarrow> length (snd st') = d"
  by (auto simp: abs_flush_def bind_eq_Some_conv dest!: fits_SomeD split: if_splits)

lemma abs_flush_bulk: "abs_flush d st = Some st' \<Longrightarrow> bulk st' < 2 ^ 64"
  by (auto simp: abs_flush_def bind_eq_Some_conv dest!: fits_SomeD split: if_splits)

lemma abs_flush_flushed: "length (snd st) = d \<Longrightarrow> abs_flush d st = fits st"
  by (simp add: abs_flush_def)

lemma abs_flush_idem: "abs_flush d st = Some st' \<Longrightarrow> abs_flush d st' = Some st'"
  using abs_flush_flushed [OF abs_flush_depth, of d st st'] abs_flush_bulk [of d st st'] by (simp add: fits_def)

text \<open>Two writes are one write of both, a flush at the same depth in between changes nothing.\<close>

lemma abs_add_add: "Option.bind (abs_add d x st) (abs_add d y) = abs_add d (x @ y) st"
proof (cases "abs_flush d st")
  case (Some st')
  then have "length (snd st') = d" by (rule abs_flush_depth)
  with Some show ?thesis by (auto simp: abs_add_def abs_flush_flushed fits_def)
qed (simp add: abs_add_def)

lemma abs_flush_add: "Option.bind (abs_flush d st) (abs_add d y) = abs_add d y st"
  using abs_flush_idem [of d st] by (cases "abs_flush d st") (simp_all add: abs_add_def)

lemma abs_add_flush: "Option.bind (abs_add d x st) (abs_flush d) = abs_add d x st"
proof (cases "abs_flush d st")
  case (Some st')
  then have "length (snd st') = d" by (rule abs_flush_depth)
  with Some show ?thesis by (auto simp: abs_add_def abs_flush_flushed fits_def)
qed (simp add: abs_add_def)

lemma abs_add_Nil: "abs_add d [] st = abs_flush d st"
  using abs_flush_bulk [of d st] by (cases "abs_flush d st") (simp_all add: abs_add_def fits_def)

text \<open>A whole element: open a child, write its body, close it.\<close>

lemma abs_element:
  "Option.bind (Option.bind (abs_open d Asn1 st) (abs_add (Suc d) body)) (abs_flush d) =
     (if length body \<le> 0xFFFFFFFE then abs_add d (der_len (length body) @ body) st else None)"
proof (cases "abs_flush d st")
  case (Some st')
  have d: "length (snd st') = d" using Some by (rule abs_flush_depth)
  let ?o = "(fst st', snd st' @ [(Asn1, [])])"
  have p: "push body ?o = (fst st', snd st' @ [(Asn1, body)])"
  proof -
    have "push_in x (fs @ [(k, s)]) = fs @ [(k, s @ x)]" for x fs k s
      by (induction x fs rule: push_in.induct) auto
    then show ?thesis by (simp add: push_def)
  qed
  have b: "bulk ?o = bulk st' + 1" "bulk (fst st', snd st' @ [(Asn1, body)]) = bulk st' + 1 + length body"
    by (simp_all add: bulk_def weight_append)
  have c: "abs_flush d (fst st', snd st' @ [(Asn1, body)]) =
      (if length body \<le> 0xFFFFFFFE then fits (push (der_len (length body) @ body) st') else None)"
    using d by (simp add: abs_flush_def)
  show ?thesis
    using Some d p b c der_len_bound(1) [of "length body"]
    by (auto simp: abs_open_def abs_add_def abs_flush_flushed fits_def)
qed (simp add: abs_open_def abs_add_def)

section \<open>The simulation\<close>

definition repr :: "CBB \<Rightarrow> builder \<Rightarrow> bool" where
  "repr cbb st \<longleftrightarrow> (\<exists>b rest. base cbb = Some b \<and> buf_ok b \<and> \<not> error b \<and> content b = fst st @ rest \<and>
     layout (length (fst st)) (children cbb) (snd st) rest)"

definition roomy :: "CBB \<Rightarrow> bool" where
  "roomy cbb \<longleftrightarrow> (case base cbb of None \<Rightarrow> False | Some b \<Rightarrow> unlimited b)"

definition poisoned :: "CBB \<Rightarrow> bool" where
  "poisoned cbb \<longleftrightarrow> (case base cbb of None \<Rightarrow> False | Some b \<Rightarrow> error b)"

text \<open>A call implements a reference step at \<open>st\<close>: when it succeeds, so does the step, with the same result;
  when it fails, either the step fails or memory has run out, and then the build is marked as failed.\<close>

definition builds :: "(CBB \<Rightarrow> bool \<times> CBB) \<Rightarrow> (builder \<Rightarrow> builder option) \<Rightarrow> builder \<Rightarrow> bool" where
  "builds f g st \<longleftrightarrow> (\<forall>cbb. repr cbb st \<longrightarrow>
     (case f cbb of
        (True, cbb') \<Rightarrow> \<exists>st'. g st = Some st' \<and> repr cbb' st' \<and> roomy cbb' = roomy cbb
      | (False, cbb') \<Rightarrow> g st = None \<or> poisoned cbb' \<and> \<not> roomy cbb))"

lemma builds_intro:
  assumes "\<And>cbb cbb'. repr cbb st \<Longrightarrow> f cbb = (True, cbb') \<Longrightarrow> \<exists>st'. g st = Some st' \<and> repr cbb' st' \<and> roomy cbb' = roomy cbb"
    and "\<And>cbb cbb'. repr cbb st \<Longrightarrow> f cbb = (False, cbb') \<Longrightarrow> g st = None \<or> poisoned cbb' \<and> \<not> roomy cbb"
  shows "builds f g st"
  unfolding builds_def using assms by (auto split: prod.split bool.split)

lemma builds_True: "builds f g st \<Longrightarrow> repr cbb st \<Longrightarrow> f cbb = (True, cbb') \<Longrightarrow> \<exists>st'. g st = Some st' \<and> repr cbb' st' \<and> roomy cbb' = roomy cbb"
  and builds_False: "builds f g st \<Longrightarrow> repr cbb st \<Longrightarrow> f cbb = (False, cbb') \<Longrightarrow> g st = None \<or> poisoned cbb' \<and> \<not> roomy cbb"
  unfolding builds_def by fastforce+

lemma builds_both:
  assumes "builds f g st" "\<And>st'. g st = Some st' \<Longrightarrow> builds f' g' st'"
  shows "builds (both f f') (\<lambda>st. Option.bind (g st) g') st"
proof (rule builds_intro)
  fix cbb cbb' assume r: "repr cbb st" "both f f' cbb = (True, cbb')"
  then obtain cbb1 where f: "f cbb = (True, cbb1)" "f' cbb1 = (True, cbb')" by (auto simp: both_def split: prod.splits if_splits)
  from builds_True [OF assms(1) r(1) f(1)] obtain st1 where s: "g st = Some st1" "repr cbb1 st1" "roomy cbb1 = roomy cbb" by blast
  from builds_True [OF assms(2) [OF s(1)] s(2) f(2)] s
  show "\<exists>st'. Option.bind (g st) g' = Some st' \<and> repr cbb' st' \<and> roomy cbb' = roomy cbb" by simp
next
  fix cbb cbb' assume r: "repr cbb st" "both f f' cbb = (False, cbb')"
  then consider "f cbb = (False, cbb')" | cbb1 where "f cbb = (True, cbb1)" "f' cbb1 = (False, cbb')"
    by (auto simp: both_def split: prod.splits if_splits)
  then show "Option.bind (g st) g' = None \<or> poisoned cbb' \<and> \<not> roomy cbb"
  proof cases
    case 1
    with builds_False [OF assms(1) r(1)] show ?thesis by auto
  next
    case (2 cbb1)
    from builds_True [OF assms(1) r(1) 2(1)] obtain st1 where s: "g st = Some st1" "repr cbb1 st1" "roomy cbb1 = roomy cbb" by blast
    from builds_False [OF assms(2) [OF s(1)] s(2) 2(2)] s show ?thesis by simp
  qed
qed

lemma builds_cong: "builds f g st \<Longrightarrow> g st = g' st \<Longrightarrow> builds f g' st"
  by (rule builds_intro) (metis builds_True, metis builds_False)

definition frame_at :: "nat \<Rightarrow> pending \<Rightarrow> frame_kind \<Rightarrow> bool" where
  "frame_at p c k \<longleftrightarrow> kind_of c = k \<and> 1 \<le> unat (pending_len_len c) \<and> unat (pending_len_len c) \<le> 8 \<and>
     (k = Asn1 \<longrightarrow> pending_len_len c = 1) \<and> unat (offset c) = p"

lemma frame_at_room: "frame_at p c k \<Longrightarrow> unat (pending_len_len c) = room k"
  by (auto simp: frame_at_def kind_of_def split: if_splits)

lemma layout_ConsE:
  assumes "layout p (c # cs) ((k, s) # fs) rest"
  obtains h rest' where "frame_at p c k" "rest = h @ s @ rest'" "length h = room k" "layout (p + length h + length s) cs fs rest'"
proof -
  from assms have f: "frame_at p c k" unfolding layout.simps frame_at_def by blast
  with assms that frame_at_room [OF f] show thesis unfolding layout.simps by metis
qed

lemma layout_ConsI:
  assumes "frame_at p c k" "length h = room k" "layout (p + length h + length s) cs fs rest"
  shows "layout p (c # cs) ((k, s) # fs) (h @ s @ rest)"
proof -
  have "unat (pending_len_len c) = length h" using assms frame_at_room by metis
  then have "\<exists>h' rest'. h @ s @ rest = h' @ s @ rest' \<and> length h' = unat (pending_len_len c) \<and> layout (p + length h' + length s) cs fs rest'"
    using assms(3) by (intro exI [of _ h] exI [of _ rest]) simp
  with assms(1) show ?thesis unfolding layout.simps frame_at_def by blast
qed

declare layout.simps(2) [simp del]

lemma layout_length: "layout p cs fs rest \<Longrightarrow> length cs = length fs \<and> length rest = weight fs"
proof (induction p cs fs rest rule: layout.induct)
  case (2 p c cs k s fs rest)
  from "2.prems" obtain h rest' where h: "frame_at p c k" "rest = h @ s @ rest'" "length h = room k"
      "layout (p + length h + length s) cs fs rest'" by (rule layout_ConsE)
  from "2.IH" [OF h(4)] h(2,3) show ?case by simp
qed simp_all

lemma layout_split:
  "length cs = length fs \<Longrightarrow> layout p (cs @ cs') (fs @ fs') rest \<longleftrightarrow>
     (\<exists>r r'. rest = r @ r' \<and> layout p cs fs r \<and> layout (p + length r) cs' fs' r')"
proof (induction p cs fs rest rule: layout.induct)
  case (2 p c cs k s fs rest)
  have IH: "layout (p + length h + length s) (cs @ cs') (fs @ fs') rest \<longleftrightarrow>
     (\<exists>r r'. rest = r @ r' \<and> layout (p + length h + length s) cs fs r \<and> layout (p + length h + length s + length r) cs' fs' r')"
    for h :: bytes and rest by (rule "2.IH") (use "2.prems" in simp)
  show ?case (is "?L = ?R")
  proof
    assume ?L
    then obtain h rest' where h: "frame_at p c k" "rest = h @ s @ rest'" "length h = room k"
        "layout (p + length h + length s) (cs @ cs') (fs @ fs') rest'" unfolding append_Cons by (rule layout_ConsE)
    from h(4) IH obtain r r' where r: "rest' = r @ r'" "layout (p + length h + length s) cs fs r"
        "layout (p + length h + length s + length r) cs' fs' r'" by blast
    from layout_ConsI [OF h(1,3) r(2)] r h(2) show ?R
      by (intro exI [of _ "h @ s @ r"] exI [of _ r']) (simp add: add.assoc)
  next
    assume ?R
    then obtain r r' where r: "rest = r @ r'" "layout p (c # cs) ((k, s) # fs) r" "layout (p + length r) cs' fs' r'" by blast
    from r(2) obtain h rest' where h: "frame_at p c k" "r = h @ s @ rest'" "length h = room k"
        "layout (p + length h + length s) cs fs rest'" by (rule layout_ConsE)
    have "layout (p + length h + length s) (cs @ cs') (fs @ fs') (rest' @ r')"
      using h(2,4) r(3) unfolding IH by (intro exI [of _ rest'] exI [of _ r']) (simp add: add.assoc)
    from layout_ConsI [OF h(1,3) this] r(1) h(2) show ?L by simp
  qed
qed auto

lemma layout_push_in: "layout p cs fs rest \<Longrightarrow> fs \<noteq> [] \<Longrightarrow> layout p cs (push_in x fs) (rest @ x)"
proof (induction p cs fs rest rule: layout.induct)
  case (2 p c cs k s fs rest)
  from "2.prems"(1) obtain h rest' where h: "frame_at p c k" "rest = h @ s @ rest'" "length h = room k"
      "layout (p + length h + length s) cs fs rest'" by (rule layout_ConsE)
  show ?case
  proof (cases fs)
    case Nil
    with h(4) have "cs = []" "rest' = []" by (cases cs; simp)+
    with layout_ConsI [OF h(1,3), of "s @ x" "[]" "[]" "[]"] h(2) Nil show ?thesis by simp
  next
    case (Cons f fs')
    with "2.IH" [OF h(4)] have "layout (p + length h + length s) cs (push_in x fs) (rest' @ x)" by simp
    from layout_ConsI [OF h(1,3) this] h(2) Cons show ?thesis by simp
  qed
qed auto

lemma repr_push:
  assumes "base cbb = Some b" "buf_ok b" "\<not> error b" "content b = (fst st @ rest) @ x"
    "layout (length (fst st)) (children cbb) (snd st) rest"
  shows "repr cbb (push x st)"
  using assms layout_push_in [OF assms(5), of x] layout_length [OF assms(5)] by (auto simp: repr_def push_def)

lemma repr_bulk: "repr cbb st \<Longrightarrow> bulk st < 2 ^ 64"
proof -
  assume "repr cbb st"
  then obtain b rest where "buf_ok b" "content b = fst st @ rest" "layout (length (fst st)) (children cbb) (snd st) rest"
    by (auto simp: repr_def)
  with length_content [of b] layout_length unat_lt_u64 [of "len b"] show ?thesis by (fastforce simp: bulk_def)
qed

lemma builds_flush: "builds (CBB_flush d) (abs_flush d) st"
  unfolding builds_def
proof (intro allI impI)
  fix cbb assume "repr cbb st"
  then obtain b rest where b: "base cbb = Some b" "buf_ok b" "\<not> error b" "content b = fst st @ rest"
    "layout (length (fst st)) (children cbb) (snd st) rest"
    by (auto simp: repr_def)
  let ?goal = "case CBB_flush d cbb of
      (True, cbb') \<Rightarrow> \<exists>st'. abs_flush d st = Some st' \<and> repr cbb' st' \<and> roomy cbb' = roomy cbb
    | (False, cbb') \<Rightarrow> abs_flush d st = None \<or> poisoned cbb' \<and> \<not> roomy cbb"
  have lc: "length (children cbb) = length (snd st)" using layout_length [OF b(5)] by simp
  show ?goal
  proof (cases "length (snd st) < d")
    case True
    with b(1) lc show ?thesis by (simp add: CBB_flush_def abs_flush_def)
  next
    case False
    obtain r r' where r: "rest = r @ r'" "layout (length (fst st)) (take d (children cbb)) (take d (snd st)) r"
        "layout (length (fst st @ r)) (drop d (children cbb)) (drop d (snd st)) r'"
      using layout_split [of "take d (children cbb)" "take d (snd st)" "length (fst st)" "drop d (children cbb)" "drop d (snd st)" rest] b(5) lc
      by auto
    have cb: "content b = (fst st @ r) @ r'" using b(4) r(1) by simp
    obtain ok b' cs' where f: "flush_chain b (drop d (children cbb)) = (ok, b', cs')" by (cases "flush_chain b (drop d (children cbb))") auto
    have cf: "CBB_flush d cbb = (ok, cbb\<lparr>base := Some b', children := take d (children cbb) @ cs'\<rparr>)"
      using False lc b(1) f by (simp add: CBB_flush_def)
    show ?thesis
    proof (cases ok)
      case True
      with flush_chain_ok [OF b(2) cb r(3)] f obtain t where t: "close_frames (drop d (snd st)) = Some t"
          "content b' = (fst st @ r) @ t" "buf_ok b'" "cs' = []" "\<not> error b'" "same_env b b'" by auto
      have rp: "repr (cbb\<lparr>base := Some b', children := take d (children cbb) @ cs'\<rparr>) (push t (fst st, take d (snd st)))"
        using t r(2) by (intro repr_push [where b = b' and rest = r]) simp_all
      have "roomy (cbb\<lparr>base := Some b', children := take d (children cbb) @ cs'\<rparr>) = roomy cbb"
        using b(1) same_env_unlimited [OF t(6)] by (simp add: roomy_def)
      with rp repr_bulk [OF rp] t(1) cf True False show ?thesis by (simp add: abs_flush_def fits_def)
    next
      case bad: False
      from flush_chain_False [OF b(2) cb r(3)] f bad b(3) have e: "error b'"
        "unlimited b \<longrightarrow> (\<forall>t. close_frames (drop d (snd st)) = Some t \<longrightarrow> 2 ^ 64 \<le> length (fst st @ r) + length t)" by auto
      have w: "length (fst st @ r) = bulk (fst st, take d (snd st))" using layout_length [OF r(2)] by (simp add: bulk_def)
      have "abs_flush d st = None" if "unlimited b"
        using e(2) that w False by (cases "close_frames (drop d (snd st))") (auto simp: abs_flush_def fits_def)
      with e(1) cf bad b(1) show ?thesis by (auto simp: poisoned_def roomy_def)
    qed
  qed
qed

section \<open>Writes\<close>

lemma builds_on_base:
  assumes "\<And>b b'. buf_ok b \<Longrightarrow> \<not> error b \<Longrightarrow> f b = (True, b') \<Longrightarrow> buf_ok b' \<and> \<not> error b' \<and> same_env b b' \<and> content b' = content b @ x \<and> ok"
    and "\<And>b b'. buf_ok b \<Longrightarrow> f b = (False, b') \<Longrightarrow> error b' \<and> \<not> (unlimited b \<and> length (content b @ x) < 2 ^ 64 \<and> ok)"
  shows "builds (on_base f) (\<lambda>st. if ok then fits (push x st) else None) st"
proof (rule builds_intro)
  fix cbb cbb' assume r: "repr cbb st" "on_base f cbb = (True, cbb')"
  then obtain b rest b' where b: "base cbb = Some b" "buf_ok b" "\<not> error b" "content b = fst st @ rest"
      "layout (length (fst st)) (children cbb) (snd st) rest" "f b = (True, b')" "cbb' = cbb\<lparr>base := Some b'\<rparr>"
    by (auto simp: repr_def on_base_def split: prod.splits)
  note b' = assms(1) [OF b(2,3,6)]
  have rp: "repr cbb' (push x st)" using b b' by (intro repr_push [where b = b' and rest = rest]) simp_all
  have "roomy cbb' = roomy cbb" using b(1,7) b' same_env_unlimited by (auto simp: roomy_def)
  with rp repr_bulk [OF rp] b' show "\<exists>st'. (if ok then fits (push x st) else None) = Some st' \<and> repr cbb' st' \<and> roomy cbb' = roomy cbb"
    by (simp add: fits_def)
next
  fix cbb cbb' assume r: "repr cbb st" "on_base f cbb = (False, cbb')"
  then obtain b rest b' where b: "base cbb = Some b" "buf_ok b" "content b = fst st @ rest"
      "layout (length (fst st)) (children cbb) (snd st) rest" "f b = (False, b')" "cbb' = cbb\<lparr>base := Some b'\<rparr>"
    by (auto simp: repr_def on_base_def split: prod.splits)
  have "length (content b @ x) = bulk (push x st)" using layout_length [OF b(4)] b(3) by (simp add: bulk_def [of st])
  with assms(2) [OF b(2,5)] b(1,6) show "(if ok then fits (push x st) else None) = None \<or> poisoned cbb' \<and> \<not> roomy cbb"
    by (auto simp: poisoned_def roomy_def fits_def)
qed

lemma add_content:
  assumes "buf_ok b" "cbb_buffer_add b n = (True, b')" "length x = unat n"
  shows "content (b'\<lparr>buf := memcpy_at (buf b') (unat (len b)) x\<rparr>) = content b @ x"
    "buf_ok (b'\<lparr>buf := memcpy_at (buf b') (unat (len b)) x\<rparr>)"
proof -
  note a = add_True [OF assms(1,2)]
  obtain pad where pad: "buf b' = buf b @ pad" using a(2) by blast
  have lb: "unat (len b) \<le> length (buf b)" using assms(1) by (simp add: buf_ok_def)
  have "content b' = content b @ drop (unat (len b)) (content b') @ []"
    using pad lb a(3) by (simp add: content_def drop_take) (metis append_take_drop_id diff_add_inverse take_add)
  moreover have "length (drop (unat (len b)) (content b')) = length x" using length_content [OF a(1)] a(3) assms(3) by simp
  ultimately show "content (b'\<lparr>buf := memcpy_at (buf b') (unat (len b)) x\<rparr>) = content b @ x"
      "buf_ok (b'\<lparr>buf := memcpy_at (buf b') (unat (len b)) x\<rparr>)"
    using content_memcpy [OF a(1), of "content b" _ "[]" x] length_content [OF assms(1)] by auto
qed

lemma append_spec:
  assumes "length x < 2 ^ 64" "buf_ok b"
  shows append_True: "\<not> error b \<Longrightarrow> buffer_append x b = (True, b') \<Longrightarrow>
      buf_ok b' \<and> \<not> error b' \<and> same_env b b' \<and> content b' = content b @ x"
    and append_False: "buffer_append x b = (False, b') \<Longrightarrow> error b' \<and> \<not> (unlimited b \<and> length (content b @ x) < 2 ^ 64)"
proof -
  have u: "unat (word_of_nat (length x) :: u64) = length x" using assms by (intro unat_word_of_nat) simp
  {
    assume b: "\<not> error b" "buffer_append x b = (True, b')"
    then obtain c where c: "cbb_buffer_add b (word_of_nat (length x)) = (True, c)" "b' = c\<lparr>buf := memcpy_at (buf c) (unat (len b)) x\<rparr>"
      by (auto simp: buffer_append_def split: prod.splits bool.splits)
    from add_content [OF assms(2) c(1), of x] add_True [OF assms(2) c(1)] u b(1) c(2)
    show "buf_ok b' \<and> \<not> error b' \<and> same_env b b' \<and> content b' = content b @ x" by (simp add: same_env_def)
  next
    assume "buffer_append x b = (False, b')"
    then have "cbb_buffer_add b (word_of_nat (length x)) = (False, b')" by (auto simp: buffer_append_def split: prod.splits bool.splits)
    from add_False [OF assms(2) this] u length_content [OF assms(2)]
    show "error b' \<and> \<not> (unlimited b \<and> length (content b @ x) < 2 ^ 64)" by simp
  }
qed

lemma builds_append:
  assumes "length x < 2 ^ 64"
  shows "builds (on_base (buffer_append x)) (\<lambda>st. fits (push x st)) st"
proof (rule builds_cong [OF builds_on_base [where ok = True and x = x]])
  fix b b' assume "buf_ok b" "\<not> error b" "buffer_append x b = (True, b')"
  from append_True [OF assms this] show "buf_ok b' \<and> \<not> error b' \<and> same_env b b' \<and> content b' = content b @ x \<and> True" by simp
next
  fix b b' assume "buf_ok b" "buffer_append x b = (False, b')"
  from append_False [OF assms this] show "error b' \<and> \<not> (unlimited b \<and> length (content b @ x) < 2 ^ 64 \<and> True)" by simp
qed simp

lemma content_error: "content (b\<lparr>error := e\<rparr>) = content b" and buf_ok_error: "buf_ok (b\<lparr>error := e\<rparr>) = buf_ok b"
  by (simp_all add: content_def buf_ok_def)

lemma add_u_step:
  assumes "1 \<le> n" "n \<le> 8" "buf_ok b" "cbb_buffer_add b (word_of_nat n) = (True, c)"
  shows "cbb_buffer_add_u b v n = (unat v < 256 ^ n,
     c\<lparr>buf := memcpy_at (buf c) (unat (len b)) (be_bytes n (unat v)), error := error c \<or> \<not> unat v < 256 ^ n\<rparr>)"
proof -
  have u: "unat (word_of_nat n :: u64) = n" using assms(2) by (intro unat_word_of_nat) simp
  have "unat v div 256 ^ n < 2 ^ 64" using unat_lt_u64 [of v] div_le_dividend [of "unat v" "256 ^ n"] by linarith
  then have z: "(word_of_nat (unat v div 256 ^ n) :: u64) = 0 \<longleftrightarrow> unat v < 256 ^ n"
    using unat_word_of_nat [of "unat v div 256 ^ n", where 'a = 64] by (auto simp: div_eq_0_iff simp flip: unat_eq_zero)
  have "unat (len b) + n \<le> length (buf c)" using add_True [OF assms(3,4)] u by (simp add: buf_ok_def)
  from write_be_eq [OF this, of v] assms(1,4) z show ?thesis by (simp add: cbb_buffer_add_u_def Let_def)
qed

lemma add_u_spec:
  assumes n: "1 \<le> n" "n \<le> 8" and b: "buf_ok b"
  shows add_u_True: "\<not> error b \<Longrightarrow> cbb_buffer_add_u b v n = (True, b') \<Longrightarrow>
      buf_ok b' \<and> \<not> error b' \<and> same_env b b' \<and> content b' = content b @ be_bytes n (unat v) \<and> unat v < 256 ^ n"
    and add_u_False: "cbb_buffer_add_u b v n = (False, b') \<Longrightarrow>
      error b' \<and> \<not> (unlimited b \<and> length (content b @ be_bytes n (unat v)) < 2 ^ 64 \<and> unat v < 256 ^ n)"
proof -
  have u: "unat (word_of_nat n :: u64) = n" using n(2) by (intro unat_word_of_nat) simp
  obtain ok c where c: "cbb_buffer_add b (word_of_nat n) = (ok, c)" by (cases "cbb_buffer_add b (word_of_nat n)")
  {
    assume e: "\<not> error b" and r: "cbb_buffer_add_u b v n = (True, b')"
    with c n(1) have c: "cbb_buffer_add b (word_of_nat n) = (True, c)" by (cases ok) (simp_all add: cbb_buffer_add_u_def)
    have v: "unat v < 256 ^ n"
      and b': "b' = c\<lparr>buf := memcpy_at (buf c) (unat (len b)) (be_bytes n (unat v)), error := error c\<rparr>"
      using add_u_step [OF n b c, of v] r by simp_all
    from v add_content [OF b c, of "be_bytes n (unat v)"] add_True [OF b c] u e
    show "buf_ok b' \<and> \<not> error b' \<and> same_env b b' \<and> content b' = content b @ be_bytes n (unat v) \<and> unat v < 256 ^ n"
      unfolding b' by (simp add: same_env_def content_error buf_ok_error)
  next
    assume r: "cbb_buffer_add_u b v n = (False, b')"
    show "error b' \<and> \<not> (unlimited b \<and> length (content b @ be_bytes n (unat v)) < 2 ^ 64 \<and> unat v < 256 ^ n)"
    proof (cases ok)
      case True
      with add_u_step [OF n b, of c v] c r show ?thesis by auto
    next
      case False
      with c r n(1) have "cbb_buffer_add b (word_of_nat n) = (False, b')" by (simp add: cbb_buffer_add_u_def)
      from add_False [OF b this] u length_content [OF b] show ?thesis by auto
    qed
  }
qed

lemma builds_add_u:
  assumes "1 \<le> n" "n \<le> 8"
  shows "builds (on_base (\<lambda>b. cbb_buffer_add_u b v n)) (\<lambda>st. if unat v < 256 ^ n then fits (push (be_bytes n (unat v)) st) else None) st"
  by (rule builds_on_base; (rule add_u_True [OF assms] add_u_False [OF assms]; assumption))

text \<open>Opening a child.\<close>

definition open_step :: "(cbb_buffer \<Rightarrow> bool \<times> cbb_buffer) \<Rightarrow> nat \<Rightarrow> u8 \<Rightarrow> bool \<Rightarrow> CBB \<Rightarrow> bool \<times> CBB" where
  "open_step f d n a cbb =
     (case base cbb of
        None \<Rightarrow> (False, cbb)
      | Some b \<Rightarrow>
          (case f b of
             (False, b') \<Rightarrow> (False, cbb\<lparr>base := Some b'\<rparr>)
           | (True, b') \<Rightarrow> (True, open_child d \<lparr>offset = len b, pending_len_len = n, pending_is_asn1 = a\<rparr> (cbb\<lparr>base := Some b'\<rparr>))))"

lemma builds_open_step:
  fixes n :: u8 and a :: bool
  defines "k \<equiv> (if a then Asn1 else Fixed (unat n))"
  assumes d: "length (snd st) = d" and n: "1 \<le> unat n" "unat n \<le> 8" "a \<Longrightarrow> n = 1" and x: "length x = unat n"
    and f: "\<And>b b'. buf_ok b \<Longrightarrow> \<not> error b \<Longrightarrow> f b = (True, b') \<Longrightarrow> buf_ok b' \<and> \<not> error b' \<and> same_env b b' \<and> content b' = content b @ x"
    "\<And>b b'. buf_ok b \<Longrightarrow> f b = (False, b') \<Longrightarrow> error b' \<and> \<not> (unlimited b \<and> length (content b @ x) < 2 ^ 64)"
  shows "builds (open_step f d n a) (\<lambda>st. fits (fst st, snd st @ [(k, [])])) st"
proof (rule builds_intro)
  have rk: "room k = unat n" using n(3) by (auto simp: k_def)
  {
    fix cbb cbb' assume "repr cbb st" "open_step f d n a cbb = (True, cbb')"
    then obtain b rest b' where b: "base cbb = Some b" "buf_ok b" "\<not> error b" "content b = fst st @ rest"
        "layout (length (fst st)) (children cbb) (snd st) rest" "f b = (True, b')"
        "cbb' = open_child d \<lparr>offset = len b, pending_len_len = n, pending_is_asn1 = a\<rparr> (cbb\<lparr>base := Some b'\<rparr>)"
      by (auto simp: repr_def open_step_def split: prod.splits bool.splits)
    note b' = f(1) [OF b(2,3,6)]
    let ?p = "\<lparr>offset = len b, pending_len_len = n, pending_is_asn1 = a\<rparr>"
    have lc: "length (children cbb) = length (snd st)" using layout_length [OF b(5)] by simp
    have fr: "frame_at (length (fst st) + length rest) ?p k"
      using n length_content [OF b(2)] b(4) by (auto simp: frame_at_def k_def kind_of_def)
    have "layout (length (fst st)) (children cbb @ [?p]) (snd st @ [(k, [])]) (rest @ x)"
      unfolding layout_split [OF lc]
      by (intro exI [of _ rest] exI [of _ x] conjI refl b(5)) (use layout_ConsI [OF fr, of x "[]" "[]" "[]" "[]"] x rk in simp)
    then have rp: "repr cbb' (fst st, snd st @ [(k, [])])" using b b' lc d by (simp add: repr_def open_child_def)
    have "roomy cbb' = roomy cbb" using b(1,7) b' same_env_unlimited by (auto simp: roomy_def open_child_def)
    with rp repr_bulk [OF rp] show "\<exists>st'. fits (fst st, snd st @ [(k, [])]) = Some st' \<and> repr cbb' st' \<and> roomy cbb' = roomy cbb"
      by (simp add: fits_def)
  next
    fix cbb cbb' assume "repr cbb st" "open_step f d n a cbb = (False, cbb')"
    then obtain b rest b' where b: "base cbb = Some b" "buf_ok b" "content b = fst st @ rest"
        "layout (length (fst st)) (children cbb) (snd st) rest" "f b = (False, b')" "cbb' = cbb\<lparr>base := Some b'\<rparr>"
      by (auto simp: repr_def open_step_def split: prod.splits bool.splits)
    have "length (content b @ x) = bulk (fst st, snd st @ [(k, [])])"
      using layout_length [OF b(4)] b(3) x rk by (simp add: bulk_def weight_append)
    with f(2) [OF b(2,5)] b(1,6) show "fits (fst st, snd st @ [(k, [])]) = None \<or> poisoned cbb' \<and> \<not> roomy cbb"
      by (auto simp: poisoned_def roomy_def fits_def)
  }
qed

section \<open>The operations\<close>

lemma builds_add_bytes:
  assumes "length x < 2 ^ 64"
  shows "builds (CBB_add_bytes d x) (abs_add d x) st"
  unfolding CBB_add_bytes_def abs_add_def by (rule builds_both [OF builds_flush builds_append [OF assms]])

lemma builds_add_zeros: "builds (CBB_add_zeros d n) (abs_add d (replicate (unat n) 0)) st"
  unfolding CBB_add_zeros_def abs_add_def
  by (rule builds_both [OF builds_flush builds_append]) (use unat_lt_u64 [of n] in simp)

lemma builds_CBB_add_u:
  assumes "1 \<le> n" "n \<le> 8"
  shows "builds (CBB_add_u d v n) (\<lambda>st. if unat v < 256 ^ n then abs_add d (be_bytes n (unat v)) st else None) st"
  unfolding CBB_add_u_def
  by (rule builds_cong [OF builds_both [OF builds_flush builds_add_u [OF assms]]]) (auto simp: abs_add_def)

lemma builds_add_u8: "builds (CBB_add_u8 d v) (abs_add d [v]) st"
  unfolding CBB_add_u8_def
  by (rule builds_cong [OF builds_CBB_add_u]) (use unat_lt_u8 [of v] in \<open>auto simp: be_bytes_Suc\<close>)

lemma builds_open_fixed:
  assumes "1 \<le> unat n" "unat n \<le> 8"
  shows "builds (cbb_add_length_prefixed d n) (abs_open d (Fixed (unat n))) st"
proof -
  let ?x = "replicate (unat n) (0 :: u8)"
  have w: "word_of_nat (unat n) = (ucast n :: u64)" by simp
  have e: "cbb_add_length_prefixed d n = both (CBB_flush d) (open_step (buffer_append ?x) d n False)"
    unfolding cbb_add_length_prefixed_def
    by (intro arg_cong2 [where f = both] refl ext)
      (simp add: open_step_def buffer_append_def w split: option.splits prod.splits bool.splits)
  have s: "length ?x < 2 ^ 64" using assms(2) by simp
  show ?thesis unfolding e abs_open_def
  proof (rule builds_both [OF builds_flush])
    fix st' assume "abs_flush d st = Some st'"
    then have "length (snd st') = d" by (rule abs_flush_depth)
    from builds_open_step [where a = False, OF this assms _ _ append_True [OF s] append_False [OF s]]
    show "builds (open_step (buffer_append ?x) d n False) (\<lambda>st. fits (fst st, snd st @ [(Fixed (unat n), [])])) st'" by simp
  qed
qed

text \<open>A run of octets.\<close>

lemma builds_add_octets: "bs \<noteq> [] \<Longrightarrow> builds (add_octets d bs) (abs_add d bs) st"
proof (induction bs arbitrary: st)
  case (Cons b bs)
  show ?case
  proof (cases "bs = []")
    case True
    have "add_octets d [b] = CBB_add_u8 d b" by (auto simp: fun_eq_iff both_def split: prod.splits)
    then show ?thesis using True builds_add_u8 by simp
  next
    case False
    have "add_octets d (b # bs) = both (CBB_add_u8 d b) (add_octets d bs)" by (simp add: fun_eq_iff)
    then show ?thesis using builds_cong [OF builds_both [OF builds_add_u8 Cons.IH [OF False]], of d b] abs_add_add [of d "[b]" _ bs] by simp
  qed
qed simp

definition base128_list :: "nat \<Rightarrow> u64 \<Rightarrow> bytes" where
  "base128_list n v = map (\<lambda>i. let byte = ucast (drop_bit (7 * i) v AND 0x7F) in if i \<noteq> 0 then byte OR 0x80 else byte) (rev [0..<n])"

lemma base128_octets_eq: "base128_octets d n v = add_octets d (base128_list n v)"
proof (induction n)
  case (Suc n)
  show ?case
    unfolding fun_eq_iff base128_octets.simps Suc by (simp add: base128_list_def)
qed (simp add: base128_list_def fun_eq_iff)

lemma rev_upt_Suc: "rev [0..<Suc n] = map Suc (rev [0..<n]) @ [0]"
  unfolding upt_conv_Cons [OF zero_less_Suc] rev.simps map_Suc_upt [symmetric] rev_map by simp

definition base128_hi_list :: "nat \<Rightarrow> u64 \<Rightarrow> bytes" where
  "base128_hi_list n v = map (\<lambda>i. ucast (drop_bit (7 * i) v AND 0x7F) OR 0x80) (rev [0..<n])"

lemma low_septet: "(ucast (v AND 0x7F :: u64) :: u8) = word_of_nat (unat v mod 128)"
  and low_septet_hi: "(ucast (v AND 0x7F :: u64) :: u8) OR 0x80 = word_of_nat (128 + unat v mod 128)" for v :: u64
proof -
  have "v AND 0x7F = take_bit 7 v" by (simp add: take_bit_eq_mask mask_eq_exp_minus_1)
  then have "unat (v AND 0x7F) = unat v mod 128" by (simp add: take_bit_eq_mod unat_mod)
  then show a: "(ucast (v AND 0x7F) :: u8) = word_of_nat (unat v mod 128)"
    by (metis of_nat_unat)
  have "(word_of_nat (unat v mod 128) :: u8) AND 0x80 = 0"
    by (simp add: high_bit word_less_nat_alt)
  then have "(word_of_nat (unat v mod 128) :: u8) OR 0x80 = word_of_nat (unat v mod 128) + 0x80"
    by (simp add: disjunctive_add_eq_or)
  then show "(ucast (v AND 0x7F) :: u8) OR 0x80 = word_of_nat (128 + unat v mod 128)" by (simp add: a add.commute)
qed

lemma base128_hi_list_Suc: "base128_hi_list (Suc n) v = base128_hi_list n (drop_bit 7 v) @ [word_of_nat (128 + unat v mod 128)]"
  by (simp add: base128_hi_list_def rev_upt_Suc low_septet_hi drop_bit_drop_bit add.commute del: upt_Suc of_nat_add)

lemma base128_hi_list_eq: "base128_hi_list (base128_len v) v = base128_hi (unat v)"
proof (induction v rule: base128_len.induct)
  case (1 v)
  show ?case
  proof (cases "v = 0")
    case False
    then have l: "base128_len v = Suc (base128_len (drop_bit 7 v))" by (simp add: base128_len.simps [of v] word_gt_0)
    have "unat (drop_bit 7 v) = unat v div 128" by (simp add: drop_bit_eq_div unat_div)
    with 1 False show ?thesis
      unfolding l base128_hi_list_Suc by (simp add: word_gt_0 base128_hi.simps [of "unat v"] unat_eq_zero del: of_nat_add)
  qed (simp add: base128_len.simps base128_hi_list_def)
qed

lemma add_base128_integer_eq: "add_base128_integer d v = add_octets d (base128 (unat v))"
proof -
  define n where "n = base128_len (drop_bit 7 v)"
  have m: "(if base128_len v = 0 then 1 else base128_len v) = Suc n"
  proof (cases "v = 0")
    case False
    then show ?thesis by (simp add: n_def base128_len.simps [of v] word_gt_0)
  qed (simp add: n_def base128_len.simps)
  have "base128_list (Suc n) v = base128_hi_list n (drop_bit 7 v) @ [word_of_nat (unat v mod 128)]"
    by (simp add: base128_list_def base128_hi_list_def rev_upt_Suc low_septet drop_bit_drop_bit add.commute Let_def del: upt_Suc)
  also have "\<dots> = base128 (unat v)"
    unfolding n_def base128_hi_list_eq by (simp add: base128_def drop_bit_eq_div unat_div)
  finally show ?thesis using m by (simp add: add_base128_integer_def base128_octets_eq Let_def)
qed

section \<open>Elements\<close>

text \<open>What \<open>CBB_add_asn1\<close> does to the reference builder.\<close>

definition abs_asn1 :: "nat \<Rightarrow> u32 \<Rightarrow> builder \<Rightarrow> builder option" where
  "abs_asn1 d tg st = Option.bind (abs_add d (der_tag tg) st) (abs_open d Asn1)"

lemma flushed_add_u8:
  assumes "repr cbb st" "length (snd st) = d"
  shows "CBB_add_u8 d v cbb = on_base (\<lambda>b. cbb_buffer_add_u b (ucast v) 1) cbb"
proof -
  obtain b rest where b: "base cbb = Some b" "\<not> error b" "layout (length (fst st)) (children cbb) (snd st) rest"
    using assms(1) by (auto simp: repr_def)
  then have "length (children cbb) = d" using layout_length assms(2) by metis
  with b have "CBB_flush d cbb = (True, cbb)" by (simp add: CBB_flush_def)
  then show ?thesis by (simp add: CBB_add_u8_def CBB_add_u_def both_def)
qed

lemma builds_fun_cong:
  assumes "builds f g st" "\<And>cbb. repr cbb st \<Longrightarrow> f cbb = f' cbb"
  shows "builds f' g st"
  by (rule builds_intro) (use assms builds_True builds_False in metis)+

lemma builds_add_tag:
  "builds (if 0x1F \<le> tg AND CBS_ASN1_TAG_NUMBER_MASK
           then both (CBB_add_u8 d (ucast (drop_bit CBS_ASN1_TAG_SHIFT tg AND 0xE0) OR 0x1F))
                  (add_base128_integer d (ucast (tg AND CBS_ASN1_TAG_NUMBER_MASK)))
           else CBB_add_u8 d (ucast (drop_bit CBS_ASN1_TAG_SHIFT tg AND 0xE0) OR ucast (tg AND CBS_ASN1_TAG_NUMBER_MASK)))
     (abs_add d (der_tag tg)) st"
proof (cases "31 \<le> tag_num tg")
  case True
  have "both (CBB_add_u8 d (class_bits tg OR 0x1F)) (add_octets d (base128 (tag_num tg))) = add_octets d (der_tag tg)"
    using True by (simp add: der_tag_def fun_eq_iff)
  moreover have "der_tag tg \<noteq> []" using der_tag_bound [of tg] by auto
  ultimately show ?thesis
    using True builds_add_octets [of "der_tag tg" d st]
    by (auto simp: add_base128_integer_eq class_bits_def tag_num_def word_le_nat_alt CBS_ASN1_TAG_SHIFT_def)
next
  case False
  then show ?thesis
    using builds_add_u8 [of d "class_bits tg OR word_of_nat (tag_num tg)" st]
    by (simp add: der_tag_def class_bits_def tag_num_def word_le_nat_alt CBS_ASN1_TAG_SHIFT_def)
qed

lemma builds_add_asn1: "builds (CBB_add_asn1 d tg) (abs_asn1 d tg) st"
proof -
  let ?last = "\<lambda>cbb. case base cbb of
             None \<Rightarrow> (False, cbb)
           | Some b \<Rightarrow>
               (case CBB_add_u8 d 0 cbb of
                  (False, cbb') \<Rightarrow> (False, cbb')
                | (True, cbb') \<Rightarrow> (True, open_child d \<lparr>offset = len b, pending_len_len = 1, pending_is_asn1 = True\<rparr> cbb'))"
  have opn: "builds ?last (abs_open d Asn1) st'" if "length (snd st') = d" "bulk st' < 2 ^ 64" for st'
  proof -
    have one: "1 \<le> (1 :: nat)" "1 \<le> (8 :: nat)" by simp_all
    have "builds (open_step (\<lambda>b. cbb_buffer_add_u b 0 1) d 1 True) (\<lambda>st. fits (fst st, snd st @ [(if True then Asn1 else Fixed (unat (1 :: u8)), [])])) st'"
    proof (rule builds_open_step [where x = "be_bytes 1 0"])
      fix b b' assume "buf_ok b" "\<not> error b" "cbb_buffer_add_u b 0 1 = (True, b')"
      from add_u_True [OF one this] show "buf_ok b' \<and> \<not> error b' \<and> same_env b b' \<and> content b' = content b @ be_bytes 1 0" by simp
    next
      fix b b' assume "buf_ok b" "cbb_buffer_add_u b 0 1 = (False, b')"
      from add_u_False [OF one this] show "error b' \<and> \<not> (unlimited b \<and> length (content b @ be_bytes 1 0) < 2 ^ 64)" by simp
    qed (use that(1) in simp_all)
    then have "builds (open_step (\<lambda>b. cbb_buffer_add_u b 0 1) d 1 True) (abs_open d Asn1) st'"
      by (rule builds_cong) (use that in \<open>simp add: abs_open_def abs_flush_flushed fits_def\<close>)
    then show ?thesis
      by (rule builds_fun_cong)
        (use flushed_add_u8 [OF _ that(1), of _ 0] in \<open>auto simp: open_step_def on_base_def split: option.splits prod.splits bool.splits\<close>)
  qed
  have "builds (CBB_add_asn1 d tg) (\<lambda>st. Option.bind (abs_flush d st) (\<lambda>st. Option.bind (abs_add d (der_tag tg) st) (abs_open d Asn1))) st"
    unfolding CBB_add_asn1_def Let_def
  proof (intro builds_both [OF builds_flush] builds_both [OF builds_add_tag] opn)
    fix st1 st2 assume "abs_add d (der_tag tg) st1 = Some st2"
    then show "length (snd st2) = d" "bulk st2 < 2 ^ 64"
      by (auto simp: abs_add_def bind_eq_Some_conv dest!: abs_flush_depth fits_SomeD)
  qed
  then show ?thesis
    by (rule builds_cong) (simp add: abs_asn1_def abs_flush_add flip: Option.bind_assoc)
qed

lemma abs_asn1_element:
  "Option.bind (abs_asn1 d tg st) (\<lambda>st. Option.bind (abs_add (Suc d) body st) (abs_flush d)) =
     (if length body \<le> 0xFFFFFFFE then abs_add d (der tg body) st else None)"
proof -
  have "Option.bind (abs_asn1 d tg st) (\<lambda>st. Option.bind (abs_add (Suc d) body st) (abs_flush d)) =
      Option.bind (abs_add d (der_tag tg) st) (\<lambda>st. Option.bind (Option.bind (abs_open d Asn1 st) (abs_add (Suc d) body)) (abs_flush d))"
    by (simp add: abs_asn1_def)
  then show ?thesis unfolding abs_element by (simp add: abs_add_add der_def)
qed

lemma both_assoc: "both f (both g h) = both (both f g) h"
  by (auto simp: both_def fun_eq_iff split: prod.splits)

lemma both_skip: "both (\<lambda>s. (True, s)) f = f"
  by (simp add: both_def fun_eq_iff)

lemma add_octets_append: "add_octets d (xs @ ys) = both (add_octets d xs) (add_octets d ys)"
proof (induction xs)
  case (Cons x xs)
  have "add_octets d (x # xs @ ys) = both (CBB_add_u8 d x) (add_octets d (xs @ ys))" by (simp add: fun_eq_iff)
  moreover have "add_octets d (x # xs) = both (CBB_add_u8 d x) (add_octets d xs)" by (simp add: fun_eq_iff)
  ultimately show ?case using Cons by (simp add: both_assoc)
qed (simp add: both_def fun_eq_iff)

lemma builds_element:
  assumes "\<And>st. builds f (abs_add (Suc d) body) st"
  shows "builds (both (CBB_add_asn1 d tg) (both f (CBB_flush d)))
     (\<lambda>st. if length body \<le> 0xFFFFFFFE then abs_add d (der tg body) st else None) st"
  by (rule builds_cong [OF builds_both [OF builds_add_asn1 builds_both [OF assms builds_flush]]]) (rule abs_asn1_element)

lemma builds_short_element:
  assumes "\<And>st. builds f (abs_add (Suc d) body) st" "length body \<le> 0xFFFFFFFE"
  shows "builds (both (CBB_add_asn1 d tg) (both f (CBB_flush d))) (abs_add d (der tg body)) st"
  by (rule builds_cong [OF builds_element [OF assms(1)]]) (simp add: assms(2))

lemma builds_octet_string:
  "length data < 2 ^ 64 \<Longrightarrow> builds (CBB_add_asn1_octet_string d data)
     (\<lambda>st. if length data \<le> 0xFFFFFFFE then abs_add d (der CBS_ASN1_OCTETSTRING data) st else None) st"
  unfolding CBB_add_asn1_octet_string_def by (rule builds_element [OF builds_add_bytes])

lemma builds_bool: "builds (CBB_add_asn1_bool d v) (abs_add d (der CBS_ASN1_BOOLEAN [if v then 0xFF else 0])) st"
  unfolding CBB_add_asn1_bool_def by (rule builds_short_element [OF builds_add_u8]) simp

text \<open>The octets of an unsigned INTEGER, from its octets with leading zeros.\<close>

fun uint_octets :: "bool \<Rightarrow> bytes \<Rightarrow> bytes" where
  "uint_octets started [] = (if started then [] else [0])"
| "uint_octets started (b # bs) =
     (if \<not> started \<and> b = 0 then uint_octets False bs
      else (if \<not> started \<and> b AND 0x80 \<noteq> 0 then [0] else []) @ b # uint_octets True bs)"

lemma asn1_uint64_octets_eq: "asn1_uint64_octets c started bs = add_octets c (uint_octets started bs)"
proof (induction bs arbitrary: started)
  case Nil
  show ?case by (auto simp: fun_eq_iff both_def split: prod.splits)
next
  case (Cons b bs)
  have a: "add_octets c (b # xs) = both (CBB_add_u8 c b) (add_octets c xs)" for b xs by (simp add: fun_eq_iff)
  have z: "add_octets c [0] = CBB_add_u8 c 0" by (auto simp: fun_eq_iff both_def split: prod.splits)
  show ?case
  proof (cases "\<not> started \<and> b = 0")
    case True
    then have "asn1_uint64_octets c started (b # bs) = asn1_uint64_octets c False bs" by (simp add: fun_eq_iff)
    with True Cons show ?thesis by simp
  next
    case False
    then have "asn1_uint64_octets c started (b # bs) =
        both (if \<not> started \<and> b AND 0x80 \<noteq> 0 then CBB_add_u8 c 0 else (\<lambda>s. (True, s))) (both (CBB_add_u8 c b) (asn1_uint64_octets c True bs))"
      by (auto simp: fun_eq_iff)
    with False show ?thesis
      by (auto simp: Cons add_octets_append [of c "[0]", simplified] a both_skip both_assoc z simp del: add_octets.simps)
  qed
qed

lemma uint_octets_True: "uint_octets True bs = bs"
  by (induction bs) auto

lemma uint_octets_length: "length (uint_octets False bs) \<le> Suc (length bs)"
  by (induction bs) (auto simp: uint_octets_True)

lemma uint_octets_ne: "uint_octets False bs \<noteq> []"
  by (induction bs) auto

lemma builds_uint64: "builds (CBB_add_asn1_uint64 d v) (abs_add d (der CBS_ASN1_INTEGER (uint_octets False (octets_be v)))) st"
  unfolding CBB_add_asn1_uint64_def asn1_uint64_octets_eq
proof (rule builds_short_element [OF builds_add_octets])
  show "length (uint_octets False (octets_be v)) \<le> 0xFFFFFFFE"
    using uint_octets_length [of "octets_be v"] by (simp add: octets_be_def)
qed (rule uint_octets_ne)

text \<open>The octets of a negative INTEGER.\<close>

definition neg_octets :: "u64 \<Rightarrow> bytes" where
  "neg_octets v = (let u = le_bytes 8 (unat v) in rev (take (Suc (int64_start u 7)) u))"

definition int_octets :: "u64 \<Rightarrow> bytes" where
  "int_octets v = (if 0 \<le>s v then uint_octets False (octets_be v) else neg_octets v)"

lemma builds_int64: "builds (CBB_add_asn1_int64 d v) (abs_add d (der CBS_ASN1_INTEGER (int_octets v))) st"
proof (cases "0 \<le>s v")
  case True
  then show ?thesis using builds_uint64 by (simp add: CBB_add_asn1_int64_def int_octets_def)
next
  case False
  have "builds (both (CBB_add_asn1 d CBS_ASN1_INTEGER) (both (add_octets (Suc d) (neg_octets v)) (CBB_flush d)))
      (abs_add d (der CBS_ASN1_INTEGER (neg_octets v))) st"
    by (rule builds_short_element [OF builds_add_octets]) (simp_all add: neg_octets_def Let_def le_bytes_8)
  then show ?thesis using False by (simp add: CBB_add_asn1_int64_def int_octets_def neg_octets_def Let_def)
qed

lemma reserve_spec:
  assumes "buf_ok b" "cbb_buffer_reserve b n = (ok, b')"
  shows "if ok then buf_ok b' \<and> error b' = error b \<and> same_env b b' \<and> content b' = content b \<and> unat (len b) + unat n < 2 ^ 64
         else error b' \<and> \<not> (unlimited b \<and> unat (len b) + unat n < 2 ^ 64)"
proof (cases ok)
  case True
  with reserve_cases [OF assms(1), of n] assms(2) obtain pad where p: "b' = b\<lparr>buf := buf b @ pad, cap := cap b'\<rparr>" "buf_ok b'"
    "unat (len b) + unat n \<le> unat (cap b')" by auto
  have f: "len b' = len b" "error b' = error b" "buf b' = buf b @ pad" "can_resize b' = can_resize b" "grants b' = grants b"
    by (subst p(1), simp)+
  show ?thesis using True p(2,3) assms(1) unat_lt_u64 [of "cap b'"] by (simp add: f same_env_def content_def buf_ok_def)
next
  case False
  then have "cbb_buffer_add b n = (False, b')" using assms(2) by (simp add: cbb_buffer_add_def)
  from add_False [OF assms(1) this] False show ?thesis by simp
qed

text \<open>A reservation is a flush for which memory may not suffice.\<close>

definition abs_reserve :: "nat \<Rightarrow> u64 \<Rightarrow> builder \<Rightarrow> builder option" where
  "abs_reserve d n st = Option.bind (abs_flush d st) (\<lambda>st'. if bulk st' + unat n < 2 ^ 64 then Some st' else None)"

lemma builds_reserve: "builds (CBB_reserve d n) (abs_reserve d n) st"
  unfolding CBB_reserve_def abs_reserve_def
proof (rule builds_both [OF builds_flush], rule builds_intro)
  fix st' cbb cbb' assume r: "repr cbb st'" "on_base (\<lambda>b. cbb_buffer_reserve b n) cbb = (True, cbb')"
  then obtain b rest b' where b: "base cbb = Some b" "buf_ok b" "\<not> error b" "content b = fst st' @ rest"
      "layout (length (fst st')) (children cbb) (snd st') rest" "cbb_buffer_reserve b n = (True, b')" "cbb' = cbb\<lparr>base := Some b'\<rparr>"
    by (auto simp: repr_def on_base_def split: prod.splits)
  have "bulk st' = unat (len b)" using layout_length [OF b(5)] b(4) length_content [OF b(2)] by (simp add: bulk_def)
  with reserve_spec [OF b(2,6)] b show "\<exists>st''. (if bulk st' + unat n < 2 ^ 64 then Some st' else None) = Some st'' \<and> repr cbb' st'' \<and> roomy cbb' = roomy cbb"
    by (auto simp: repr_def roomy_def same_env_unlimited)
next
  fix st' cbb cbb' assume r: "repr cbb st'" "on_base (\<lambda>b. cbb_buffer_reserve b n) cbb = (False, cbb')"
  then obtain b rest b' where b: "base cbb = Some b" "buf_ok b" "content b = fst st' @ rest"
      "layout (length (fst st')) (children cbb) (snd st') rest" "cbb_buffer_reserve b n = (False, b')" "cbb' = cbb\<lparr>base := Some b'\<rparr>"
    by (auto simp: repr_def on_base_def split: prod.splits)
  have "bulk st' = unat (len b)" using layout_length [OF b(4)] b(3) length_content [OF b(2)] by (simp add: bulk_def)
  with reserve_spec [OF b(2,5)] b(1,6) show "(if bulk st' + unat n < 2 ^ 64 then Some st' else None) = None \<or> poisoned cbb' \<and> \<not> roomy cbb"
    by (auto simp: poisoned_def roomy_def)
qed

definition abs_discard :: "nat \<Rightarrow> builder \<Rightarrow> builder" where
  "abs_discard d st = (fst st, take d (snd st))"

lemma discard_repr:
  assumes "repr cbb st"
  shows "repr (CBB_discard_child d cbb) (abs_discard d st) \<and> roomy (CBB_discard_child d cbb) = roomy cbb"
proof -
  obtain b rest where b: "base cbb = Some b" "buf_ok b" "\<not> error b" "content b = fst st @ rest"
      "layout (length (fst st)) (children cbb) (snd st) rest"
    using assms by (auto simp: repr_def)
  have lc: "length (children cbb) = length (snd st)" using layout_length [OF b(5)] by simp
  show ?thesis
  proof (cases "length (snd st) \<le> d")
    case True
    with assms lc show ?thesis by (simp add: CBB_discard_child_def abs_discard_def)
  next
    case False
    obtain r r' where r: "rest = r @ r'" "layout (length (fst st)) (take d (children cbb)) (take d (snd st)) r"
        "layout (length (fst st) + length r) (drop d (children cbb)) (drop d (snd st)) r'"
      using layout_split [of "take d (children cbb)" "take d (snd st)" "length (fst st)" "drop d (children cbb)" "drop d (snd st)" rest] b(5) lc
      by auto
    have dr: "drop d (children cbb) = children cbb ! d # drop (Suc d) (children cbb)" "drop d (snd st) = snd st ! d # drop (Suc d) (snd st)"
      using False lc by (simp_all add: Cons_nth_drop_Suc)
    obtain k s where ks: "snd st ! d = (k, s)" by (cases "snd st ! d")
    from r(3) obtain h rest' where h: "frame_at (length (fst st) + length r) (children cbb ! d) k"
      unfolding dr ks by (rule layout_ConsE)
    then have o: "unat (offset (children cbb ! d)) = length (fst st @ r)" by (simp add: frame_at_def)
    define b' where "b' = b\<lparr>len := offset (children cbb ! d)\<rparr>"
    have le: "length (fst st @ r) \<le> unat (len b)" using length_content [OF b(2)] b(4) r(1) by simp
    have "content b' = take (length (fst st @ r)) (content b)" using o le by (simp add: b'_def content_def)
    then have c: "content b' = fst st @ r" using b(4) r(1) by simp
    have "buf_ok b'" using b(2) le o by (simp add: b'_def buf_ok_def)
    moreover have "CBB_discard_child d cbb = cbb\<lparr>base := Some b', children := take d (children cbb)\<rparr>"
      using False lc b(1) by (simp add: CBB_discard_child_def b'_def)
    ultimately show ?thesis using b(1,3) r(2) c
      by (auto simp: repr_def abs_discard_def roomy_def unlimited_def b'_def)
  qed
qed

end
