(* ===== verification/Bytestring_Builder.thy ===== *)
theory Bytestring_Builder
  imports Bytestring_CBB_Correct
begin

text \<open>
  Whole builds: a sequence of calls on a CBB, from initialisation to \<open>CBB_finish\<close>. The CBB interface is an
  instance of the contract \<open>fallible_refinement\<close>, so the theorems about single calls give theorems about
  every sequence of calls.
\<close>

section \<open>Programs\<close>

text \<open>A build is a sequence of calls; the first argument is the depth of the CBB that is written to.\<close>

datatype cbb_op = Flush nat | Reserve nat u64 | Discard nat | Bytes nat bytes | Zeros nat u64
  | U8 nat u8 | U16 nat u16 | U24 nat u32 | U32 nat u32 | U64 nat u64
  | U8_prefixed nat | U16_prefixed nat | U24_prefixed nat | Asn1_child nat u32
  | Uint64 nat u64 | Int64 nat u64 | Octet_string nat bytes | Boolean nat bool

fun call :: "cbb_op \<Rightarrow> CBB \<Rightarrow> bool \<times> CBB" where
  "call (Flush d) = CBB_flush d"
| "call (Reserve d n) = CBB_reserve d n"
| "call (Discard d) = (\<lambda>cbb. (True, CBB_discard_child d cbb))"
| "call (Bytes d x) = CBB_add_bytes d x"
| "call (Zeros d n) = CBB_add_zeros d n"
| "call (U8 d v) = CBB_add_u8 d v"
| "call (U16 d v) = CBB_add_u16 d v"
| "call (U24 d v) = CBB_add_u24 d v"
| "call (U32 d v) = CBB_add_u32 d v"
| "call (U64 d v) = CBB_add_u64 d v"
| "call (U8_prefixed d) = CBB_add_u8_length_prefixed d"
| "call (U16_prefixed d) = CBB_add_u16_length_prefixed d"
| "call (U24_prefixed d) = CBB_add_u24_length_prefixed d"
| "call (Asn1_child d tg) = CBB_add_asn1 d tg"
| "call (Uint64 d v) = CBB_add_asn1_uint64 d v"
| "call (Int64 d v) = CBB_add_asn1_int64 d v"
| "call (Octet_string d x) = CBB_add_asn1_octet_string d x"
| "call (Boolean d v) = CBB_add_asn1_bool d v"

fun effect :: "cbb_op \<Rightarrow> builder \<Rightarrow> builder option" where
  "effect (Flush d) = abs_flush d"
| "effect (Reserve d n) = abs_reserve d n"
| "effect (Discard d) = (\<lambda>st. Some (abs_discard d st))"
| "effect (Bytes d x) = abs_add d x"
| "effect (Zeros d n) = abs_add d (replicate (unat n) 0)"
| "effect (U8 d v) = abs_add d [v]"
| "effect (U16 d v) = abs_add d (be_bytes 2 (unat v))"
| "effect (U24 d v) = (\<lambda>st. if unat v < 2 ^ 24 then abs_add d (be_bytes 3 (unat v)) st else None)"
| "effect (U32 d v) = abs_add d (be_bytes 4 (unat v))"
| "effect (U64 d v) = abs_add d (be_bytes 8 (unat v))"
| "effect (U8_prefixed d) = abs_open d (Fixed 1)"
| "effect (U16_prefixed d) = abs_open d (Fixed 2)"
| "effect (U24_prefixed d) = abs_open d (Fixed 3)"
| "effect (Asn1_child d tg) = abs_asn1 d tg"
| "effect (Uint64 d v) = abs_add d (der CBS_ASN1_INTEGER (uint_octets False (octets_be v)))"
| "effect (Int64 d v) = abs_add d (der CBS_ASN1_INTEGER (int_octets v))"
| "effect (Octet_string d x) = (\<lambda>st. if length x \<le> 0xFFFFFFFE then abs_add d (der CBS_ASN1_OCTETSTRING x) st else None)"
| "effect (Boolean d v) = abs_add d (der CBS_ASN1_BOOLEAN [if v then 0xFF else 0])"

text \<open>The arguments are those of C: a length is a \<open>size_t\<close>.\<close>

fun op_ok :: "cbb_op \<Rightarrow> bool" where
  "op_ok (Bytes d x) = (length x < 2 ^ 64)"
| "op_ok (Octet_string d x) = (length x < 2 ^ 64)"
| "op_ok _ = True"

lemma builds_fixed_width:
  "builds (CBB_add_u16 d (v :: u16)) (abs_add d (be_bytes 2 (unat v))) st"
  "builds (CBB_add_u24 d (w :: u32)) (\<lambda>st. if unat w < 2 ^ 24 then abs_add d (be_bytes 3 (unat w)) st else None) st"
  "builds (CBB_add_u32 d w) (abs_add d (be_bytes 4 (unat w))) st"
  "builds (CBB_add_u64 d (x :: u64)) (abs_add d (be_bytes 8 (unat x))) st"
proof -
  have bd: "unat v < 2 ^ 16" "unat w < 2 ^ 32" "unat x < 2 ^ 64" using unsigned_less [of v] unsigned_less [of w] unsigned_less [of x] by simp_all
  show "builds (CBB_add_u16 d v) (abs_add d (be_bytes 2 (unat v))) st"
    "builds (CBB_add_u24 d w) (\<lambda>st. if unat w < 2 ^ 24 then abs_add d (be_bytes 3 (unat w)) st else None) st"
    "builds (CBB_add_u32 d w) (abs_add d (be_bytes 4 (unat w))) st"
    "builds (CBB_add_u64 d x) (abs_add d (be_bytes 8 (unat x))) st"
    unfolding CBB_add_u16_def CBB_add_u24_def CBB_add_u32_def CBB_add_u64_def
    by (rule builds_cong [OF builds_CBB_add_u]; use bd in simp)+
qed

lemma builds_prefixed:
  "builds (CBB_add_u8_length_prefixed d) (abs_open d (Fixed 1)) st"
  "builds (CBB_add_u16_length_prefixed d) (abs_open d (Fixed 2)) st"
  "builds (CBB_add_u24_length_prefixed d) (abs_open d (Fixed 3)) st"
  using builds_open_fixed [of 1 d st] builds_open_fixed [of 2 d st] builds_open_fixed [of 3 d st]
  by (simp_all add: CBB_add_u8_length_prefixed_def CBB_add_u16_length_prefixed_def CBB_add_u24_length_prefixed_def)

lemma builds_discard: "builds (\<lambda>cbb. (True, CBB_discard_child d cbb)) (\<lambda>st. Some (abs_discard d st)) st"
  by (rule builds_intro) (use discard_repr [of _ st d] in auto)

lemmas builds_ops = builds_flush builds_reserve builds_discard builds_add_bytes builds_add_zeros builds_add_u8
  builds_fixed_width builds_prefixed builds_add_asn1 builds_uint64 builds_int64 builds_octet_string builds_bool

lemma builds_call: "op_ok x \<Longrightarrow> builds (call x) (effect x) st"
  by (cases x; simp only: call.simps effect.simps op_ok.simps; rule builds_ops; assumption?)

lemma flush_poisoned: "poisoned cbb \<Longrightarrow> CBB_flush d cbb = (False, cbb)"
proof -
  assume "poisoned cbb"
  then obtain b where b: "base cbb = Some b" "error b" by (auto simp: poisoned_def split: option.splits)
  then have "flush_chain b cs = (False, b, cs)" for cs by (cases cs) auto
  with b show ?thesis by (simp add: CBB_flush_def)
qed

lemma both_poisoned: "f cbb = (False, cbb) \<Longrightarrow> both f g cbb = (False, cbb)"
  by (simp add: both_def)

fun is_discard :: "cbb_op \<Rightarrow> bool" where
  "is_discard (Discard d) = True"
| "is_discard _ = False"

text \<open>Every operation but \<open>CBB_discard_child\<close> starts with a flush, which refuses a failed build.\<close>

lemma call_poisoned: "poisoned cbb \<Longrightarrow> \<not> is_discard x \<Longrightarrow> call x cbb = (False, cbb)"
proof -
  assume p: "poisoned cbb" and x: "\<not> is_discard x"
  note f = flush_poisoned [OF p] both_poisoned
  have asn1: "CBB_add_asn1 d tg cbb = (False, cbb)" for d tg by (simp add: CBB_add_asn1_def f)
  show ?thesis using x
    by (cases x) (simp_all add: f asn1 CBB_reserve_def CBB_add_bytes_def CBB_add_zeros_def CBB_add_u8_def CBB_add_u_def CBB_add_u16_def
        CBB_add_u24_def CBB_add_u32_def CBB_add_u64_def CBB_add_u8_length_prefixed_def CBB_add_u16_length_prefixed_def
        CBB_add_u24_length_prefixed_def cbb_add_length_prefixed_def CBB_add_asn1_uint64_def CBB_add_asn1_int64_def
        CBB_add_asn1_octet_string_def CBB_add_asn1_bool_def Let_def)
qed

lemma discard_poisoned: "poisoned cbb \<Longrightarrow> poisoned (CBB_discard_child d cbb)"
  by (auto simp: CBB_discard_child_def poisoned_def split: option.splits)

interpretation cbb: fallible_refinement repr call effect op_ok roomy poisoned
proof
  show "\<exists>a'. effect x a = Some a' \<and> repr s' a' \<and> roomy s' = roomy s" if "op_ok x" "repr s a" "call x s = (True, s')" for x s a s'
    by (rule builds_True [OF builds_call [OF that(1)] that(2,3)])
  show "effect x a = None \<or> poisoned s' \<and> \<not> roomy s" if "op_ok x" "repr s a" "call x s = (False, s')" for x s a s'
    by (rule builds_False [OF builds_call [OF that(1)] that(2,3)])
  show "poisoned (snd (call x s))" if "poisoned s" for x s
    using call_poisoned [OF that, of x] discard_poisoned [OF that] that by (cases x) simp_all
qed

section \<open>Initialisation and the finished string\<close>

lemma CBB_init_repr:
  assumes "CBB_init alloc n = (True, cbb)"
  shows "repr cbb ([], []) \<and> (roomy cbb \<longleftrightarrow> (\<forall>k. alloc k))"
  using assms by (auto simp: CBB_init_def cbb_init_def repr_def buf_ok_def content_def roomy_def unlimited_def split: if_splits)

lemma CBB_init_fixed_repr:
  assumes "CBB_init_fixed alloc data n = (True, cbb)" "length data = unat n"
  shows "repr cbb ([], [])"
  using assms by (auto simp: CBB_init_fixed_def cbb_init_def repr_def buf_ok_def content_def split: if_splits)

lemma finish_repr:
  assumes "repr cbb st"
  shows "fst (CBB_finish 0 True cbb) = (if fst (CBB_flush 0 cbb) then abs_finish st else None)"
    and "\<not> fst (CBB_flush 0 cbb) \<Longrightarrow> abs_finish st = None \<or> \<not> roomy cbb"
proof -
  obtain ok cbb' where f: "CBB_flush 0 cbb = (ok, cbb')" by (cases "CBB_flush 0 cbb")
  show "\<not> fst (CBB_flush 0 cbb) \<Longrightarrow> abs_finish st = None \<or> \<not> roomy cbb"
    using builds_False [OF builds_flush assms, of 0 cbb'] f by (auto simp: abs_finish_def)
  show "fst (CBB_finish 0 True cbb) = (if fst (CBB_flush 0 cbb) then abs_finish st else None)"
  proof (cases ok)
    case True
    with builds_True [OF builds_flush assms, of 0 cbb'] f obtain st' where s: "abs_flush 0 st = Some st'" "repr cbb' st'" by auto
    obtain s where st': "st' = (s, [])" using abs_flush_depth [OF s(1)] by (cases st') auto
    with s(2) obtain b where "base cbb' = Some b" "content b = s" by (cases "children cbb'") (auto simp: repr_def)
    with s(1) st' f True show ?thesis by (simp add: CBB_finish_def abs_finish_def content_def)
  next
    case False
    with f show ?thesis by (simp add: CBB_finish_def)
  qed
qed

lemma finish_poisoned: "poisoned cbb \<Longrightarrow> fst (CBB_finish 0 True cbb) = None"
  by (simp add: CBB_finish_def flush_poisoned)

text \<open>The bytes a sequence of calls should produce.\<close>

definition spec_build :: "cbb_op list \<Rightarrow> bytes option" where
  "spec_build xs = Option.bind (run_spec effect xs ([], [])) abs_finish"

definition build :: "CBB \<Rightarrow> cbb_op list \<Rightarrow> bytes option" where
  "build cbb xs = (case run_ops call xs cbb of (ok, cbb') \<Rightarrow> if ok then fst (CBB_finish 0 True cbb') else None)"

lemma be_bytes_2: "be_bytes 2 n = [word_of_nat (n div 256), word_of_nat n]"
  by (simp add: be_bytes_Suc numeral_2_eq_2)

lemmas build_evals = spec_build_def abs_finish_def abs_flush_def abs_add_def abs_open_def abs_asn1_def push_def fits_def bulk_def
  der_def der_tag_def class_bits_def tag_num_def der_len_def octets_be_def be_bytes_2 upt_rec
  CBS_ASN1_TAG_SHIFT_def CBS_ASN1_TAG_NUMBER_MASK_def CBS_ASN1_INTEGER_def CBS_ASN1_OCTETSTRING_def

lemma build_cases:
  assumes "repr cbb ([], [])" "list_all op_ok xs"
  shows "build cbb xs = spec_build xs \<or> build cbb xs = None \<and> \<not> roomy cbb"
proof -
  obtain ok cbb' where r: "run_ops call xs cbb = (ok, cbb')" by (cases "run_ops call xs cbb")
  show ?thesis
  proof (cases ok)
    case True
    with cbb.run_True [OF assms(2,1)] r obtain st where s: "run_spec effect xs ([], []) = Some st" "repr cbb' st" "roomy cbb' = roomy cbb" by auto
    from finish_repr [OF s(2)] s r True show ?thesis by (auto simp: build_def spec_build_def)
  next
    case False
    with cbb.run_False [OF assms(2,1)] r show ?thesis by (auto simp: build_def spec_build_def)
  qed
qed

text \<open>C5: every successful build gives the bytes of the reference builder, in which lengths are computed
  from the contents of closed frames; and with enough memory a build succeeds whenever the reference does.\<close>

theorem CBB_build_refines:
  assumes "CBB_init alloc n = (True, cbb)" "list_all op_ok xs"
  shows "build cbb xs \<in> {None, spec_build xs} \<and> ((\<forall>k. alloc k) \<longrightarrow> build cbb xs = spec_build xs)"
  using CBB_init_repr [OF assms(1)] build_cases [OF _ assms(2)] by auto

theorem CBB_build_refines_witness:
  "build (snd (CBB_init (\<lambda>_. True) 2)) [Asn1_child 0 0x20000010, Uint64 1 300, Octet_string 1 [7], U16_prefixed 0, U8 1 9] =
     Some [0x30, 7, 2, 2, 1, 44, 4, 1, 7, 0, 1, 9]"
proof -
  define cbb where "cbb = snd (CBB_init (\<lambda>_. True) 2)"
  have "CBB_init (\<lambda>_. True) 2 = (True, cbb)" by (simp add: cbb_def CBB_init_def cbb_init_def)
  from CBB_build_refines [OF this, of "[Asn1_child 0 0x20000010, Uint64 1 300, Octet_string 1 [7], U16_prefixed 0, U8 1 9]"]
  have "build cbb [Asn1_child 0 0x20000010, Uint64 1 300, Octet_string 1 [7], U16_prefixed 0, U8 1 9] =
      spec_build [Asn1_child 0 0x20000010, Uint64 1 300, Octet_string 1 [7], U16_prefixed 0, U8 1 9]" by simp
  also have "\<dots> = Some [0x30, 7, 2, 2, 1, 44, 4, 1, 7, 0, 1, 9]" by (simp add: build_evals)
  finally show ?thesis by (simp add: cbb_def)
qed



end
