(* ===== verification/Uv_Heap.thy ===== *)
theory Uv_Heap
  imports Prelude
begin

text \<open>
  libuv's binary heap, \<^verbatim>\<open>heap-inl.h\<close>: nodes with links to both children and to the parent, embedded in the
  client's structures. The order is a parameter, the callback \<open>less_than\<close> on nodes. The loops of
  \<open>heap_insert\<close> and \<open>heap_remove\<close> follow links that a damaged heap could make cyclic, so they
  are partial functions: \<open>None\<close> stands for a null dereference or a loop without end.
\<close>

section \<open>Nodes\<close>

text \<open>A node is identified by its address; a null pointer is \<open>None\<close>. All nodes live in the map \<open>nodes\<close>.\<close>

record heap_node =
  left :: "nat option"
  right :: "nat option"
  parent :: "nat option"

record heap =
  min_node :: "nat option" \<comment> \<open>the member \<open>min\<close>\<close>
  nelts :: u32
  nodes :: "nat \<Rightarrow> heap_node"

text \<open>The values of type \<^verbatim>\<open>struct heap_node**\<close>: the address of \<open>min\<close> or of a link of a node.\<close>

datatype slot = Min_slot | Left_slot nat | Right_slot nat

definition set_node :: "nat \<Rightarrow> (heap_node \<Rightarrow> heap_node) \<Rightarrow> heap \<Rightarrow> heap" where
  "set_node a f h = h\<lparr>nodes := (nodes h)(a := f (nodes h a))\<rparr>"

fun read_slot :: "heap \<Rightarrow> slot \<Rightarrow> nat option" where
  "read_slot h Min_slot = min_node h"
| "read_slot h (Left_slot a) = left (nodes h a)"
| "read_slot h (Right_slot a) = right (nodes h a)"

fun write_slot :: "slot \<Rightarrow> nat option \<Rightarrow> heap \<Rightarrow> heap" where
  "write_slot Min_slot p h = h\<lparr>min_node := p\<rparr>"
| "write_slot (Left_slot a) p h = set_node a (left_update (\<lambda>_. p)) h"
| "write_slot (Right_slot a) p h = set_node a (right_update (\<lambda>_. p)) h"

text \<open>\<^verbatim>\<open>if (p != NULL) p->parent = q;\<close>\<close>

definition set_parent :: "nat option \<Rightarrow> nat option \<Rightarrow> heap \<Rightarrow> heap" where
  "set_parent p q h = (case p of None \<Rightarrow> h | Some a \<Rightarrow> set_node a (parent_update (\<lambda>_. q)) h)"

section \<open>Operations\<close>

definition heap_init :: "(nat \<Rightarrow> heap_node) \<Rightarrow> heap" where
  "heap_init mem = \<lparr>min_node = None, nelts = 0, nodes = mem\<rparr>"

definition heap_min :: "heap \<Rightarrow> nat option" where
  "heap_min h = min_node h"

text \<open>The end of \<open>heap_node_swap\<close> and of the replacement in \<open>heap_remove\<close>: the link that pointed to \<open>old\<close>, in
  the parent \<open>up\<close>, now points to \<open>new\<close>.\<close>

definition relink :: "nat option \<Rightarrow> nat \<Rightarrow> nat \<Rightarrow> heap \<Rightarrow> heap" where
  "relink up old new h =
     (case up of
        None \<Rightarrow> h\<lparr>min_node := Some new\<rparr>
      | Some g \<Rightarrow>
          if left (nodes h g) = Some old then set_node g (left_update (\<lambda>_. Some new)) h
          else set_node g (right_update (\<lambda>_. Some new)) h)"

definition heap_node_swap :: "nat \<Rightarrow> nat \<Rightarrow> heap \<Rightarrow> heap" where
  "heap_node_swap p c h =
     (let t = nodes h p;
          h1 = h\<lparr>nodes := (nodes h)(p := nodes h c, c := t)\<rparr>;
          h2 = set_node p (parent_update (\<lambda>_. Some c)) h1;
          (h3, sibling) =
            (if left (nodes h2 c) = Some c
             then (set_node c (left_update (\<lambda>_. Some p)) h2, right (nodes h2 c))
             else (set_node c (right_update (\<lambda>_. Some p)) h2, left (nodes h2 c)));
          h4 = set_parent sibling (Some c) h3;
          h5 = set_parent (left (nodes h4 p)) (Some p) h4;
          h6 = set_parent (right (nodes h5 p)) (Some p) h5
      in relink (parent (nodes h6 c)) p c h6)"

text \<open>\<^verbatim>\<open>for (k = 0; n >= 2; k += 1, n /= 2) path = (path << 1) | (n & 1);\<close>\<close>

function heap_path :: "u32 \<Rightarrow> nat \<Rightarrow> u32 \<Rightarrow> u32 \<times> nat" where
  "heap_path path k n = (if 2 \<le> n then heap_path (push_bit 1 path OR (n AND 1)) (k + 1) (n div 2) else (path, k))"
  by pat_completeness auto
termination
  by (relation "measure (\<lambda>(path, k, n). unat n)") (auto simp: unat_div word_le_nat_alt)

declare heap_path.simps [simp del]

text \<open>The walk along a path, with the previous slot; \<open>None\<close> is a null dereference.\<close>

fun heap_walk :: "heap \<Rightarrow> slot \<Rightarrow> slot \<Rightarrow> u32 \<Rightarrow> nat \<Rightarrow> (slot \<times> slot) option" where
  "heap_walk h up child path 0 = Some (up, child)"
| "heap_walk h up child path (Suc k) =
     (case read_slot h child of
        None \<Rightarrow> None
      | Some a \<Rightarrow> heap_walk h child (if path AND 1 \<noteq> 0 then Right_slot a else Left_slot a) (drop_bit 1 path) k)"

text \<open>\<^verbatim>\<open>while (node->parent != NULL && less_than(node, node->parent)) heap_node_swap(...);\<close>\<close>

partial_function (option) heap_up :: "(nat \<Rightarrow> nat \<Rightarrow> bool) \<Rightarrow> nat \<Rightarrow> heap \<Rightarrow> heap option" where
  "heap_up lt node h =
     (case parent (nodes h node) of
        None \<Rightarrow> Some h
      | Some p \<Rightarrow> if lt node p then heap_up lt node (heap_node_swap p node h) else Some h)"

definition smallest :: "(nat \<Rightarrow> nat \<Rightarrow> bool) \<Rightarrow> heap \<Rightarrow> nat \<Rightarrow> nat" where
  "smallest lt h child =
     (let s1 = (case left (nodes h child) of None \<Rightarrow> child | Some l \<Rightarrow> if lt l child then l else child)
      in case right (nodes h child) of None \<Rightarrow> s1 | Some r \<Rightarrow> if lt r s1 then r else s1)"

partial_function (option) heap_down :: "(nat \<Rightarrow> nat \<Rightarrow> bool) \<Rightarrow> nat \<Rightarrow> heap \<Rightarrow> heap option" where
  "heap_down lt child h =
     (let s = smallest lt h child
      in if s = child then Some h else heap_down lt child (heap_node_swap child s h))"

definition heap_insert :: "(nat \<Rightarrow> nat \<Rightarrow> bool) \<Rightarrow> nat \<Rightarrow> heap \<Rightarrow> heap option" where
  "heap_insert lt newnode h =
     (let h1 = h\<lparr>nodes := (nodes h)(newnode := \<lparr>left = None, right = None, parent = None\<rparr>)\<rparr>;
          (path, k) = heap_path 0 0 (1 + nelts h1)
      in case heap_walk h1 Min_slot Min_slot path k of
           None \<Rightarrow> None
         | Some (up, child) \<Rightarrow>
             let h2 = set_node newnode (parent_update (\<lambda>_. read_slot h1 up)) h1;
                 h3 = write_slot child (Some newnode) h2;
                 h4 = h3\<lparr>nelts := nelts h3 + 1\<rparr>
             in heap_up lt newnode h4)"

text \<open>Put \<open>child\<close> in the place of \<open>node\<close>.\<close>

definition heap_replace :: "nat \<Rightarrow> nat \<Rightarrow> heap \<Rightarrow> heap" where
  "heap_replace node child h =
     (let h1 = set_node child (left_update (\<lambda>_. left (nodes h node))) h;
          h2 = set_node child (right_update (\<lambda>_. right (nodes h1 node))) h1;
          h3 = set_node child (parent_update (\<lambda>_. parent (nodes h2 node))) h2;
          h4 = set_parent (left (nodes h3 child)) (Some child) h3;
          h5 = set_parent (right (nodes h4 child)) (Some child) h4
      in relink (parent (nodes h5 node)) node child h5)"

definition heap_remove :: "(nat \<Rightarrow> nat \<Rightarrow> bool) \<Rightarrow> nat option \<Rightarrow> heap \<Rightarrow> heap option" where
  "heap_remove lt node h =
     (if nelts h = 0 then Some h
      else
        let (path, k) = heap_path 0 0 (nelts h) in
        case heap_walk h Min_slot Min_slot path k of
          None \<Rightarrow> None
        | Some (_, max_slot) \<Rightarrow>
            let h1 = h\<lparr>nelts := nelts h - 1\<rparr>;
                child = read_slot h1 max_slot;
                h2 = write_slot max_slot None h1
            in if child = node then Some (if child = min_node h2 then h2\<lparr>min_node := None\<rparr> else h2)
               else (case (node, child) of
                 (Some n, Some c) \<Rightarrow>
                   (case heap_down lt c (heap_replace n c h2) of
                      None \<Rightarrow> None
                    | Some h3 \<Rightarrow> heap_up lt c h3)
               | _ \<Rightarrow> None))"

definition heap_dequeue :: "(nat \<Rightarrow> nat \<Rightarrow> bool) \<Rightarrow> heap \<Rightarrow> heap option" where
  "heap_dequeue lt h = heap_remove lt (min_node h) h"

declare heap_up.simps [code] heap_down.simps [code]

end
