(* ===== verification/Uv_Heap_Shape.thy ===== *)
theory Uv_Heap_Shape
  imports Uv_Heap "HOL-Library.Multiset"
begin

text \<open>
  The pointer structure of the heap refines an array. \<open>shape h xs\<close>: the nodes of the heap are the list \<open>xs\<close>,
  position \<open>i\<close> linked to the positions \<open>2 * i\<close>, \<open>2 * i + 1\<close> and \<open>i div 2\<close>. Each step of the code is shown to be a
  step on the array: a swap of two nodes is a swap of two positions, the path computed from the bits of the
  size leads to the last position, and the loops up and down are the sifting loops of an array heap.
\<close>

section \<open>The heap as an array\<close>

text \<open>Position \<open>i\<close> of a heap stored in an array, counted from one; the children of \<open>i\<close> are \<open>2 * i\<close> and \<open>2 * i + 1\<close>.\<close>

definition tree :: "(nat \<Rightarrow> heap_node) \<Rightarrow> (nat \<Rightarrow> nat option) \<Rightarrow> bool" where
  "tree m f \<longleftrightarrow> f 0 = None \<and> (\<forall>i a. 2 \<le> i \<longrightarrow> f i = Some a \<longrightarrow> f (i div 2) \<noteq> None) \<and>
     (\<forall>i j a. f i = Some a \<longrightarrow> f j = Some a \<longrightarrow> i = j) \<and>
     (\<forall>i a. f i = Some a \<longrightarrow> m a = \<lparr>left = f (2 * i), right = f (2 * i + 1), parent = f (i div 2)\<rparr>)"

lemma heap_node_split: "n = n' \<longleftrightarrow> left n = left n' \<and> right n = right n' \<and> parent n = parent n'" for n n' :: heap_node
  by (cases n; cases n') simp

lemma set_node_fields [simp]:
  "nodes (set_node a f h) = (nodes h)(a := f (nodes h a))" "min_node (set_node a f h) = min_node h" "nelts (set_node a f h) = nelts h"
  by (simp_all add: set_node_def)

lemma set_parent_fields [simp]:
  "left (nodes (set_parent p q h) a) = left (nodes h a)" "right (nodes (set_parent p q h) a) = right (nodes h a)"
  "parent (nodes (set_parent p q h) a) = (if p = Some a then q else parent (nodes h a))"
  "min_node (set_parent p q h) = min_node h" "nelts (set_parent p q h) = nelts h"
  by (auto simp: set_parent_def split: option.splits)

lemma relink_fields [simp]:
  "left (nodes (relink up old new h) a) = (if up = Some a \<and> left (nodes h a) = Some old then Some new else left (nodes h a))"
  "right (nodes (relink up old new h) a) = (if up = Some a \<and> left (nodes h a) \<noteq> Some old then Some new else right (nodes h a))"
  "parent (nodes (relink up old new h) a) = parent (nodes h a)"
  "min_node (relink up old new h) = (if up = None then Some new else min_node h)" "nelts (relink up old new h) = nelts h"
  by (auto simp: relink_def split: option.splits)

definition sibling_of :: "heap_node \<Rightarrow> nat \<Rightarrow> nat option" where
  "sibling_of n c = (if left n = Some c then right n else left n)"

lemma swap_fields:
  fixes h :: heap and p c :: nat
  defines "m \<equiv> nodes h" and "h' \<equiv> heap_node_swap p c h"
  assumes "p \<noteq> c" "parent (m p) \<noteq> Some p" "parent (m p) \<noteq> Some c"
    and "left (m c) \<notin> {Some p, Some c}" "right (m c) \<notin> {Some p, Some c}" "sibling_of (m p) c \<notin> {Some p, Some c}"
  shows "left (nodes h' a) = (if a = p then left (m c) else if a = c then (if left (m p) = Some c then Some p else left (m p))
        else if parent (m p) = Some a \<and> left (m a) = Some p then Some c else left (m a))"
    and "right (nodes h' a) = (if a = p then right (m c) else if a = c then (if left (m p) = Some c then right (m p) else Some p)
        else if parent (m p) = Some a \<and> left (m a) \<noteq> Some p then Some c else right (m a))"
    and "parent (nodes h' a) = (if left (m c) = Some a \<or> right (m c) = Some a then Some p else if a = p \<or> sibling_of (m p) c = Some a then Some c
        else if a = c then parent (m p) else parent (m a))"
    and "min_node h' = (if parent (m p) = None then Some c else min_node h)" "nelts h' = nelts h"
  using assms by (auto simp: heap_node_swap_def sibling_of_def Let_def split: if_splits)


definition exchange :: "(nat \<Rightarrow> 'a) \<Rightarrow> nat \<Rightarrow> nat \<Rightarrow> nat \<Rightarrow> 'a" where
  "exchange f i j = f(i := f j, j := f i)"

lemma treeD:
  assumes "tree m f" "f i = Some a"
  shows "left (m a) = f (2 * i)" "right (m a) = f (2 * i + 1)" "parent (m a) = f (i div 2)" "1 \<le> i"
  using assms by (auto simp: tree_def) (cases i; simp)

lemma tree_inj: "tree m f \<Longrightarrow> f i = Some a \<Longrightarrow> f j = Some a \<longleftrightarrow> i = j"
  by (auto simp: tree_def)

text \<open>The situation of a swap: \<open>c\<close> is at position \<open>i\<close>, its parent \<open>p\<close> at \<open>i div 2\<close>.\<close>

lemma swap_pre:
  assumes t: "tree (nodes h) f" and c: "f i = Some c" and p: "f (i div 2) = Some p" and i: "2 \<le> i"
  shows "sibling_of (nodes h p) c = (if i = 2 * (i div 2) then f (2 * (i div 2) + 1) else f (2 * (i div 2)))"
    and "p \<noteq> c" "parent (nodes h p) \<noteq> Some p" "parent (nodes h p) \<noteq> Some c" "left (nodes h c) \<notin> {Some p, Some c}"
      "right (nodes h c) \<notin> {Some p, Some c}" "sibling_of (nodes h p) c \<notin> {Some p, Some c}"
proof -
  define q where "q = i div 2"
  have q: "i = 2 * q \<or> i = 2 * q + 1" "1 \<le> q" "q < i" using i by (auto simp: q_def)
  have p': "f q = Some p" using p by (simp add: q_def)
  note inj = tree_inj [OF t] and C = treeD [OF t c] and P = treeD [OF t p']
  have sib: "sibling_of (nodes h p) c = (if i = 2 * q then f (2 * q + 1) else f (2 * q))"
    using q c inj [OF c, of "2 * q"] by (auto simp: sibling_of_def P)
  then show "sibling_of (nodes h p) c = (if i = 2 * (i div 2) then f (2 * (i div 2) + 1) else f (2 * (i div 2)))"
    by (simp add: q_def)
  have ne: "f j \<noteq> Some c" if "j \<noteq> i" for j using inj [OF c] that by auto
  have ne': "f j \<noteq> Some p" if "j \<noteq> q" for j using inj [OF p'] that by auto
  show "p \<noteq> c" "parent (nodes h p) \<noteq> Some p" "parent (nodes h p) \<noteq> Some c" "left (nodes h c) \<notin> {Some p, Some c}"
      "right (nodes h c) \<notin> {Some p, Some c}" "sibling_of (nodes h p) c \<notin> {Some p, Some c}"
    unfolding sib using q i by (auto simp: C P q_def [symmetric] intro!: ne ne' dest!: sym [of p]) (use c p' inj in auto)
qed

text \<open>The two nodes that move, then all others.\<close>

lemma swap_moved:
  assumes t: "tree (nodes h) f" and c: "f i = Some c" and p: "f (i div 2) = Some p" and i: "2 \<le> i"
  defines "m \<equiv> nodes (heap_node_swap p c h)" and "f' \<equiv> exchange f (i div 2) i"
  shows "m c = \<lparr>left = f' (2 * (i div 2)), right = f' (2 * (i div 2) + 1), parent = f' (i div 2 div 2)\<rparr>"
    and "m p = \<lparr>left = f' (2 * i), right = f' (2 * i + 1), parent = f' (i div 2)\<rparr>"
proof -
  define q where "q = i div 2"
  have q: "i = 2 * q \<or> i = 2 * q + 1" "1 \<le> q" "q < i" using i by (auto simp: q_def)
  have p': "f q = Some p" using p by (simp add: q_def)
  note inj = tree_inj [OF t] and C = treeD [OF t c] and P = treeD [OF t p']
  note pre = swap_pre(2-7) [OF t c p i] and F = swap_fields [OF swap_pre(2-7) [OF t c p i]]
  have lp: "f (2 * q) = Some c \<longleftrightarrow> i = 2 * q" using inj [OF c] by auto
  have "parent (m c) = f (q div 2)" using pre by (auto simp: F P m_def)
  moreover have "f' (q div 2) = f (q div 2)" using q(2,3) by (auto simp: exchange_def f'_def q_def [symmetric])
  moreover have "left (m c) = f' (2 * q)" "right (m c) = f' (2 * q + 1)"
    using q c p' pre(1) by (auto simp: F P lp exchange_def m_def f'_def q_def [symmetric])
  ultimately show "m c = \<lparr>left = f' (2 * (i div 2)), right = f' (2 * (i div 2) + 1), parent = f' (i div 2 div 2)\<rparr>"
    by (simp add: heap_node_split q_def)
  have "parent (m p) = Some c" using pre by (auto simp: F m_def)
  moreover have "f' (i div 2) = Some c" using q c by (auto simp: exchange_def f'_def)
  moreover have "left (m p) = f' (2 * i)" "right (m p) = f' (2 * i + 1)"
    using q(2,3) c p' pre(1) by (auto simp: F C exchange_def m_def f'_def)
  ultimately show "m p = \<lparr>left = f' (2 * i), right = f' (2 * i + 1), parent = f' (i div 2)\<rparr>" by (simp add: heap_node_split)
qed

lemma swap_other:
  assumes t: "tree (nodes h) f" and c: "f i = Some c" and p: "f (i div 2) = Some p" and i: "2 \<le> i"
    and a: "j \<noteq> i div 2" "j \<noteq> i" "f j = Some a"
  defines "m \<equiv> nodes (heap_node_swap p c h)" and "f' \<equiv> exchange f (i div 2) i"
  shows "m a = \<lparr>left = f' (2 * j), right = f' (2 * j + 1), parent = f' (j div 2)\<rparr>"
proof -
  define q where "q = i div 2"
  have q: "i = 2 * q \<or> i = 2 * q + 1" "1 \<le> q" "q < i" using i by (auto simp: q_def)
  have p': "f q = Some p" and j: "j \<noteq> q" using p a(1) by (simp_all add: q_def)
  note inj = tree_inj [OF t] and C = treeD [OF t c] and P = treeD [OF t p'] and A = treeD [OF t a(3)] and ia = tree_inj [OF t a(3)]
  note F = swap_fields [OF swap_pre(2-7) [OF t c p i]]
  have ne': "f j \<noteq> Some p" if "j \<noteq> q" for j using inj [OF p'] that by auto
  have apc: "a \<noteq> p" "a \<noteq> c" using a(2,3) j c p' inj by auto
  have "j div 2 = q \<longleftrightarrow> j = 2 * q \<or> j = 2 * q + 1" by linarith
  moreover have "f (2 * q) = Some a \<longleftrightarrow> j = 2 * q" "f (2 * q + 1) = Some a \<longleftrightarrow> j = 2 * q + 1" using ia by metis+
  ultimately have sj: "sibling_of (nodes h p) c = Some a \<longleftrightarrow> j div 2 = q"
    using a(2) q(1) unfolding swap_pre(1) [OF t c p i, folded q_def] by (cases "i = 2 * q") simp_all
  have up: "f (q div 2) = Some a \<longleftrightarrow> q div 2 = j" using ia by metis
  have "j div 2 = i \<longleftrightarrow> j = 2 * i \<or> j = 2 * i + 1" by linarith
  then have kid: "left (nodes h c) = Some a \<or> right (nodes h c) = Some a \<longleftrightarrow> j div 2 = i" unfolding C using ia by metis
  have "left (m a) = f' (2 * j)" "right (m a) = f' (2 * j + 1)"
    using apc a(2,3) j q c p' by (auto simp: F P A up inj [OF p'] exchange_def ne' m_def f'_def q_def [symmetric])
  moreover have "parent (m a) = f' (j div 2)"
    using apc a(2,3) j q c p' by (simp add: F kid sj A exchange_def m_def f'_def q_def [symmetric])
  ultimately show ?thesis by (simp add: heap_node_split)
qed

lemma tree_swap:
  assumes t: "tree (nodes h) f" and c: "f i = Some c" and p: "f (i div 2) = Some p" and i: "2 \<le> i"
  shows "tree (nodes (heap_node_swap p c h)) (exchange f (i div 2) i)"
    and "min_node (heap_node_swap p c h) = (if i div 2 = 1 then Some c else min_node h)"
    and "nelts (heap_node_swap p c h) = nelts h"
proof -
  let ?f = "exchange f (i div 2) i" and ?m = "nodes (heap_node_swap p c h)"
  note inj = tree_inj [OF t] and F = swap_fields [OF swap_pre(2-7) [OF t c p i]]
  have f0: "f 0 = None" and q: "1 \<le> i div 2" using t i by (auto simp: tree_def)
  have "f (i div 2 div 2) = None \<longleftrightarrow> i div 2 = 1"
    using t p q f0 unfolding tree_def by (cases "i div 2 = 1") auto
  then show "min_node (heap_node_swap p c h) = (if i div 2 = 1 then Some c else min_node h)" "nelts (heap_node_swap p c h) = nelts h"
    by (simp_all add: F treeD [OF t p])
  show "tree ?m ?f"
    unfolding tree_def
  proof (intro conjI allI impI)
    show "?f 0 = None" using f0 q i by (simp add: exchange_def)
    show "?f (j div 2) \<noteq> None" if "2 \<le> j" "?f j = Some a" for j a
      using t that c p q i unfolding tree_def by (auto simp: exchange_def split: if_splits)
    show "j = k" if "?f j = Some a" "?f k = Some a" for j k a
      using that c p inj [of j a k] inj [OF c] inj [OF p] by (auto simp: exchange_def split: if_splits)
    show "?m a = \<lparr>left = ?f (2 * j), right = ?f (2 * j + 1), parent = ?f (j div 2)\<rparr>" if fj: "?f j = Some a" for j a
    proof -
      consider "j = i div 2" "a = c" | "j = i" "a = p" | "j \<noteq> i div 2" "j \<noteq> i" "f j = Some a"
        using fj c p by (auto simp: exchange_def split: if_splits)
      then show ?thesis
        using swap_moved [OF t c p i] swap_other [OF t c p i] by cases simp_all
    qed
  qed
qed

definition pos :: "nat list \<Rightarrow> nat \<Rightarrow> nat option" where
  "pos xs i = (if 1 \<le> i \<and> i \<le> length xs then Some (xs ! (i - 1)) else None)"

definition shape :: "heap \<Rightarrow> nat list \<Rightarrow> bool" where
  "shape h xs \<longleftrightarrow> tree (nodes h) (pos xs) \<and> min_node h = pos xs 1 \<and> nelts h = word_of_nat (length xs) \<and> length xs < 2 ^ 32"

definition swap_pos :: "nat list \<Rightarrow> nat \<Rightarrow> nat \<Rightarrow> nat list" where
  "swap_pos xs i j = xs[i - 1 := xs ! (j - 1), j - 1 := xs ! (i - 1)]"

lemma pos_Some: "pos xs i = Some a \<longleftrightarrow> 1 \<le> i \<and> i \<le> length xs \<and> xs ! (i - 1) = a"
  by (auto simp: pos_def)

lemma pos_None: "pos xs i = None \<longleftrightarrow> i = 0 \<or> length xs < i"
  by (auto simp: pos_def)

lemma length_swap_pos [simp]: "length (swap_pos xs i j) = length xs"
  by (simp add: swap_pos_def)

lemma pos_swap:
  "1 \<le> i \<Longrightarrow> i \<le> length xs \<Longrightarrow> 1 \<le> j \<Longrightarrow> j \<le> length xs \<Longrightarrow> pos (swap_pos xs i j) = exchange (pos xs) i j"
  by (auto simp: fun_eq_iff pos_def exchange_def swap_pos_def nth_list_update)

lemma mset_swap_pos [simp]:
  "1 \<le> i \<Longrightarrow> i \<le> length xs \<Longrightarrow> 1 \<le> j \<Longrightarrow> j \<le> length xs \<Longrightarrow> mset (swap_pos xs i j) = mset xs"
  by (simp add: swap_pos_def mset_swap)

lemma shape_swap:
  assumes "shape h xs" "pos xs i = Some c" "pos xs (i div 2) = Some p"
  shows "shape (heap_node_swap p c h) (swap_pos xs (i div 2) i)"
proof -
  have i: "2 \<le> i" "1 \<le> i" "i \<le> length xs" "i div 2 \<le> length xs" using assms(2,3) by (auto simp: pos_Some)
  have q: "1 \<le> i div 2" using i by simp
  note P = pos_swap [OF q i(4) i(2,3)]
  have s: "tree (nodes h) (pos xs)" "min_node h = pos xs 1" "nelts h = word_of_nat (length xs)" "length xs < 2 ^ 32"
    using assms(1) by (simp_all add: shape_def)
  note T = tree_swap [OF s(1) assms(2,3) i(1)]
  have "(if i div 2 = 1 then Some c else pos xs 1) = exchange (pos xs) (i div 2) i 1"
    using assms(2) i(1) by (auto simp: exchange_def)
  then have "min_node (heap_node_swap p c h) = exchange (pos xs) (i div 2) i 1" unfolding T(2) s(2) .
  with s(3,4) T(1,3) show ?thesis unfolding shape_def P by simp
qed

section \<open>Sifting in the array\<close>

function sift_up :: "(nat \<Rightarrow> nat \<Rightarrow> bool) \<Rightarrow> nat list \<Rightarrow> nat \<Rightarrow> nat list" where
  "sift_up lt xs i = (if 2 \<le> i \<and> lt (xs ! (i - 1)) (xs ! (i div 2 - 1)) then sift_up lt (swap_pos xs (i div 2) i) (i div 2) else xs)"
  by pat_completeness auto
termination by (relation "measure (\<lambda>(lt, xs, i). i)") auto

declare sift_up.simps [simp del]

definition least_child :: "(nat \<Rightarrow> nat \<Rightarrow> bool) \<Rightarrow> nat list \<Rightarrow> nat \<Rightarrow> nat" where
  "least_child lt xs i =
     (let s = (if 2 * i \<le> length xs \<and> lt (xs ! (2 * i - 1)) (xs ! (i - 1)) then 2 * i else i)
      in if 2 * i + 1 \<le> length xs \<and> lt (xs ! (2 * i)) (xs ! (s - 1)) then 2 * i + 1 else s)"

lemma least_child_cases: "least_child lt xs i = i \<or> least_child lt xs i = 2 * i \<and> 2 * i \<le> length xs \<or> least_child lt xs i = 2 * i + 1 \<and> 2 * i + 1 \<le> length xs"
  by (auto simp: least_child_def Let_def)

function sift_down :: "(nat \<Rightarrow> nat \<Rightarrow> bool) \<Rightarrow> nat list \<Rightarrow> nat \<Rightarrow> nat list \<times> nat" where
  "sift_down lt xs i = (let s = least_child lt xs i in if s = i then (xs, i) else sift_down lt (swap_pos xs i s) s)"
  by pat_completeness auto
termination
proof (relation "measure (\<lambda>(lt, xs, i). length xs + 1 - i)")
  fix lt xs i s assume "s = least_child lt xs i" "s \<noteq> i"
  with least_child_cases [of lt xs i] show "((lt, swap_pos xs i s, s), lt, xs, i) \<in> measure (\<lambda>(lt, xs, i). length xs + 1 - i)" by auto
qed simp

declare sift_down.simps [simp del]

lemma heap_up_shape:
  "shape h xs \<Longrightarrow> pos xs i = Some a \<Longrightarrow> \<exists>h'. heap_up lt a h = Some h' \<and> shape h' (sift_up lt xs i)"
proof (induction lt xs i arbitrary: h rule: sift_up.induct)
  case (1 lt xs i)
  have t: "tree (nodes h) (pos xs)" using 1(2) by (simp add: shape_def)
  note A = treeD [OF t 1(3)]
  show ?case
  proof (cases "2 \<le> i")
    case True
    then have "1 \<le> i div 2" "i div 2 \<le> length xs" using 1(3) by (auto simp: pos_Some)
    have lt2: "i div 2 \<noteq> i" using True by simp
    from \<open>1 \<le> i div 2\<close> \<open>i div 2 \<le> length xs\<close> obtain p where p: "pos xs (i div 2) = Some p" "p = xs ! (i div 2 - 1)" by (simp add: pos_def)
    have a: "a = xs ! (i - 1)" "1 \<le> i" "i \<le> length xs" using 1(3) by (simp_all add: pos_Some)
    show ?thesis
    proof (cases "lt a p")
      case lt: True
      have "pos (swap_pos xs (i div 2) i) (i div 2) = Some a"
        using a \<open>1 \<le> i div 2\<close> \<open>i div 2 \<le> length xs\<close> 1(3) p(1) lt2 by (simp add: pos_swap exchange_def)
      moreover have "heap_up lt a h = heap_up lt a (heap_node_swap p a h)"
        using A(3) p(1) lt by (simp add: heap_up.simps [of lt a h])
      moreover have "sift_up lt xs i = sift_up lt (swap_pos xs (i div 2) i) (i div 2)"
        using True lt a(1) p(2) by (simp add: sift_up.simps [of lt xs i])
      ultimately show ?thesis using 1(1) [OF _ shape_swap [OF 1(2,3) p(1)]] True lt a(1) p(2) by simp
    next
      case False
      then have "heap_up lt a h = Some h" using A(3) p(1) by (simp add: heap_up.simps [of lt a h])
      moreover have "sift_up lt xs i = xs" using False a(1) p(2) by (simp add: sift_up.simps [of lt xs i])
      ultimately show ?thesis using 1(2) by simp
    qed
  next
    case False
    then have "parent (nodes h a) = None" using A(3) by (simp add: pos_None)
    then show ?thesis using False 1(2) by (simp add: heap_up.simps [of lt a h] sift_up.simps [of lt xs i])
  qed
qed

lemma smallest_eq:
  assumes "shape h xs" "pos xs i = Some a"
  shows "pos xs (least_child lt xs i) = Some (smallest lt h a)"
proof -
  have t: "tree (nodes h) (pos xs)" using assms(1) by (simp add: shape_def)
  note A = treeD [OF t assms(2)]
  have a: "xs ! (i - 1) = a" "1 \<le> i" "i \<le> length xs" using assms(2) by (simp_all add: pos_Some)
  show ?thesis
    using a by (cases "2 * i \<le> length xs"; cases "2 * i + 1 \<le> length xs") (auto simp: smallest_def least_child_def A Let_def pos_def)
qed

lemma heap_down_shape:
  "shape h xs \<Longrightarrow> pos xs i = Some a \<Longrightarrow> \<exists>h'. heap_down lt a h = Some h' \<and> shape h' (fst (sift_down lt xs i)) \<and>
     pos (fst (sift_down lt xs i)) (snd (sift_down lt xs i)) = Some a"
proof (induction lt xs i arbitrary: h rule: sift_down.induct)
  case (1 lt xs i)
  define s where "s = least_child lt xs i"
  have ps: "pos xs s = Some (smallest lt h a)" using smallest_eq [OF 1(2,3)] by (simp add: s_def)
  have t: "tree (nodes h) (pos xs)" using 1(2) by (simp add: shape_def)
  have e: "smallest lt h a = a \<longleftrightarrow> s = i" using tree_inj [OF t ps, of i] 1(3) ps by auto
  show ?case
  proof (cases "s = i")
    case True
    with e 1(2,3) show ?thesis by (simp add: heap_down.simps [of lt a h] sift_down.simps [of lt xs i] s_def)
  next
    case False
    have s: "s div 2 = i" using least_child_cases [of lt xs i] False by (auto simp: s_def)
    have i: "1 \<le> i" "i \<le> length xs" "1 \<le> s" "s \<le> length xs" using 1(3) ps by (auto simp: pos_Some)
    have "shape (heap_node_swap a (smallest lt h a) h) (swap_pos xs i s)" using shape_swap [OF 1(2) ps] 1(3) s by simp
    moreover have "pos (swap_pos xs i s) s = Some a" using i 1(3) by (simp add: pos_swap exchange_def)
    ultimately show ?thesis
      using 1(1) [OF s_def False] e False by (simp add: heap_down.simps [of lt a h] sift_down.simps [of lt xs i] s_def [symmetric] Let_def)
  qed
qed

section \<open>The path to a position\<close>

fun follow :: "nat \<Rightarrow> nat \<Rightarrow> nat \<Rightarrow> nat" where
  "follow path 0 j = j"
| "follow path (Suc k) j = follow (path div 2) k (2 * j + path mod 2)"

lemma path_word_step:
  "unat path < 2 ^ 31 \<Longrightarrow> unat (push_bit 1 path OR (n AND 1)) = 2 * unat path + unat n mod 2" for path n :: u32
proof -
  assume b: "unat path < 2 ^ 31"
  have "n AND 1 = word_of_nat (unat n mod 2)" 
  proof -
    have "unat n mod 2 = unat (n mod 2)" by (simp add: unat_mod)
    then show ?thesis by (simp add: and_one_eq)
  qed
  then have "push_bit 1 path OR (n AND 1) = word_of_nat (unat n mod 2) + push_bit 1 path"
    using or_disjoint_add [of "unat n mod 2" 1 path] by (simp add: or.commute)
  also have "\<dots> = word_of_nat (2 * unat path + unat n mod 2)" by (simp add: push_bit_eq_mult)
  finally have "push_bit 1 path OR (n AND 1) = word_of_nat (2 * unat path + unat n mod 2)" .
  moreover have "2 * unat path + unat n mod 2 < 2 ^ 32" using b by (simp add: mod_less_divisor)
  ultimately show ?thesis using unat_word_of_nat [of "2 * unat path + unat n mod 2", where 'a = 32] by (simp del: of_nat_add of_nat_mult)
qed

lemma heap_path_follow:
  assumes "heap_path path k n = (path', k')" "unat path < 2 ^ k" "1 \<le> unat n" "unat n * 2 ^ k < 2 ^ 32"
  shows "follow (unat path') k' 1 = follow (unat path) k (unat n)"
  using assms
proof (induction path k n rule: heap_path.induct)
  case (1 path k n)
  show ?case
  proof (cases "2 \<le> n")
    case True
    then have n: "2 \<le> unat n" by (simp add: word_le_nat_alt)
    then have "2 ^ k * 2 \<le> 2 ^ k * unat n" by (intro mult_le_mono) simp_all
    then have "2 ^ Suc k < (2 :: nat) ^ 32" using "1.prems"(4) by (simp only: power_Suc mult.commute [of _ "2 ^ k"])
    then have "Suc k < 32" by (rule power_less_imp_less_exp [rotated]) simp
    then have "(2 :: nat) ^ k \<le> 2 ^ 30" by (intro power_increasing) simp_all
    then have b: "unat path < 2 ^ 31" using "1.prems"(2) by simp
    note s = path_word_step [OF b, of n]
    have d: "unat (n div 2) = unat n div 2" by (simp add: unat_div)
    have "unat (n div 2) * 2 ^ (k + 1) \<le> unat n * 2 ^ k" unfolding d by (simp add: mult.assoc [symmetric])
    then have c3: "unat (n div 2) * 2 ^ (k + 1) < 2 ^ 32" using "1.prems"(4) by linarith
    have c1: "unat (push_bit 1 path OR (n AND 1)) < 2 ^ (k + 1)"
    proof -
      have "unat n mod 2 < 2" "(2 :: nat) ^ (k + 1) = 2 * 2 ^ k" by simp_all
      with "1.prems"(2) show ?thesis unfolding s by linarith
    qed
    have c2: "1 \<le> unat (n div 2)" using n unfolding d by simp
    have "heap_path (push_bit 1 path OR (n AND 1)) (k + 1) (n div 2) = (path', k')"
      using "1.prems"(1) True by (simp add: heap_path.simps [of path k n])
    from "1.IH" [OF True this c1 c2 c3]
    have "follow (unat path') k' 1 = follow (2 * unat path + unat n mod 2) (k + 1) (unat n div 2)" unfolding s d .
    then show ?thesis by simp
  next
    case False
    then have "unat n = 1" using "1.prems"(3) by (simp add: word_le_nat_alt)
    with False "1.prems"(1) show ?thesis by (simp add: heap_path.simps [of path k n])
  qed
qed

definition slot_of :: "nat list \<Rightarrow> nat \<Rightarrow> slot" where
  "slot_of xs j = (if j = 1 then Min_slot else if even j then Left_slot (xs ! (j div 2 - 1)) else Right_slot (xs ! (j div 2 - 1)))"

lemma follow_le: "j * 2 ^ k \<le> follow path k j"
  by (induction path k j rule: follow.induct) (auto simp: algebra_simps intro: le_trans [rotated])

lemma follow_bound: "0 < k \<Longrightarrow> 2 * j \<le> follow path k j"
  using follow_le [of j k path] by (cases k) (auto simp: algebra_simps intro: le_trans [rotated])

lemma read_slot_of:
  assumes "shape h xs" "1 \<le> j" "j \<le> length xs + 1"
  shows "read_slot h (slot_of xs j) = pos xs j"
proof (cases "j = 1")
  case True
  with assms(1) show ?thesis by (simp add: slot_of_def shape_def)
next
  case False
  have t: "tree (nodes h) (pos xs)" using assms(1) by (simp add: shape_def)
  have "pos xs (j div 2) = Some (xs ! (j div 2 - 1))" using assms(2,3) False by (auto simp: pos_def)
  from treeD [OF t this] False show ?thesis
    by (cases "even j") (auto simp: slot_of_def elim!: evenE oddE)
qed

lemma low_bit_word: "path AND 1 \<noteq> 0 \<longleftrightarrow> odd (unat path)" for path :: u32
proof -
  have "path AND 1 = 0 \<longleftrightarrow> unat (path mod 2) = 0" by (simp add: and_one_eq unat_eq_zero)
  then show ?thesis by (simp add: unat_mod even_iff_mod_2_eq_zero)
qed

lemma heap_walk_follow:
  assumes "shape h xs" "1 \<le> j" "follow (unat path) k j \<le> length xs + 1"
  shows "heap_walk h (slot_of xs u) (slot_of xs j) path k =
    Some (if k = 0 then slot_of xs u else slot_of xs (follow (unat path) k j div 2), slot_of xs (follow (unat path) k j))"
  using assms
proof (induction k arbitrary: j u path)
  case (Suc k)
  have "2 * j \<le> length xs + 1" using follow_bound [of "Suc k" j "unat path"] Suc.prems(3) by simp
  then have j: "j \<le> length xs" using Suc.prems(2) by simp
  have r: "read_slot h (slot_of xs j) = Some (xs ! (j - 1))" using read_slot_of [OF Suc.prems(1,2)] j Suc.prems(2) by (simp add: pos_def)
  have d: "unat (drop_bit 1 path) = unat path div 2" by (simp add: drop_bit_eq_div unat_div)
  have s: "(if path AND 1 \<noteq> 0 then Right_slot (xs ! (j - 1)) else Left_slot (xs ! (j - 1))) = slot_of xs (2 * j + unat path mod 2)"
    using Suc.prems(2) unfolding low_bit_word by (cases "even (unat path)") (auto simp: slot_of_def odd_iff_mod_2_eq_one)
  have "heap_walk h (slot_of xs u) (slot_of xs j) path (Suc k) =
      heap_walk h (slot_of xs j) (slot_of xs (2 * j + unat path mod 2)) (drop_bit 1 path) k"
    unfolding s [symmetric] using r by simp
  also have "\<dots> = Some (if k = 0 then slot_of xs j else slot_of xs (follow (unat (drop_bit 1 path)) k (2 * j + unat path mod 2) div 2),
      slot_of xs (follow (unat (drop_bit 1 path)) k (2 * j + unat path mod 2)))"
    by (rule Suc.IH) (use Suc.prems d in auto)
  finally show ?case using d by (cases k) auto
qed simp

lemma path_walk:
  assumes "shape h xs" "1 \<le> unat n" "unat n \<le> length xs + 1" "heap_path 0 0 n = (path, k)"
  shows "heap_walk h Min_slot Min_slot path k = Some (slot_of xs (if unat n = 1 then 1 else unat n div 2), slot_of xs (unat n))"
proof -
  have f: "follow (unat path) k 1 = unat n"
    using heap_path_follow [OF assms(4)] assms(2) unat_lt_u32 [of n] by simp
  have "k = 0 \<longleftrightarrow> unat n = 1" using f follow_bound [of k 1 "unat path"] by (cases k) auto
  with heap_walk_follow [OF assms(1), of 1 path k 1] f assms(2,3) show ?thesis by (auto simp: slot_of_def)
qed

section \<open>Insertion\<close>

lemma pos_snoc: "pos (xs @ [x]) = (pos xs)(length xs + 1 := Some x)"
  by (auto simp: fun_eq_iff pos_def nth_append)

lemma pos_in_set: "pos xs i = Some a \<Longrightarrow> a \<in> set xs"
  by (auto simp: pos_Some)

lemma tree_cong: "tree m f \<Longrightarrow> (\<And>i a. f i = Some a \<Longrightarrow> m' a = m a) \<Longrightarrow> tree m' f"
  by (auto simp: tree_def)

lemma slot_write_fields:
  "left (nodes (write_slot s p h) a) = (if s = Left_slot a then p else left (nodes h a))"
  "right (nodes (write_slot s p h) a) = (if s = Right_slot a then p else right (nodes h a))"
  "parent (nodes (write_slot s p h) a) = parent (nodes h a)"
  "min_node (write_slot s p h) = (if s = Min_slot then p else min_node h)"
  "nelts (write_slot s p h) = nelts h"
  by (cases s; simp)+

lemma slot_of_eq:
  assumes "tree m (pos xs)" "pos xs j = Some a" "2 \<le> i" "i \<le> length xs + 1"
  shows "slot_of xs i = Left_slot a \<longleftrightarrow> i = 2 * j" "slot_of xs i = Right_slot a \<longleftrightarrow> i = 2 * j + 1"
proof -
  have "pos xs (i div 2) = Some (xs ! (i div 2 - 1))" using assms(3,4) by (auto simp: pos_def)
  then have "xs ! (i div 2 - 1) = a \<longleftrightarrow> i div 2 = j" using tree_inj [OF assms(1,2), of "i div 2"] by auto
  then show "slot_of xs i = Left_slot a \<longleftrightarrow> i = 2 * j" "slot_of xs i = Right_slot a \<longleftrightarrow> i = 2 * j + 1"
    using assms(3) by (cases "even i"; auto simp: slot_of_def elim!: evenE oddE)+
qed

lemma tree_append:
  fixes xs :: "nat list"
  defines "n \<equiv> length xs + 1"
  assumes t: "tree (nodes h) (pos xs)" and x: "x \<notin> set xs"
    and m: "nodes h x = \<lparr>left = None, right = None, parent = pos xs (n div 2)\<rparr>"
  shows "tree (nodes (write_slot (slot_of xs n) (Some x) h)) (pos (xs @ [x]))"
proof -
  let ?m = "nodes (write_slot (slot_of xs n) (Some x) h)" and ?f = "pos (xs @ [x])"
  have f: "?f = (pos xs)(n := Some x)" by (simp add: pos_snoc n_def)
  have sx: "slot_of xs n \<noteq> Left_slot x" "slot_of xs n \<noteq> Right_slot x"
  proof -
    have "xs \<noteq> [] \<Longrightarrow> xs ! (n div 2 - 1) \<in> set xs" by (intro nth_mem) (cases xs; auto simp: n_def)
    then show "slot_of xs n \<noteq> Left_slot x" "slot_of xs n \<noteq> Right_slot x" using x by (auto simp: slot_of_def n_def)
  qed
  show ?thesis
    unfolding tree_def
  proof (intro conjI allI impI)
    show "?f 0 = None" by (simp add: pos_def)
    show "?f (i div 2) \<noteq> None" if "2 \<le> i" "?f i = Some a" for i a
      using that by (auto simp: pos_None pos_Some)
    show "i = j" if "?f i = Some a" "?f j = Some a" for i j a
      using that tree_inj [OF t] x by (auto simp: f dest: pos_in_set split: if_splits)
    show "?m a = \<lparr>left = ?f (2 * i), right = ?f (2 * i + 1), parent = ?f (i div 2)\<rparr>" if a: "?f i = Some a" for i a
    proof (cases "i = n")
      case True
      then have "a = x" using a by (simp add: f)
      then show ?thesis
        using True sx m pos_None [of xs "2 * n"] pos_None [of xs "2 * n + 1"]
        by (auto simp: heap_node_split slot_write_fields f n_def)
    next
      case False
      with a have p: "pos xs i = Some a" by (simp add: f)
      note A = treeD [OF t p]
      have i: "1 \<le> i" "i < n" using p by (auto simp: pos_Some n_def)
      then have "2 \<le> n" by simp
      note s = slot_of_eq [OF t p this, folded n_def]
      show ?thesis using i A s by (auto simp: heap_node_split slot_write_fields f n_def)
    qed
  qed
qed

lemma heap_insert_shape:
  assumes s: "shape h xs" and x: "x \<notin> set xs" and n: "length xs + 1 < 2 ^ 32"
  shows "\<exists>h'. heap_insert lt x h = Some h' \<and> shape h' (sift_up lt (xs @ [x]) (length xs + 1))"
proof -
  define h1 where "h1 = h\<lparr>nodes := (nodes h)(x := \<lparr>left = None, right = None, parent = None\<rparr>)\<rparr>"
  have h1: "shape h1 xs" using s x by (auto simp: shape_def h1_def dest!: pos_in_set elim!: tree_cong)
  have un: "unat (1 + nelts h1) = length xs + 1"
    using h1 n by (simp add: shape_def unat_word_of_nat unat_plus_if')
  obtain path k where pk: "heap_path 0 0 (1 + nelts h1) = (path, k)" by (cases "heap_path 0 0 (1 + nelts h1)")
  define up where "up = slot_of xs (if length xs + 1 = 1 then 1 else (length xs + 1) div 2)"
  have w: "heap_walk h1 Min_slot Min_slot path k = Some (up, slot_of xs (length xs + 1))"
    using path_walk [OF h1 _ _ pk] un by (simp add: up_def)
  have ru: "read_slot h1 up = pos xs ((length xs + 1) div 2)"
  proof (cases "xs = []")
    case True
    then show ?thesis using read_slot_of [OF h1, of 1] by (simp add: up_def pos_def)
  next
    case False
    then have "1 \<le> (length xs + 1) div 2" by (cases xs) auto
    from read_slot_of [OF h1 this] False show ?thesis by (simp add: up_def)
  qed
  define h2 where "h2 = set_node x (parent_update (\<lambda>_. read_slot h1 up)) h1"
  have t2: "tree (nodes h2) (pos xs)" using h1 x by (auto simp: shape_def h2_def dest!: pos_in_set elim!: tree_cong)
  have m2: "nodes h2 x = \<lparr>left = None, right = None, parent = pos xs ((length xs + 1) div 2)\<rparr>"
    by (simp add: h2_def ru) (simp add: h1_def)
  define h3 where "h3 = write_slot (slot_of xs (length xs + 1)) (Some x) h2"
  define h4 where "h4 = h3\<lparr>nelts := nelts h3 + 1\<rparr>"
  have "min_node h3 = pos (xs @ [x]) 1"
    using h1 by (auto simp: h3_def slot_write_fields h2_def shape_def slot_of_def pos_def nth_append not_less_eq_eq split: if_splits)
  then have s4: "shape h4 (xs @ [x])"
    using tree_append [OF t2 x m2] h1 n by (simp add: shape_def h4_def h3_def slot_write_fields h2_def add.commute)
  have "heap_insert lt x h = heap_up lt x h4"
    using w pk by (simp add: heap_insert_def h1_def [symmetric] h2_def [symmetric] Let_def) (simp add: h4_def h3_def)
  with heap_up_shape [OF s4, of "length xs + 1" x] show ?thesis by (simp add: pos_snoc)
qed

section \<open>Removal\<close>

lemma pos_butlast: "xs \<noteq> [] \<Longrightarrow> pos (butlast xs) = (pos xs)(length xs := None)"
  by (auto simp: fun_eq_iff pos_def nth_butlast)

lemma pos_update: "1 \<le> i \<Longrightarrow> i \<le> length xs \<Longrightarrow> pos (xs[i - 1 := c]) = (pos xs)(i := Some c)"
  by (auto simp: fun_eq_iff pos_def nth_list_update)

lemma tree_distinct: "tree m (pos xs) \<Longrightarrow> distinct xs"
  unfolding distinct_conv_nth
proof (intro allI impI)
  fix i j assume t: "tree m (pos xs)" and ij: "i < length xs" "j < length xs" "i \<noteq> j"
  have "pos xs (Suc i) = Some (xs ! i)" "pos xs (Suc j) = Some (xs ! j)" using ij by (simp_all add: pos_def)
  with tree_inj [OF t, of "Suc i" "xs ! i" "Suc j"] ij(3) show "xs ! i \<noteq> xs ! j" by auto
qed

lemma tree_unlink:
  fixes xs :: "nat list"
  defines "n \<equiv> length xs"
  assumes t: "tree (nodes h) (pos xs)" and x: "xs \<noteq> []"
  shows "tree (nodes (write_slot (slot_of xs n) None h)) (pos (butlast xs))"
proof -
  let ?m = "nodes (write_slot (slot_of xs n) None h)" and ?f = "pos (butlast xs)"
  have f: "?f = (pos xs)(n := None)" using pos_butlast [OF x] by (simp add: n_def)
  show ?thesis
    unfolding tree_def
  proof (intro conjI allI impI)
    show "?f 0 = None" by (simp add: pos_def)
    show "?f (i div 2) \<noteq> None" if "2 \<le> i" "?f i = Some a" for i a
      using that by (auto simp: pos_None pos_Some)
    show "i = j" if "?f i = Some a" "?f j = Some a" for i j a
      using that tree_inj [OF t] by (auto simp: f split: if_splits)
    show "?m a = \<lparr>left = ?f (2 * i), right = ?f (2 * i + 1), parent = ?f (i div 2)\<rparr>" if a: "?f i = Some a" for i a
    proof -
      from a have p: "pos xs i = Some a" "i \<noteq> n" by (auto simp: f split: if_splits)
      note A = treeD [OF t p(1)]
      have i: "1 \<le> i" "i < n" using p by (auto simp: pos_Some n_def)
      then have "2 \<le> n" "n \<le> length xs + 1" by (simp_all add: n_def)
      note s = slot_of_eq [OF t p(1) this]
      have "i div 2 \<noteq> n" using i by auto
      then show ?thesis using A s by (auto simp: heap_node_split slot_write_fields f)
    qed
  qed
qed

lemma replace_fields:
  fixes h :: heap and a c :: nat
  defines "m \<equiv> nodes h" and "h' \<equiv> heap_replace a c h"
  assumes "a \<noteq> c" "left (m a) \<notin> {Some a, Some c}" "right (m a) \<notin> {Some a, Some c}" "parent (m a) \<notin> {Some a, Some c}"
  shows "left (nodes h' x) = (if x = c then left (m a) else if parent (m a) = Some x \<and> left (m x) = Some a then Some c else left (m x))"
    and "right (nodes h' x) = (if x = c then right (m a) else if parent (m a) = Some x \<and> left (m x) \<noteq> Some a then Some c else right (m x))"
    and "parent (nodes h' x) = (if left (m a) = Some x \<or> right (m a) = Some x then Some c else if x = c then parent (m a) else parent (m x))"
    and "min_node h' = (if parent (m a) = None then Some c else min_node h)" "nelts h' = nelts h"
  using assms by (auto simp: heap_replace_def Let_def)

lemma tree_replace:
  assumes t: "tree (nodes h) f" and a: "f i = Some a" and c: "\<And>j. f j \<noteq> Some c"
  shows "tree (nodes (heap_replace a c h)) (f(i := Some c))"
    and "min_node (heap_replace a c h) = (if i = 1 then Some c else min_node h)" "nelts (heap_replace a c h) = nelts h"
proof -
  let ?m = "nodes (heap_replace a c h)" and ?f = "f(i := Some c)"
  note inj = tree_inj [OF t] and A = treeD [OF t a]
  have f0: "f 0 = None" and i0: "i \<noteq> 0" using t a by (auto simp: tree_def intro: gr0I)
  have ne: "f j \<noteq> Some a" if "j \<noteq> i" for j using inj [OF a] that by auto
  have pre: "a \<noteq> c" "left (nodes h a) \<notin> {Some a, Some c}" "right (nodes h a) \<notin> {Some a, Some c}" "parent (nodes h a) \<notin> {Some a, Some c}"
    using a c i0 by (auto simp: A intro!: ne)
  note F = replace_fields [OF pre]
  have "f (i div 2) = None \<longleftrightarrow> i = 1" using t a f0 i0 unfolding tree_def by (cases "i = 1") auto
  then show "min_node (heap_replace a c h) = (if i = 1 then Some c else min_node h)" "nelts (heap_replace a c h) = nelts h"
    by (simp_all add: F A)
  show "tree ?m ?f"
    unfolding tree_def
  proof (intro conjI allI impI)
    show "?f 0 = None" using f0 i0 by simp
    show "?f (j div 2) \<noteq> None" if "2 \<le> j" "?f j = Some x" for j x
      using t that a unfolding tree_def by (auto split: if_splits)
    show "j = k" if "?f j = Some x" "?f k = Some x" for j k x
      using that inj c by (auto split: if_splits)
    show "?m x = \<lparr>left = ?f (2 * j), right = ?f (2 * j + 1), parent = ?f (j div 2)\<rparr>" if x: "?f j = Some x" for j x
    proof (cases "j = i")
      case True
      then have "x = c" using x by simp
      moreover have "2 * i \<noteq> i" "2 * i + 1 \<noteq> i" "i div 2 \<noteq> i" using i0 by auto
      ultimately show ?thesis using True pre by (auto simp: heap_node_split F A)
    next
      case False
      with x have p: "f j = Some x" by simp
      then have xc: "x \<noteq> c" "x \<noteq> a" using c ne [OF False] by auto
      note X = treeD [OF t p] and ix = inj [OF p]
      have up: "f (i div 2) = Some x \<longleftrightarrow> i div 2 = j" using ix by metis
      have "j div 2 = i \<longleftrightarrow> j = 2 * i \<or> j = 2 * i + 1" by linarith
      then have kid: "left (nodes h a) = Some x \<or> right (nodes h a) = Some x \<longleftrightarrow> j div 2 = i" unfolding A using ix by metis
      have "left (?m x) = ?f (2 * j)" "right (?m x) = ?f (2 * j + 1)" using xc by (auto simp: F A X up inj [OF a] ne)
      moreover have "parent (?m x) = ?f (j div 2)" using xc by (simp add: F kid X)
      ultimately show ?thesis by (simp add: heap_node_split)
    qed
  qed
qed

text \<open>The array operation that \<open>heap_remove\<close> performs.\<close>

definition array_remove :: "(nat \<Rightarrow> nat \<Rightarrow> bool) \<Rightarrow> nat list \<Rightarrow> nat \<Rightarrow> nat list" where
  "array_remove lt xs i =
     (if i = length xs then butlast xs else case sift_down lt ((butlast xs)[i - 1 := last xs]) i of (ys, j) \<Rightarrow> sift_up lt ys j)"

lemma heap_remove_shape:
  assumes s: "shape h xs" and a: "pos xs i = Some a"
  shows "\<exists>h'. heap_remove lt (Some a) h = Some h' \<and> shape h' (array_remove lt xs i)"
proof -
  have n: "1 \<le> i" "i \<le> length xs" "xs \<noteq> []" using a by (auto simp: pos_Some)
  have t: "tree (nodes h) (pos xs)" and l: "length xs < 2 ^ 32" and ne: "nelts h = word_of_nat (length xs)" and mn: "min_node h = pos xs 1"
    using s by (simp_all add: shape_def)
  have un: "unat (nelts h) = length xs" using l ne by (simp add: unat_word_of_nat)
  then have nz: "nelts h \<noteq> 0" using n by auto
  obtain path k where pk: "heap_path 0 0 (nelts h) = (path, k)" by (cases "heap_path 0 0 (nelts h)")
  let ?slot = "slot_of xs (length xs)"
  obtain up where w: "heap_walk h Min_slot Min_slot path k = Some (up, ?slot)"
    using path_walk [OF s _ _ pk] un n by fastforce
  define h1 where "h1 = h\<lparr>nelts := nelts h - 1\<rparr>"
  define c where "c = last xs"
  have pc: "pos xs (length xs) = Some c" using n by (simp add: pos_def c_def last_conv_nth)
  have rc: "read_slot h1 ?slot = Some c"
  proof -
    have "read_slot h1 ?slot = read_slot h ?slot" by (cases ?slot) (simp_all add: h1_def)
    also have "\<dots> = Some c" using read_slot_of [OF s, of "length xs"] n pc by (auto simp: Suc_le_eq)
    finally show ?thesis .
  qed
  define h2 where "h2 = write_slot ?slot None h1"
  have "tree (nodes h1) (pos xs)" using t by (simp add: h1_def)
  from tree_unlink [OF this n(3)] have t2: "tree (nodes h2) (pos (butlast xs))" by (simp add: h2_def)
  have n2: "nelts h2 = word_of_nat (length (butlast xs))"
    using ne n(3) by (simp add: h2_def slot_write_fields h1_def of_nat_diff Suc_le_eq)
  have m2: "min_node h2 = pos (butlast xs) 1"
    using mn n(3) by (cases "length xs = 1") (auto simp: h2_def slot_write_fields h1_def slot_of_def pos_butlast pos_def)
  have ac: "a = c \<longleftrightarrow> i = length xs" using tree_inj [OF t a] tree_inj [OF t pc] a pc by (metis option.inject)
  show ?thesis
  proof (cases "i = length xs")
    case True
    have "pos (butlast xs) 1 \<noteq> Some c" using tree_inj [OF t pc, of 1] n(3) by (auto simp: pos_butlast split: if_splits)
    then have "heap_remove lt (Some a) h = Some h2"
      using nz pk w rc m2 True ac by (simp add: heap_remove_def h1_def [symmetric] h2_def [symmetric] Let_def)
    moreover have "shape h2 (butlast xs)" using t2 n2 m2 l by (simp add: shape_def)
    ultimately show ?thesis using True by (simp add: array_remove_def)
  next
    case False
    let ?ys = "(butlast xs)[i - 1 := c]"
    have ib: "i \<le> length (butlast xs)" using n False by simp
    have pa: "pos (butlast xs) i = Some a" using a False n(3) by (simp add: pos_butlast)
    have pnc: "pos (butlast xs) j \<noteq> Some c" for j using tree_inj [OF t pc, of j] n(3) by (auto simp: pos_butlast)
    note R = tree_replace [OF t2 pa pnc]
    have py: "pos ?ys = (pos (butlast xs))(i := Some c)" using pos_update [OF n(1) ib] .
    have s3: "shape (heap_replace a c h2) ?ys"
      unfolding shape_def py using R n2 m2 l by auto
    have "pos ?ys i = Some c" unfolding py by simp
    from heap_down_shape [OF s3 this, of lt] obtain h3 ys j where d: "heap_down lt c (heap_replace a c h2) = Some h3"
      "sift_down lt ?ys i = (ys, j)" "shape h3 ys" "pos ys j = Some c" by (cases "sift_down lt ?ys i") auto
    from heap_up_shape [OF d(3,4), of lt] obtain h4 where u: "heap_up lt c h3 = Some h4" "shape h4 (sift_up lt ys j)" by blast
    have "heap_remove lt (Some a) h = Some h4"
      using nz pk w rc False ac d(1) u(1) by (simp add: heap_remove_def h1_def [symmetric] h2_def [symmetric] Let_def)
    then show ?thesis using u(2) d(2) False by (simp add: array_remove_def c_def)
  qed
qed

end
