(* ===== verification/Uv_Heap_Order.thy ===== *)
theory Uv_Heap_Order
  imports Uv_Heap_Shape
begin

text \<open>
  The order of the heap and its contract. \<open>heap_order\<close> is what a client promises about its callback
  \<open>less_than\<close>; \<open>min_queue\<close> is what the heap promises in return. Sifting restores the order around the one
  position where it may be broken, so every operation keeps the invariant \<open>heap_holds\<close>.
\<close>

section \<open>The order\<close>

definition val :: "nat list \<Rightarrow> nat \<Rightarrow> nat" where
  "val xs j = xs ! (j - 1)"

lemma val_swap:
  "1 \<le> i \<Longrightarrow> i \<le> length xs \<Longrightarrow> 1 \<le> j \<Longrightarrow> j \<le> length xs \<Longrightarrow> 1 \<le> k \<Longrightarrow> k \<le> length xs \<Longrightarrow>
   val (swap_pos xs i j) k = (if k = j then val xs i else if k = i then val xs j else val xs k)"
  by (auto simp: val_def swap_pos_def nth_list_update)

text \<open>Each node is not below its parent; the second predicate is what remains of it around a node \<open>i\<close> that has been
  replaced: the children of \<open>i\<close> are not below the parent of \<open>i\<close>.\<close>

definition edge :: "(nat \<Rightarrow> nat \<Rightarrow> bool) \<Rightarrow> nat list \<Rightarrow> nat \<Rightarrow> bool" where
  "edge lt xs j \<longleftrightarrow> \<not> lt (val xs j) (val xs (j div 2))"

definition heap_ok :: "(nat \<Rightarrow> nat \<Rightarrow> bool) \<Rightarrow> nat list \<Rightarrow> bool" where
  "heap_ok lt xs \<longleftrightarrow> (\<forall>j. 2 \<le> j \<longrightarrow> j \<le> length xs \<longrightarrow> edge lt xs j)"

definition bridged :: "(nat \<Rightarrow> nat \<Rightarrow> bool) \<Rightarrow> nat list \<Rightarrow> nat \<Rightarrow> bool" where
  "bridged lt xs i \<longleftrightarrow> (\<forall>j. 2 \<le> i \<longrightarrow> j \<le> length xs \<longrightarrow> j div 2 = i \<longrightarrow> \<not> lt (val xs j) (val xs (i div 2)))"

lemma mset_sift_up: "1 \<le> i \<Longrightarrow> i \<le> length xs \<Longrightarrow> mset (sift_up lt xs i) = mset xs"
proof (induction lt xs i rule: sift_up.induct)
  case (1 lt xs i)
  then show ?case by (subst sift_up.simps) auto
qed

lemma mset_sift_down: "1 \<le> i \<Longrightarrow> i \<le> length xs \<Longrightarrow> mset (fst (sift_down lt xs i)) = mset xs"
proof (induction lt xs i rule: sift_down.induct)
  case (1 lt xs i)
  have "1 \<le> least_child lt xs i" "least_child lt xs i \<le> length xs" using least_child_cases [of lt xs i] 1(2,3) by auto
  with 1 show ?case by (subst sift_down.simps) (auto simp: Let_def)
qed

text \<open>What a client's \<open>less_than\<close> must be: a strict weak order.\<close>

locale heap_order =
  fixes lt :: "nat \<Rightarrow> nat \<Rightarrow> bool"
  assumes asym: "lt a b \<Longrightarrow> \<not> lt b a"
    and not_lt_trans: "\<not> lt b a \<Longrightarrow> \<not> lt c b \<Longrightarrow> \<not> lt c a"
begin

lemma sift_up_step:
  assumes i: "2 \<le> i" "i \<le> length xs" and e: "\<forall>j. 2 \<le> j \<longrightarrow> j \<le> length xs \<longrightarrow> j \<noteq> i \<longrightarrow> edge lt xs j" and b: "bridged lt xs i"
    and l: "lt (val xs i) (val xs (i div 2))"
  defines "ys \<equiv> swap_pos xs (i div 2) i"
  shows "\<forall>j. 2 \<le> j \<longrightarrow> j \<le> length ys \<longrightarrow> j \<noteq> i div 2 \<longrightarrow> edge lt ys j" "bridged lt ys (i div 2)"
proof -
  define q where "q = i div 2"
  have q: "1 \<le> q" "q < i" "q \<le> length xs" using i by (auto simp: q_def)
  have v: "val ys k = (if k = i then val xs q else if k = q then val xs i else val xs k)" if "1 \<le> k" "k \<le> length xs" for k
    using val_swap [of q xs i k] q i that by (simp add: ys_def q_def [symmetric])
  have l': "lt (val xs i) (val xs q)" using l by (simp add: q_def)
  have e': "\<not> lt (val xs j) (val xs (j div 2))" if "2 \<le> j" "j \<le> length xs" "j \<noteq> i" for j
    using e that by (simp add: edge_def)
  have b': "\<not> lt (val xs j) (val xs q)" if "j \<le> length xs" "j div 2 = i" for j
    using b i that by (auto simp: bridged_def q_def)
  show "\<forall>j. 2 \<le> j \<longrightarrow> j \<le> length ys \<longrightarrow> j \<noteq> i div 2 \<longrightarrow> edge lt ys j"
  proof (intro allI impI)
    fix j assume j: "2 \<le> j" "j \<le> length ys" "j \<noteq> i div 2"
    then have jx: "j \<le> length xs" "j \<noteq> q" "1 \<le> j div 2" "j div 2 \<le> length xs" by (auto simp: ys_def q_def)
    have vj: "val ys j = (if j = i then val xs q else val xs j)" using v [of j] j(1) jx by simp
    consider "j = i" | "j \<noteq> i" "j div 2 = q" | "j \<noteq> i" "j div 2 = i" | "j \<noteq> i" "j div 2 \<noteq> q" "j div 2 \<noteq> i" by blast
    then have "\<not> lt (val ys j) (val ys (j div 2))"
    proof cases
      case 1
      then have "j div 2 = q" by (simp add: q_def)
      with 1 show ?thesis using asym [OF l'] q v [of q] vj by simp
    next
      case 2
      then show ?thesis using not_lt_trans [OF asym [OF l'], of "val xs j"] e' [OF j(1) jx(1)] vj v [of q] q by simp
    next
      case 3
      then show ?thesis using b' [OF jx(1)] vj v [of i] i by simp
    next
      case 4
      then show ?thesis using e' [OF j(1) jx(1)] vj v [OF jx(3,4)] by simp
    qed
    then show "edge lt ys j" by (simp add: edge_def)
  qed
  show "bridged lt ys (i div 2)"
    unfolding bridged_def q_def [symmetric]
  proof (intro allI impI)
    fix j assume j: "2 \<le> q" "j \<le> length ys" "j div 2 = q"
    have jx: "2 \<le> j" "j \<le> length xs" "j \<noteq> q" using j by (auto simp: ys_def)
    have g: "\<not> lt (val xs q) (val xs (q div 2))" using e' [of q] j(1) q by simp
    have vg: "val ys (q div 2) = val xs (q div 2)" using v [of "q div 2"] j(1) q by auto
    show "\<not> lt (val ys j) (val ys (q div 2))"
    proof (cases "j = i")
      case True
      then show ?thesis using g vg v [of i] i by simp
    next
      case False
      then show ?thesis using not_lt_trans [OF g, of "val xs j"] e' [OF jx(1,2) False] j(3) vg v [of j] jx by simp
    qed
  qed
qed

lemma sift_up_ok:
  "1 \<le> i \<Longrightarrow> i \<le> length xs \<Longrightarrow> \<forall>j. 2 \<le> j \<longrightarrow> j \<le> length xs \<longrightarrow> j \<noteq> i \<longrightarrow> edge lt xs j \<Longrightarrow> bridged lt xs i \<Longrightarrow>
   heap_ok lt (sift_up lt xs i)"
proof (induction i arbitrary: xs rule: less_induct)
  case (less i)
  show ?case
  proof (cases "2 \<le> i \<and> lt (val xs i) (val xs (i div 2))")
    case True
    then have i: "2 \<le> i" "lt (val xs i) (val xs (i div 2))" by simp_all
    note s = sift_up_step [OF i(1) less.prems(2,3,4) i(2)]
    have "heap_ok lt (sift_up lt (swap_pos xs (i div 2) i) (i div 2))"
      by (rule less.IH) (use i(1) less.prems(2) s in auto)
    then show ?thesis using True by (simp add: sift_up.simps [of lt xs i] val_def)
  next
    case False
    then have "edge lt xs i" if "2 \<le> i" using that by (simp add: edge_def)
    then show ?thesis using False less.prems(3) by (auto simp: sift_up.simps [of lt xs i] val_def heap_ok_def)
  qed
qed

lemma least_child_least:
  assumes "2 \<le> j" "j \<le> length xs" "j div 2 = i"
  shows "\<not> lt (val xs j) (val xs (least_child lt xs i))"
proof -
  define s where "s = (if 2 * i \<le> length xs \<and> lt (val xs (2 * i)) (val xs i) then 2 * i else i)"
  have l: "least_child lt xs i = (if 2 * i + 1 \<le> length xs \<and> lt (val xs (2 * i + 1)) (val xs s) then 2 * i + 1 else s)"
    by (simp add: least_child_def Let_def s_def val_def)
  have irrefl: "\<not> lt a a" for a using asym by blast
  have s: "\<not> lt (val xs (2 * i)) (val xs s)" if "2 * i \<le> length xs" using that irrefl by (simp add: s_def)
  have "j = 2 * i \<or> j = 2 * i + 1" using assms by auto
  then show ?thesis
  proof
    assume "j = 2 * i"
    then show ?thesis unfolding l using s assms(2) not_lt_trans [OF asym, of "val xs (2 * i + 1)" "val xs s" "val xs (2 * i)"] by auto
  next
    assume "j = 2 * i + 1"
    then show ?thesis unfolding l using irrefl assms(2) by auto
  qed
qed

lemma sift_down_step:
  assumes i: "1 \<le> i" "i \<le> length xs" and e: "\<forall>j. 2 \<le> j \<longrightarrow> j \<le> length xs \<longrightarrow> j \<noteq> i \<longrightarrow> j div 2 \<noteq> i \<longrightarrow> edge lt xs j" and b: "bridged lt xs i"
  defines "s \<equiv> least_child lt xs i"
  assumes s: "s \<noteq> i"
  defines "ys \<equiv> swap_pos xs i s"
  shows "\<forall>j. 2 \<le> j \<longrightarrow> j \<le> length ys \<longrightarrow> j \<noteq> s \<longrightarrow> j div 2 \<noteq> s \<longrightarrow> edge lt ys j" "bridged lt ys s"
proof -
  have sx: "s div 2 = i" "s \<le> length xs" "i < s" "2 \<le> s" using least_child_cases [of lt xs i] s i by (auto simp: s_def)
  have v: "val ys k = (if k = s then val xs i else if k = i then val xs s else val xs k)" if "1 \<le> k" "k \<le> length xs" for k
    using val_swap [of i xs s k] sx i that by (simp add: ys_def)
  have e': "\<not> lt (val xs j) (val xs (j div 2))" if "2 \<le> j" "j \<le> length xs" "j \<noteq> i" "j div 2 \<noteq> i" for j
    using e that by (simp add: edge_def)
  show "\<forall>j. 2 \<le> j \<longrightarrow> j \<le> length ys \<longrightarrow> j \<noteq> s \<longrightarrow> j div 2 \<noteq> s \<longrightarrow> edge lt ys j"
  proof (intro allI impI)
    fix j assume j: "2 \<le> j" "j \<le> length ys" "j \<noteq> s" "j div 2 \<noteq> s"
    then have jx: "j \<le> length xs" "1 \<le> j div 2" "j div 2 \<le> length xs" by (auto simp: ys_def)
    have vj: "val ys j = (if j = i then val xs s else val xs j)" using v [of j] j jx by simp
    have vp: "val ys (j div 2) = (if j div 2 = i then val xs s else val xs (j div 2))" using v [OF jx(2,3)] j(4) by simp
    have "\<not> lt (val ys j) (val ys (j div 2))"
    proof (cases "j = i")
      case True
      then have "j div 2 \<noteq> i" using i j(1) by auto
      then show ?thesis using True vj vp b sx j(1) by (auto simp: bridged_def)
    next
      case False
      then show ?thesis using vj vp e' [OF j(1) jx(1) False] least_child_least [OF j(1) jx(1)] by (auto simp: s_def)
    qed
    then show "edge lt ys j" by (simp add: edge_def)
  qed
  show "bridged lt ys s"
    unfolding bridged_def sx(1)
  proof (intro allI impI)
    fix j assume j: "2 \<le> s" "j \<le> length ys" "j div 2 = s"
    then have jx: "2 \<le> j" "j \<le> length xs" "j \<noteq> s" "j \<noteq> i" "j div 2 \<noteq> i" using sx by (auto simp: ys_def)
    have "val ys j = val xs j" using v [of j] jx by simp
    moreover have "val ys i = val xs s" using v [of i] i s by simp
    ultimately show "\<not> lt (val ys j) (val ys i)" using e' [OF jx(1,2,4,5)] j(3) by simp
  qed
qed

lemma sift_down_ok:
  "1 \<le> i \<Longrightarrow> i \<le> length xs \<Longrightarrow> \<forall>j. 2 \<le> j \<longrightarrow> j \<le> length xs \<longrightarrow> j \<noteq> i \<longrightarrow> j div 2 \<noteq> i \<longrightarrow> edge lt xs j \<Longrightarrow> bridged lt xs i \<Longrightarrow>
   heap_ok lt (case sift_down lt xs i of (ys, k) \<Rightarrow> sift_up lt ys k)"
proof (induction "length xs + 1 - i" arbitrary: i xs rule: less_induct)
  case less
  define s where "s = least_child lt xs i"
  show ?case
  proof (cases "s = i")
    case True
    have "edge lt xs j" if "2 \<le> j" "j \<le> length xs" "j div 2 = i" for j
      using least_child_least [OF that] True that by (simp add: s_def edge_def)
    then have "heap_ok lt (sift_up lt xs i)" using less.prems by (intro sift_up_ok) auto
    then show ?thesis using True by (simp add: sift_down.simps [of lt xs i] s_def)
  next
    case False
    have sx: "s \<le> length xs" "i < s" using least_child_cases [of lt xs i] False less.prems(1) by (auto simp: s_def)
    note st = sift_down_step [OF less.prems, folded s_def, OF False]
    have "heap_ok lt (case sift_down lt (swap_pos xs i s) s of (ys, k) \<Rightarrow> sift_up lt ys k)"
      by (rule less.hyps) (use sx less.prems(1) st in auto)
    then show ?thesis using False by (simp add: sift_down.simps [of lt xs i] s_def [symmetric] Let_def)
  qed
qed

lemma heap_ok_min: "heap_ok lt xs \<Longrightarrow> 1 \<le> j \<Longrightarrow> j \<le> length xs \<Longrightarrow> \<not> lt (val xs j) (val xs 1)"
proof (induction j rule: less_induct)
  case (less j)
  show ?case
  proof (cases "j = 1")
    case True
    then show ?thesis using asym by auto
  next
    case False
    then have "\<not> lt (val xs j) (val xs (j div 2))" "\<not> lt (val xs (j div 2)) (val xs 1)"
      using less by (auto simp: heap_ok_def edge_def)
    then show ?thesis using not_lt_trans by blast
  qed
qed

end

section \<open>Priority queues\<close>

text \<open>
  The contract of a priority queue whose operations may fail on a damaged structure: a queue that holds the
  set \<open>S\<close> has a least element of \<open>S\<close>, and insertion and removal succeed and change the set. \<open>before a b\<close> is the strict
  order, \<open>capacity\<close> the number of elements that stays below the counter's range.
\<close>

fun drain :: "('q \<Rightarrow> 'a option) \<Rightarrow> ('a \<Rightarrow> 'q \<Rightarrow> 'q option) \<Rightarrow> nat \<Rightarrow> 'q \<Rightarrow> 'a list option" where
  "drain least remove 0 q = Some []"
| "drain least remove (Suc n) q =
     (case least q of None \<Rightarrow> Some []
      | Some a \<Rightarrow> Option.bind (remove a q) (\<lambda>q'. map_option ((#) a) (drain least remove n q')))"

fun insert_all :: "('a \<Rightarrow> 'q \<Rightarrow> 'q option) \<Rightarrow> 'a list \<Rightarrow> 'q \<Rightarrow> 'q option" where
  "insert_all ins [] q = Some q"
| "insert_all ins (x # xs) q = Option.bind (ins x q) (insert_all ins xs)"

locale min_queue =
  fixes holds :: "'q \<Rightarrow> 'a set \<Rightarrow> bool" and least :: "'q \<Rightarrow> 'a option"
    and ins remove :: "'a \<Rightarrow> 'q \<Rightarrow> 'q option" and before :: "'a \<Rightarrow> 'a \<Rightarrow> bool" and capacity :: nat
  assumes holds_finite: "holds q S \<Longrightarrow> finite S"
    and least_None: "holds q S \<Longrightarrow> least q = None \<longleftrightarrow> S = {}"
    and least_Some: "holds q S \<Longrightarrow> least q = Some a \<Longrightarrow> a \<in> S \<and> (\<forall>b\<in>S. \<not> before b a)"
    and ins_holds: "holds q S \<Longrightarrow> a \<notin> S \<Longrightarrow> Suc (card S) < capacity \<Longrightarrow> \<exists>q'. ins a q = Some q' \<and> holds q' (insert a S)"
    and remove_holds: "holds q S \<Longrightarrow> a \<in> S \<Longrightarrow> \<exists>q'. remove a q = Some q' \<and> holds q' (S - {a})"
begin

lemma insert_all_holds:
  "holds q S \<Longrightarrow> distinct xs \<Longrightarrow> set xs \<inter> S = {} \<Longrightarrow> card S + length xs < capacity \<Longrightarrow>
     \<exists>q'. insert_all ins xs q = Some q' \<and> holds q' (S \<union> set xs)"
proof (induction xs arbitrary: q S)
  case (Cons x xs)
  from ins_holds [OF Cons.prems(1), of x] Cons.prems obtain q1 where q1: "ins x q = Some q1" "holds q1 (insert x S)" by auto
  have "card (insert x S) = Suc (card S)" using holds_finite [OF Cons.prems(1)] Cons.prems(3) by simp
  with Cons.IH [OF q1(2)] Cons.prems q1(1) show ?case by auto
qed auto

lemma drain_sorted:
  "holds q S \<Longrightarrow> card S \<le> n \<Longrightarrow> \<exists>xs. drain least remove n q = Some xs \<and> set xs = S \<and> distinct xs \<and> sorted_wrt (\<lambda>a b. \<not> before b a) xs"
proof (induction n arbitrary: q S)
  case 0
  then show ?case using holds_finite [OF 0(1)] by simp
next
  case (Suc n)
  show ?case
  proof (cases "least q")
    case None
    then show ?thesis using least_None [OF Suc.prems(1)] by simp
  next
    case (Some a)
    have a: "a \<in> S" "\<forall>b\<in>S. \<not> before b a" using least_Some [OF Suc.prems(1) Some] by simp_all
    from remove_holds [OF Suc.prems(1) a(1)] obtain q1 where q1: "remove a q = Some q1" "holds q1 (S - {a})" by blast
    have "card (S - {a}) \<le> n" using Suc.prems(2) a(1) holds_finite [OF Suc.prems(1)] by simp
    from Suc.IH [OF q1(2) this] obtain xs where xs: "drain least remove n q1 = Some xs" "set xs = S - {a}" "distinct xs"
      "sorted_wrt (\<lambda>a b. \<not> before b a) xs" by blast
    then show ?thesis using Some q1(1) a by (intro exI [of _ "a # xs"]) auto
  qed
qed

end

section \<open>The heap is a priority queue\<close>

text \<open>The invariant: the links form a complete binary tree in which no node is below its parent.\<close>

definition heap_holds :: "(nat \<Rightarrow> nat \<Rightarrow> bool) \<Rightarrow> heap \<Rightarrow> nat set \<Rightarrow> bool" where
  "heap_holds lt h S \<longleftrightarrow> (\<exists>xs. shape h xs \<and> heap_ok lt xs \<and> set xs = S)"

lemma heap_holds_cong:
  assumes "heap_holds lt h S" "\<And>a b. a \<in> S \<Longrightarrow> b \<in> S \<Longrightarrow> lt' a b = lt a b"
  shows "heap_holds lt' h S"
proof -
  obtain xs where xs: "shape h xs" "heap_ok lt xs" "set xs = S" using assms(1) by (auto simp: heap_holds_def)
  have "val xs j \<in> S" if "1 \<le> j" "j \<le> length xs" for j using that xs(3) by (auto simp: val_def)
  then have "edge lt' xs j = edge lt xs j" if "2 \<le> j" "j \<le> length xs" for j
    using that assms(2) [of "val xs j" "val xs (j div 2)"] by (simp add: edge_def)
  then show ?thesis using xs by (auto simp: heap_holds_def heap_ok_def)
qed

lemma shape_card: "shape h xs \<Longrightarrow> card (set xs) = length xs"
  by (auto simp: shape_def intro: distinct_card dest: tree_distinct)

lemma heap_init_holds: "heap_holds lt (heap_init mem) {}"
  unfolding heap_holds_def
  by (intro exI [of _ "[]"]) (simp add: shape_def heap_init_def heap_ok_def tree_def pos_def)

context heap_order
begin

lemma heap_ok_insert:
  assumes "heap_ok lt xs"
  shows "heap_ok lt (sift_up lt (xs @ [x]) (length xs + 1))"
proof (rule sift_up_ok)
  have v: "val (xs @ [x]) j = val xs j" if "1 \<le> j" "j \<le> length xs" for j using that by (auto simp: val_def nth_append)
  show "\<forall>j. 2 \<le> j \<longrightarrow> j \<le> length (xs @ [x]) \<longrightarrow> j \<noteq> length xs + 1 \<longrightarrow> edge lt (xs @ [x]) j"
    using assms v by (auto simp: heap_ok_def edge_def le_Suc_eq)
qed (auto simp: bridged_def)

lemma heap_ok_remove:
  assumes ok: "heap_ok lt xs" and i: "1 \<le> i" "i \<le> length xs"
  shows "heap_ok lt (array_remove lt xs i)"
proof -
  have v: "val (butlast xs) j = val xs j" if "1 \<le> j" "j < length xs" for j using that by (auto simp: val_def nth_butlast)
  have e: "\<not> lt (val xs j) (val xs (j div 2))" if "2 \<le> j" "j \<le> length xs" for j using ok that by (simp add: heap_ok_def edge_def)
  show ?thesis
  proof (cases "i = length xs")
    case True
    have "heap_ok lt (butlast xs)" unfolding heap_ok_def edge_def
    proof (intro allI impI)
      fix j assume j: "2 \<le> j" "j \<le> length (butlast xs)"
      then show "\<not> lt (val (butlast xs) j) (val (butlast xs) (j div 2))" using e [of j] v [of j] v [of "j div 2"] by auto
    qed
    then show ?thesis using True by (simp add: array_remove_def)
  next
    case False
    let ?ys = "(butlast xs)[i - 1 := last xs]"
    have w: "val ?ys j = val xs j" if "1 \<le> j" "j < length xs" "j \<noteq> i" for j
      using that i by (auto simp: val_def nth_list_update nth_butlast)
    have "heap_ok lt (case sift_down lt ?ys i of (ys, k) \<Rightarrow> sift_up lt ys k)"
    proof (rule sift_down_ok)
      show "\<forall>j. 2 \<le> j \<longrightarrow> j \<le> length ?ys \<longrightarrow> j \<noteq> i \<longrightarrow> j div 2 \<noteq> i \<longrightarrow> edge lt ?ys j"
        unfolding edge_def
      proof (intro allI impI)
        fix j assume j: "2 \<le> j" "j \<le> length ?ys" "j \<noteq> i" "j div 2 \<noteq> i"
        then show "\<not> lt (val ?ys j) (val ?ys (j div 2))" using e [of j] w [of j] w [of "j div 2"] by auto
      qed
      show "bridged lt ?ys i"
        unfolding bridged_def
      proof (intro allI impI)
        fix j assume j: "2 \<le> i" "j \<le> length ?ys" "j div 2 = i"
        then have jx: "2 \<le> j" "j < length xs" "j \<noteq> i" using i by auto
        have "i div 2 \<noteq> i" "1 \<le> i div 2" "i div 2 < length xs" using j(1) i by auto
        then show "\<not> lt (val ?ys j) (val ?ys (i div 2))"
          using w [of j] w [of "i div 2"] jx not_lt_trans [OF e [OF j(1) i(2)] e [of j, unfolded j(3)]] by auto
      qed
    qed (use i False in auto)
    then show ?thesis using False by (simp add: array_remove_def)
  qed
qed

end

lemma sift_down_range: "1 \<le> i \<Longrightarrow> i \<le> length xs \<Longrightarrow> sift_down lt xs i = (zs, k) \<Longrightarrow> 1 \<le> k \<and> k \<le> length zs"
proof (induction lt xs i rule: sift_down.induct)
  case (1 lt xs i)
  then show ?case using least_child_cases [of lt xs i] by (auto simp: sift_down.simps [of lt xs i] Let_def split: if_splits)
qed

lemma mset_array_remove:
  assumes "1 \<le> i" "i \<le> length xs"
  shows "mset (array_remove lt xs i) = mset xs - {#xs ! (i - 1)#}"
proof -
  have ne: "xs \<noteq> []" using assms by auto
  then have bl: "mset xs = add_mset (last xs) (mset (butlast xs))" by (metis append_butlast_last_id mset_append mset.simps union_mset_add_mset_right add.right_neutral)
  show ?thesis
  proof (cases "i = length xs")
    case True
    then show ?thesis using ne bl by (simp add: array_remove_def last_conv_nth)
  next
    case False
    then have i: "i - 1 < length (butlast xs)" "1 \<le> i" "i \<le> length (butlast xs)" using assms by auto
    let ?ys = "(butlast xs)[i - 1 := last xs]"
    obtain zs k where z: "sift_down lt ?ys i = (zs, k)" by (cases "sift_down lt ?ys i")
    have mz: "mset zs = mset ?ys" using mset_sift_down [of i ?ys lt] i z by simp
    have k: "1 \<le> k \<and> k \<le> length zs" using sift_down_range [OF _ _ z] i by simp
    have "butlast xs ! (i - 1) \<in> set (butlast xs)" by (rule nth_mem) (rule i(1))
    then have nb: "butlast xs ! (i - 1) = xs ! (i - 1)" "xs ! (i - 1) \<in># mset (butlast xs)" using i by (simp_all add: nth_butlast)
    have "mset (array_remove lt xs i) = mset ?ys" using False z mz mset_sift_up [of k zs lt] k by (simp add: array_remove_def)
    also have "\<dots> = add_mset (last xs) (mset (butlast xs) - {#butlast xs ! (i - 1)#})" using mset_update [OF i(1)] by simp
    finally show ?thesis using bl nb by simp
  qed
qed

lemma heap_min_eq: "shape h xs \<Longrightarrow> heap_min h = pos xs 1"
  by (simp add: shape_def heap_min_def)

sublocale heap_order \<subseteq> queue: min_queue "heap_holds lt" heap_min "heap_insert lt" "\<lambda>a. heap_remove lt (Some a)" lt "2 ^ 32"
proof
  fix h S assume "heap_holds lt h S"
  then obtain xs where xs: "shape h xs" "heap_ok lt xs" "set xs = S" by (auto simp: heap_holds_def)
  have dist: "distinct xs" using xs(1) by (auto simp: shape_def dest: tree_distinct)
  show "finite S" using xs(3) by auto
  show "heap_min h = None \<longleftrightarrow> S = {}" unfolding heap_min_eq [OF xs(1)] using xs(3) by (cases xs) (auto simp: pos_def)
  show "a \<in> S \<and> (\<forall>b\<in>S. \<not> lt b a)" if "heap_min h = Some a" for a
  proof -
    have a: "1 \<le> length xs" "val xs 1 = a" using that unfolding heap_min_eq [OF xs(1)] by (auto simp: pos_def val_def split: if_splits)
    have "\<not> lt b a" if "b \<in> S" for b
    proof -
      from that xs(3) obtain k where "k < length xs" "b = xs ! k" by (auto simp: in_set_conv_nth)
      with heap_ok_min [OF xs(2), of "Suc k"] a show ?thesis by (simp add: val_def)
    qed
    moreover have "a \<in> S" using a xs(3) by (auto simp: val_def intro: nth_mem)
    ultimately show ?thesis by blast
  qed
  show "\<exists>h'. heap_insert lt a h = Some h' \<and> heap_holds lt h' (insert a S)" if "a \<notin> S" "Suc (card S) < 2 ^ 32" for a
  proof -
    from heap_insert_shape [OF xs(1), of a lt] that xs(3) shape_card [OF xs(1)]
    obtain h' where h': "heap_insert lt a h = Some h'" "shape h' (sift_up lt (xs @ [a]) (length xs + 1))" by auto
    have "mset (sift_up lt (xs @ [a]) (length xs + 1)) = mset (xs @ [a])" by (rule mset_sift_up) simp_all
    then have "set (sift_up lt (xs @ [a]) (length xs + 1)) = insert a S" using xs(3) by (metis set_mset_mset set_append list.set Un_insert_right sup_bot_right)
    with h' heap_ok_insert [OF xs(2)] show ?thesis by (auto simp: heap_holds_def)
  qed
  show "\<exists>h'. heap_remove lt (Some a) h = Some h' \<and> heap_holds lt h' (S - {a})" if "a \<in> S" for a
  proof -
    from that xs(3) obtain k where k: "k < length xs" "a = xs ! k" by (auto simp: in_set_conv_nth)
    then have p: "pos xs (Suc k) = Some a" by (simp add: pos_def)
    from heap_remove_shape [OF xs(1) p, of lt] obtain h' where h': "heap_remove lt (Some a) h = Some h'" "shape h' (array_remove lt xs (Suc k))" by blast
    have "mset (array_remove lt xs (Suc k)) = mset xs - {#a#}" using mset_array_remove [of "Suc k" xs lt] k by simp
    then have "set (array_remove lt xs (Suc k)) = set_mset (mset xs - {#a#})" by (metis set_mset_mset)
    also have "\<dots> = set (remove1 a xs)" by (metis mset_remove1 set_mset_mset)
    also have "\<dots> = S - {a}" using set_remove1_eq [OF dist] xs(3) by simp
    finally show ?thesis using h' heap_ok_remove [OF xs(2), of "Suc k"] k by (auto simp: heap_holds_def)
  qed
qed

context heap_order
begin

lemma heap_sorts_all:
  assumes "distinct xs" "length xs < 2 ^ 32"
  shows "\<exists>ys. Option.bind (insert_all (heap_insert lt) xs (heap_init mem)) (drain heap_min (\<lambda>a. heap_remove lt (Some a)) (length xs)) = Some ys \<and>
     set ys = set xs \<and> distinct ys \<and> sorted_wrt (\<lambda>a b. \<not> lt b a) ys"
proof -
  from queue.insert_all_holds [OF heap_init_holds assms(1)] assms(2) obtain h where
    h: "insert_all (heap_insert lt) xs (heap_init mem) = Some h" "heap_holds lt h (set xs)" by auto
  have "card (set xs) \<le> length xs" by (rule card_length)
  from queue.drain_sorted [OF h(2) this] h(1) show ?thesis by auto
qed

lemmas insert_preserves = queue.ins_holds and remove_preserves = queue.remove_holds

end

text \<open>C7: \<open>heap_insert\<close> returns, without following a null pointer, and keeps the invariant: a complete
  binary tree with consistent links in all directions, ordered by \<open>less_than\<close>, now with the new node.\<close>

theorem heap_insert_keeps_invariant:
  assumes "heap_order lt" "heap_holds lt h S" "a \<notin> S" "Suc (card S) < 2 ^ 32"
  shows "\<exists>h'. heap_insert lt a h = Some h' \<and> heap_holds lt h' (insert a S)"
  by (rule heap_order.insert_preserves [OF assms])

lemma nat_order: "heap_order (\<lambda>a b. a < (b :: nat))"
  by unfold_locales auto

theorem heap_insert_keeps_invariant_witness:
  "\<exists>h'. heap_insert (\<lambda>a b. a < b) 5 (heap_init (\<lambda>_. \<lparr>left = None, right = None, parent = None\<rparr>)) = Some h' \<and> heap_holds (\<lambda>a b. a < b) h' {5}"
  using heap_insert_keeps_invariant [OF nat_order heap_init_holds, of 5 "\<lambda>_. \<lparr>left = None, right = None, parent = None\<rparr>"] by simp

text \<open>C6: \<open>heap_remove\<close> of any node of the heap returns and keeps the invariant for the remaining nodes: both walks,
  down and up, end and restore the order.\<close>

theorem heap_remove_keeps_invariant:
  assumes "heap_order lt" "heap_holds lt h S" "a \<in> S"
  shows "\<exists>h'. heap_remove lt (Some a) h = Some h' \<and> heap_holds lt h' (S - {a})"
  by (rule heap_order.remove_preserves [OF assms])

theorem heap_remove_keeps_invariant_witness:
  "\<exists>h. heap_insert (\<lambda>a b. a < b) 5 (heap_init (\<lambda>_. \<lparr>left = None, right = None, parent = None\<rparr>)) = Some h \<and>
     (\<exists>h'. heap_remove (\<lambda>a b. a < b) (Some 5) h = Some h' \<and> heap_holds (\<lambda>a b. a < b) h' {})"
proof -
  obtain h where h: "heap_insert (\<lambda>a b. a < b) 5 (heap_init (\<lambda>_. \<lparr>left = None, right = None, parent = None\<rparr>)) = Some h"
    "heap_holds (\<lambda>a b. a < b) h {5}"
    using heap_order.insert_preserves [OF nat_order heap_init_holds, of 5 "\<lambda>_. \<lparr>left = None, right = None, parent = None\<rparr>"] by auto
  from heap_remove_keeps_invariant [OF nat_order h(2), of 5] h(1) show ?thesis by simp
qed

text \<open>C20: heap sort. Inserting any distinct nodes and then taking out the minimum until the heap is empty visits
  every node once, in the order of \<open>less_than\<close>.\<close>

theorem heap_sorts:
  assumes "heap_order lt" "distinct xs" "length xs < 2 ^ 32"
  shows "\<exists>ys. Option.bind (insert_all (heap_insert lt) xs (heap_init mem)) (drain heap_min (\<lambda>a. heap_remove lt (Some a)) (length xs)) = Some ys \<and>
     set ys = set xs \<and> distinct ys \<and> sorted_wrt (\<lambda>a b. \<not> lt b a) ys"
  by (rule heap_order.heap_sorts_all [OF assms])

theorem heap_sorts_witness:
  "\<exists>ys. Option.bind (insert_all (heap_insert (\<lambda>a b. a < b)) [5, 7, 3] (heap_init (\<lambda>_. \<lparr>left = None, right = None, parent = None\<rparr>)))
       (drain heap_min (\<lambda>a. heap_remove (\<lambda>a b. a < b) (Some a)) 3) = Some ys \<and> set ys = {5, 7, 3} \<and> distinct ys \<and> sorted_wrt (\<lambda>a b. \<not> b < a) ys"
  using heap_sorts [OF nat_order, of "[5, 7, 3]" "\<lambda>_. \<lparr>left = None, right = None, parent = None\<rparr>"] by (simp add: numeral_3_eq_3)

end
