(* ===== verification/Uv_Queue.thy ===== *)
theory Uv_Queue
  imports Prelude
begin

text \<open>
  libuv's intrusive list, \<^verbatim>\<open>queue.h\<close>: a ring of nodes through a head, each with a pointer to the next and to the
  previous node. The macros are functions on the two link maps, assignment by assignment. \<open>ring m h xs\<close> relates
  them to the list of the nodes behind the head \<open>h\<close>.
\<close>

section \<open>Macros\<close>

record 'a queue =
  qnext :: "'a \<Rightarrow> 'a"
  qprev :: "'a \<Rightarrow> 'a"

definition set_next :: "'a \<Rightarrow> 'a \<Rightarrow> 'a queue \<Rightarrow> 'a queue" where
  "set_next a b m = m\<lparr>qnext := (qnext m)(a := b)\<rparr>"

definition set_prev :: "'a \<Rightarrow> 'a \<Rightarrow> 'a queue \<Rightarrow> 'a queue" where
  "set_prev a b m = m\<lparr>qprev := (qprev m)(a := b)\<rparr>"

definition QUEUE_PREV_NEXT :: "'a \<Rightarrow> 'a \<Rightarrow> 'a queue \<Rightarrow> 'a queue" where
  "QUEUE_PREV_NEXT q v m = set_next (qprev m q) v m"

definition QUEUE_NEXT_PREV :: "'a \<Rightarrow> 'a \<Rightarrow> 'a queue \<Rightarrow> 'a queue" where
  "QUEUE_NEXT_PREV q v m = set_prev (qnext m q) v m"

definition QUEUE_EMPTY :: "'a \<Rightarrow> 'a queue \<Rightarrow> bool" where
  "QUEUE_EMPTY q m \<longleftrightarrow> q = qnext m q"

definition QUEUE_HEAD :: "'a \<Rightarrow> 'a queue \<Rightarrow> 'a" where
  "QUEUE_HEAD q m = qnext m q"

definition QUEUE_INIT :: "'a \<Rightarrow> 'a queue \<Rightarrow> 'a queue" where
  "QUEUE_INIT q m = set_prev q q (set_next q q m)"

definition QUEUE_ADD :: "'a \<Rightarrow> 'a \<Rightarrow> 'a queue \<Rightarrow> 'a queue" where
  "QUEUE_ADD h n m =
     (let m1 = QUEUE_PREV_NEXT h (qnext m n) m;
          m2 = QUEUE_NEXT_PREV n (qprev m1 h) m1;
          m3 = set_prev h (qprev m2 n) m2
      in QUEUE_PREV_NEXT h h m3)"

definition QUEUE_SPLIT :: "'a \<Rightarrow> 'a \<Rightarrow> 'a \<Rightarrow> 'a queue \<Rightarrow> 'a queue" where
  "QUEUE_SPLIT h q n m =
     (let m1 = set_prev n (qprev m h) m;
          m2 = QUEUE_PREV_NEXT n n m1;
          m3 = set_next n q m2;
          m4 = set_prev h (qprev m3 q) m3;
          m5 = QUEUE_PREV_NEXT h h m4
      in set_prev q n m5)"

definition QUEUE_MOVE :: "'a \<Rightarrow> 'a \<Rightarrow> 'a queue \<Rightarrow> 'a queue" where
  "QUEUE_MOVE h n m = (if QUEUE_EMPTY h m then QUEUE_INIT n m else QUEUE_SPLIT h (QUEUE_HEAD h m) n m)"

definition QUEUE_INSERT_HEAD :: "'a \<Rightarrow> 'a \<Rightarrow> 'a queue \<Rightarrow> 'a queue" where
  "QUEUE_INSERT_HEAD h q m =
     (let m1 = set_next q (qnext m h) m;
          m2 = set_prev q h m1;
          m3 = QUEUE_NEXT_PREV q q m2
      in set_next h q m3)"

definition QUEUE_INSERT_TAIL :: "'a \<Rightarrow> 'a \<Rightarrow> 'a queue \<Rightarrow> 'a queue" where
  "QUEUE_INSERT_TAIL h q m =
     (let m1 = set_next q h m;
          m2 = set_prev q (qprev m1 h) m1;
          m3 = QUEUE_PREV_NEXT q q m2
      in set_prev h q m3)"

definition QUEUE_REMOVE :: "'a \<Rightarrow> 'a queue \<Rightarrow> 'a queue" where
  "QUEUE_REMOVE q m =
     (let m1 = QUEUE_PREV_NEXT q (qnext m q) m
      in QUEUE_NEXT_PREV q (qprev m1 q) m1)"

text \<open>The nodes \<open>QUEUE_FOREACH\<close> visits from \<open>q\<close> on, when its body leaves the links alone.\<close>

partial_function (option) foreach_from :: "'a \<Rightarrow> 'a queue \<Rightarrow> 'a \<Rightarrow> 'a list option" where
  "foreach_from h m q = (if q = h then Some [] else Option.bind (foreach_from h m (qnext m q)) (\<lambda>qs. Some (q # qs)))"

definition QUEUE_FOREACH :: "'a \<Rightarrow> 'a queue \<Rightarrow> 'a list option" where
  "QUEUE_FOREACH h m = foreach_from h m (qnext m h)"

declare foreach_from.simps [code]

section \<open>Rings\<close>

fun links :: "'a queue \<Rightarrow> 'a \<Rightarrow> 'a list \<Rightarrow> 'a \<Rightarrow> bool" where
  "links m a [] b \<longleftrightarrow> qnext m a = b \<and> qprev m b = a"
| "links m a (x # xs) b \<longleftrightarrow> qnext m a = x \<and> qprev m x = a \<and> links m x xs b"

definition ring :: "'a queue \<Rightarrow> 'a \<Rightarrow> 'a list \<Rightarrow> bool" where
  "ring m h xs \<longleftrightarrow> distinct (h # xs) \<and> links m h xs h"

lemma links_append [simp]: "links m a (xs @ y # ys) b \<longleftrightarrow> links m a xs y \<and> links m y ys b"
  by (induction xs arbitrary: a) auto

lemma links_ends: "links m a xs b \<Longrightarrow> qnext m a = hd (xs @ [b]) \<and> qprev m b = last (a # xs)"
  by (induction xs arbitrary: a) auto

lemma links_frame:
  "links m a xs b \<Longrightarrow> (\<And>x. x \<in> set (a # xs) \<Longrightarrow> qnext m' x = qnext m x) \<Longrightarrow> (\<And>x. x \<in> set (xs @ [b]) \<Longrightarrow> qprev m' x = qprev m x) \<Longrightarrow>
     links m' a xs b"
  by (induction xs arbitrary: a) auto

text \<open>A segment split at its last link, and at its first.\<close>

lemma links_snocE:
  assumes "links m a xs b"
  obtains "xs = []" "qnext m a = b" "qprev m b = a" | ys y where "xs = ys @ [y]" "links m a ys y" "qnext m y = b" "qprev m b = y"
  using assms by (cases xs rule: rev_cases) auto

lemmas queue_defs = set_next_def set_prev_def QUEUE_PREV_NEXT_def QUEUE_NEXT_PREV_def Let_def

lemma ring_init: "ring (QUEUE_INIT h m) h []"
  by (simp add: ring_def QUEUE_INIT_def queue_defs)

lemma ring_insert_tail:
  assumes "ring m h xs" "q \<notin> set (h # xs)"
  shows "ring (QUEUE_INSERT_TAIL h q m) h (xs @ [q])"
proof -
  let ?m = "QUEUE_INSERT_TAIL h q m"
  from assms(1) have l: "links m h xs h" and d: "distinct (h # xs)" by (simp_all add: ring_def)
  from l show ?thesis
  proof (cases rule: links_snocE)
    case 1
    then show ?thesis using assms(2) by (auto simp: ring_def QUEUE_INSERT_TAIL_def queue_defs)
  next
    case (2 ys y)
    have "links ?m h ys y"
      by (rule links_frame [OF 2(2)]) (use 2 d assms(2) in \<open>auto simp: QUEUE_INSERT_TAIL_def queue_defs\<close>)
    then show ?thesis using 2 d assms(2) by (auto simp: ring_def QUEUE_INSERT_TAIL_def queue_defs)
  qed
qed

lemma ring_insert_head:
  assumes "ring m h xs" "q \<notin> set (h # xs)"
  shows "ring (QUEUE_INSERT_HEAD h q m) h (q # xs)"
proof -
  let ?m = "QUEUE_INSERT_HEAD h q m"
  from assms(1) have l: "links m h xs h" and d: "distinct (h # xs)" by (simp_all add: ring_def)
  show ?thesis
  proof (cases xs)
    case Nil
    then show ?thesis using l assms(2) by (auto simp: ring_def QUEUE_INSERT_HEAD_def queue_defs)
  next
    case (Cons y ys)
    with l have y: "links m y ys h" "qnext m h = y" "qprev m y = h" by simp_all
    have "links ?m y ys h"
      by (rule links_frame [OF y(1)]) (use y Cons d assms(2) in \<open>auto simp: QUEUE_INSERT_HEAD_def queue_defs\<close>)
    then show ?thesis using y Cons d assms(2) by (auto simp: ring_def QUEUE_INSERT_HEAD_def queue_defs)
  qed
qed

lemma ring_remove:
  assumes "ring m h (xs @ q # ys)"
  shows "ring (QUEUE_REMOVE q m) h (xs @ ys)"
proof -
  let ?m = "QUEUE_REMOVE q m"
  from assms have l: "links m h xs q" "links m q ys h" and d: "distinct (h # xs @ q # ys)" by (simp_all add: ring_def)
  have step: "qnext ?m = (qnext m)(qprev m q := qnext m q)" "qprev ?m = (qprev m)(qnext m q := qprev m q)"
    if "qprev m q \<noteq> q" using that by (auto simp: QUEUE_REMOVE_def queue_defs)
  have l1: "if xs = [] then qprev m q = h else \<exists>us. xs = us @ [qprev m q] \<and> links m h us (qprev m q)"
    using l(1) by (cases rule: links_snocE) auto
  have l2: "if ys = [] then qnext m q = h else \<exists>vs. ys = qnext m q # vs \<and> links m (qnext m q) vs h"
    using l(2) by (cases ys) auto
  have pq: "qprev m q \<noteq> q" using l1 d by (auto split: if_splits)
  show ?thesis
  proof (cases "xs = []")
    case x: True
    then show ?thesis
    proof (cases "ys = []")
      case True
      with x l1 l2 d show ?thesis by (auto simp: ring_def step [OF pq])
    next
      case False
      with l2 obtain vs where v: "ys = qnext m q # vs" "links m (qnext m q) vs h" by auto
      have "links ?m (qnext m q) vs h"
        by (rule links_frame [OF v(2)]) (use x v d l1 in \<open>auto simp: step [OF pq]\<close>)
      with x v l1 d show ?thesis by (auto simp: ring_def step [OF pq])
    qed
  next
    case x: False
    with l1 obtain us where u: "xs = us @ [qprev m q]" "links m h us (qprev m q)" by auto
    have L: "links ?m h us (qprev m q)"
      by (rule links_frame [OF u(2)]) (use u d l2 in \<open>auto simp: step [OF pq] split: if_splits\<close>)
    show ?thesis
    proof (cases "ys = []")
      case True
      with L u l2 d show ?thesis by (auto simp: ring_def step [OF pq])
    next
      case False
      with l2 obtain vs where v: "ys = qnext m q # vs" "links m (qnext m q) vs h" by auto
      have "links ?m (qnext m q) vs h"
        by (rule links_frame [OF v(2)]) (use u v d in \<open>auto simp: step [OF pq]\<close>)
      with L u v d show ?thesis by (auto simp: ring_def step [OF pq])
    qed
  qed
qed

lemma ring_split:
  assumes "ring m h (xs @ q # ys)" "n \<notin> set (h # xs @ q # ys)"
  shows "ring (QUEUE_SPLIT h q n m) h xs" "ring (QUEUE_SPLIT h q n m) n (q # ys)"
proof -
  let ?m = "QUEUE_SPLIT h q n m"
  from assms have l: "links m h xs q" "links m q ys h" and d: "distinct (n # h # xs @ q # ys)" by (auto simp: ring_def)
  have l1: "if xs = [] then qprev m q = h else \<exists>us. xs = us @ [qprev m q] \<and> links m h us (qprev m q)"
    using l(1) by (cases rule: links_snocE) auto
  have l2: "if ys = [] then qprev m h = q else \<exists>vs. ys = vs @ [qprev m h] \<and> links m q vs (qprev m h)"
    using l(2) by (cases rule: links_snocE) auto
  have z: "qprev m h \<in> set (q # ys)" "qprev m q \<in> set (h # xs)" using l1 l2 by (auto split: if_splits)
  have step: "qnext ?m = (qnext m)(qprev m h := n, n := q, qprev m q := h)" "qprev ?m = (qprev m)(n := qprev m h, h := qprev m q, q := n)"
    using z d by (auto simp: QUEUE_SPLIT_def queue_defs)
  show "ring ?m h xs"
  proof (cases "xs = []")
    case True
    with l1 d show ?thesis by (auto simp: ring_def step)
  next
    case False
    with l1 obtain us where u: "xs = us @ [qprev m q]" "links m h us (qprev m q)" by auto
    have "links ?m h us (qprev m q)"
      by (rule links_frame [OF u(2)]) (use u d z in \<open>auto simp: step\<close>)
    with u d show ?thesis by (auto simp: ring_def step)
  qed
  show "ring ?m n (q # ys)"
  proof (cases "ys = []")
    case True
    with l2 z d show ?thesis by (auto simp: ring_def step)
  next
    case False
    with l2 obtain vs where v: "ys = vs @ [qprev m h]" "links m q vs (qprev m h)" by auto
    have "links ?m q vs (qprev m h)"
      by (rule links_frame [OF v(2)]) (use v d z in \<open>auto simp: step\<close>)
    with v d z show ?thesis by (auto simp: ring_def step)
  qed
qed

lemma ring_empty: "ring m h xs \<Longrightarrow> QUEUE_EMPTY h m \<longleftrightarrow> xs = []"
  by (cases xs) (auto simp: ring_def QUEUE_EMPTY_def)

lemma ring_move:
  assumes "ring m h xs" "n \<notin> set (h # xs)"
  shows "ring (QUEUE_MOVE h n m) h []" "ring (QUEUE_MOVE h n m) n xs"
proof -
  have "ring (QUEUE_MOVE h n m) h [] \<and> ring (QUEUE_MOVE h n m) n xs"
  proof (cases xs)
    case Nil
    then show ?thesis using assms ring_empty [OF assms(1)] by (auto simp: QUEUE_MOVE_def QUEUE_INIT_def ring_def queue_defs)
  next
    case (Cons q ys)
    then have "QUEUE_HEAD h m = q" "\<not> QUEUE_EMPTY h m" using assms(1) ring_empty [OF assms(1)] by (auto simp: ring_def QUEUE_HEAD_def)
    then show ?thesis using ring_split [of m h "[]" q ys n] assms Cons by (simp add: QUEUE_MOVE_def)
  qed
  then show "ring (QUEUE_MOVE h n m) h []" "ring (QUEUE_MOVE h n m) n xs" by simp_all
qed

lemma foreach_links: "links m a xs h \<Longrightarrow> h \<notin> set xs \<Longrightarrow> foreach_from h m (qnext m a) = Some xs"
proof (induction xs arbitrary: a)
  case Nil
  then show ?case by (subst foreach_from.simps) simp
next
  case (Cons x xs)
  then show ?case by (subst foreach_from.simps) auto
qed

lemma ring_foreach: "ring m h xs \<Longrightarrow> QUEUE_FOREACH h m = Some xs"
  by (simp add: ring_def QUEUE_FOREACH_def foreach_links)

lemma ring_add:
  assumes "ring m h xs" "ring m n ys" "set (h # xs) \<inter> set (n # ys) = {}"
  shows "ring (QUEUE_ADD h n m) h (xs @ ys)"
proof -
  let ?m = "QUEUE_ADD h n m"
  from assms have l: "links m h xs h" "links m n ys n" and d: "distinct (h # xs @ n # ys)" by (auto simp: ring_def)
  have l1: "if xs = [] then qprev m h = h else \<exists>us. xs = us @ [qprev m h] \<and> links m h us (qprev m h)"
    using l(1) by (cases rule: links_snocE) auto
  have ph: "qprev m h \<in> set (h # xs)" using l1 by (auto split: if_splits)
  show ?thesis
  proof (cases ys)
    case Nil
    have n: "qnext m n = n" "qprev m n = n" "n \<noteq> h" "n \<notin> set xs" using l(2) Nil d by auto
    have nh: "qnext m (qprev m h) = h" using l(1) by (cases rule: links_snocE) auto
    have "qprev m h \<noteq> n" using ph n by auto
    with n nh have step: "qnext ?m x = qnext m x" "x \<noteq> n \<Longrightarrow> qprev ?m x = qprev m x" for x
      by (simp_all add: QUEUE_ADD_def queue_defs)
    have "links ?m h xs h"
      by (rule links_frame [OF l(1)]) (use n in \<open>auto simp: step(1) intro!: step(2)\<close>)
    with Nil d show ?thesis by (simp add: ring_def)
  next
    case (Cons y vs)
    with l(2) have y: "links m y vs n" "qnext m n = y" "qprev m y = n" by simp_all
    have l2: "if vs = [] then qprev m n = y else \<exists>ws. vs = ws @ [qprev m n] \<and> links m y ws (qprev m n)"
      using y(1) by (cases rule: links_snocE) auto
    have pn: "qprev m n \<in> set ys" using l2 Cons by (auto split: if_splits)
    have step: "qnext ?m = (qnext m)(qprev m h := y, qprev m n := h)" "qprev ?m = (qprev m)(y := qprev m h, h := qprev m n)"
      using ph pn d y Cons by (auto simp: QUEUE_ADD_def queue_defs)
    have "links ?m h xs y"
    proof (cases "xs = []")
      case True
      with l1 pn d Cons show ?thesis by (auto simp: step)
    next
      case False
      with l1 obtain us where u: "xs = us @ [qprev m h]" "links m h us (qprev m h)" by auto
      have "links ?m h us (qprev m h)"
        by (rule links_frame [OF u(2)]) (use u d pn Cons in \<open>auto simp: step\<close>)
      with u d pn Cons show ?thesis by (auto simp: step)
    qed
    moreover have "links ?m y vs h"
    proof (cases "vs = []")
      case True
      with l2 ph d Cons show ?thesis by (auto simp: step)
    next
      case False
      with l2 obtain ws where w: "vs = ws @ [qprev m n]" "links m y ws (qprev m n)" by auto
      have "links ?m y ws (qprev m n)"
        by (rule links_frame [OF w(2)]) (use w d ph Cons in \<open>auto simp: step\<close>)
      with w d ph Cons show ?thesis by (auto simp: step)
    qed
    ultimately show ?thesis using Cons d by (simp add: ring_def)
  qed
qed

section \<open>A list that can be walked\<close>

text \<open>The contract of an intrusive list: what a walk finds after insertions at the end and removals.\<close>

locale walkable_list =
  fixes holds :: "'m \<Rightarrow> 'a list \<Rightarrow> bool" and fresh :: "'a \<Rightarrow> bool" and walk :: "'m \<Rightarrow> 'a list option" and append remove :: "'a \<Rightarrow> 'm \<Rightarrow> 'm"
  assumes walk: "holds m xs \<Longrightarrow> walk m = Some xs"
    and append: "holds m xs \<Longrightarrow> fresh x \<Longrightarrow> x \<notin> set xs \<Longrightarrow> holds (append x m) (xs @ [x])"
    and remove: "holds m (xs @ x # ys) \<Longrightarrow> holds (remove x m) (xs @ ys)"
begin

lemma append_all: "holds m ys \<Longrightarrow> list_all fresh xs \<Longrightarrow> distinct (ys @ xs) \<Longrightarrow> holds (fold append xs m) (ys @ xs)"
proof (induction xs arbitrary: m ys)
  case (Cons x xs)
  then show ?case using append [OF Cons.prems(1), of x] Cons.IH [of "append x m" "ys @ [x]"] by auto
qed simp

lemma remove_one: "holds m xs \<Longrightarrow> x \<in> set xs \<Longrightarrow> distinct xs \<Longrightarrow> holds (remove x m) (remove1 x xs)"
  by (metis in_set_conv_decomp_first remove remove1_append remove1.simps(2))

lemma append_then_remove:
  assumes "holds m []" "list_all fresh xs" "distinct xs" "x \<in> set xs"
  shows "walk (remove x (fold append xs m)) = Some (remove1 x xs)"
  using append_all [OF assms(1,2)] assms(3,4) by (auto intro!: walk remove_one)

end

interpretation ring: walkable_list "\<lambda>m. ring m h" "\<lambda>q. q \<noteq> h" "QUEUE_FOREACH h" "QUEUE_INSERT_TAIL h" QUEUE_REMOVE for h
  by unfold_locales (auto intro: ring_foreach ring_insert_tail ring_remove)

text \<open>C21: the queue macros implement lists: a walk visits the nodes in order, and head and tail insertion, removal,
  splitting and moving change the ring the way they change the list, whatever its length.\<close>

theorem queue_macros_refine_lists:
  assumes "ring m h (xs @ q # ys)" "n \<notin> set (h # xs @ q # ys)"
  shows "QUEUE_FOREACH h m = Some (xs @ q # ys) \<and>
    ring (QUEUE_INSERT_TAIL h n m) h (xs @ q # ys @ [n]) \<and> ring (QUEUE_INSERT_HEAD h n m) h (n # xs @ q # ys) \<and>
    ring (QUEUE_REMOVE q m) h (xs @ ys) \<and>
    ring (QUEUE_SPLIT h q n m) h xs \<and> ring (QUEUE_SPLIT h q n m) n (q # ys) \<and>
    ring (QUEUE_MOVE h n m) h [] \<and> ring (QUEUE_MOVE h n m) n (xs @ q # ys)"
  using ring_foreach [OF assms(1)] ring_insert_tail [OF assms] ring_insert_head [OF assms] ring_remove [OF assms(1)]
    ring_split [OF assms] ring_move [OF assms] by simp

theorem queue_macros_refine_lists_witness:
  "QUEUE_FOREACH 0 (QUEUE_INSERT_TAIL 0 (1 :: nat) (QUEUE_INIT 0 \<lparr>qnext = \<lambda>a. a, qprev = \<lambda>a. a\<rparr>)) = Some [1]"
proof -
  have "ring (QUEUE_INSERT_TAIL 0 (1 :: nat) (QUEUE_INIT 0 \<lparr>qnext = \<lambda>a. a, qprev = \<lambda>a. a\<rparr>)) 0 ([] @ 1 # [])"
    using ring_insert_tail [OF ring_init, of "1 :: nat" 0] by simp
  from queue_macros_refine_lists [OF this, of 2] show ?thesis by simp
qed

text \<open>C28: a queue is first in, first out, and a removal in the middle leaves the order of the others.\<close>

theorem queue_keeps_order:
  assumes "list_all (\<lambda>q. q \<noteq> h) qs" "distinct qs" "q \<in> set qs"
  shows "QUEUE_FOREACH h (QUEUE_REMOVE q (fold (QUEUE_INSERT_TAIL h) qs (QUEUE_INIT h m))) = Some (remove1 q qs)"
  by (rule ring.append_then_remove [OF ring_init assms])

theorem queue_keeps_order_witness:
  "QUEUE_FOREACH 0 (QUEUE_REMOVE 2 (fold (QUEUE_INSERT_TAIL 0) [1, 2, 3 :: nat] (QUEUE_INIT 0 \<lparr>qnext = \<lambda>a. a, qprev = \<lambda>a. a\<rparr>))) = Some [1, 3]"
  using queue_keeps_order [of 0 "[1, 2, 3 :: nat]" 2 "\<lparr>qnext = \<lambda>a. a, qprev = \<lambda>a. a\<rparr>"] by simp

end
