(* ===== verification/Uv_Timer.thy ===== *)
theory Uv_Timer
  imports Uv_Heap_Order Uv_Queue
begin

text \<open>
  libuv's timers, \<^verbatim>\<open>timer.c\<close>, with the handle macros of \<^verbatim>\<open>uv-common.h\<close>. The state of a loop is its clock, the counter
  of starts, the number of active referenced handles, the timer heap and the handle queue. A timer handle is
  identified with the heap node it contains, which is what \<open>container_of\<close> computes. A callback is a number; the code
  behind it is the parameter \<open>env\<close>, which may change the loop. \<open>None\<close> is a crash or a loop without end, as for the heap.
\<close>

section \<open>Handles and loops\<close>

record uv_timer_t =
  flags :: u32
  handle_type :: nat
  next_closing :: "nat option"
  timer_cb :: "nat option"
  timeout :: u64
  repeat :: u64
  start_id :: u64

text \<open>The nodes of the handle queue: the head in the loop, one in every handle.\<close>

datatype queue_node = Loop_head | Handle_node nat

record uv_loop_t =
  time :: u64
  timer_counter :: u64
  active_handles :: u32
  timer_heap :: heap
  handle_queue :: "queue_node queue"
  handles :: "nat \<Rightarrow> uv_timer_t"

definition UV_HANDLE_CLOSING :: u32 where "UV_HANDLE_CLOSING = 0x00000001"
definition UV_HANDLE_CLOSED :: u32 where "UV_HANDLE_CLOSED = 0x00000002"
definition UV_HANDLE_ACTIVE :: u32 where "UV_HANDLE_ACTIVE = 0x00000004"
definition UV_HANDLE_REF :: u32 where "UV_HANDLE_REF = 0x00000008"

text \<open>\<open>UV_TIMER\<close> is entry 13 of the handle types, after \<open>UV_UNKNOWN_HANDLE = 0\<close>.\<close>

definition UV_TIMER :: nat where "UV_TIMER = 13"

text \<open>The error codes of the Unix build are negated values of \<open>errno\<close>; \<open>EINVAL\<close> is 22.\<close>

definition UV_EINVAL :: int where "UV_EINVAL = - 22"

definition set_handle :: "nat \<Rightarrow> (uv_timer_t \<Rightarrow> uv_timer_t) \<Rightarrow> uv_loop_t \<Rightarrow> uv_loop_t" where
  "set_handle h f l = l\<lparr>handles := (handles l)(h := f (handles l h))\<rparr>"

definition uv__is_active :: "uv_timer_t \<Rightarrow> bool" where
  "uv__is_active h \<longleftrightarrow> flags h AND UV_HANDLE_ACTIVE \<noteq> 0"

definition uv__is_closing :: "uv_timer_t \<Rightarrow> bool" where
  "uv__is_closing h \<longleftrightarrow> flags h AND (UV_HANDLE_CLOSING OR UV_HANDLE_CLOSED) \<noteq> 0"

definition uv__has_ref :: "uv_timer_t \<Rightarrow> bool" where
  "uv__has_ref h \<longleftrightarrow> flags h AND UV_HANDLE_REF \<noteq> 0"

definition uv__active_handle_add :: "uv_loop_t \<Rightarrow> uv_loop_t" where
  "uv__active_handle_add l = l\<lparr>active_handles := active_handles l + 1\<rparr>"

definition uv__active_handle_rm :: "uv_loop_t \<Rightarrow> uv_loop_t" where
  "uv__active_handle_rm l = l\<lparr>active_handles := active_handles l - 1\<rparr>"

definition uv__handle_start :: "nat \<Rightarrow> uv_loop_t \<Rightarrow> uv_loop_t" where
  "uv__handle_start h l =
     (if uv__is_active (handles l h) then l
      else
        let l1 = set_handle h (\<lambda>t. t\<lparr>flags := flags t OR UV_HANDLE_ACTIVE\<rparr>) l
        in if uv__has_ref (handles l1 h) then uv__active_handle_add l1 else l1)"

definition uv__handle_stop :: "nat \<Rightarrow> uv_loop_t \<Rightarrow> uv_loop_t" where
  "uv__handle_stop h l =
     (if \<not> uv__is_active (handles l h) then l
      else
        let l1 = set_handle h (\<lambda>t. t\<lparr>flags := flags t AND NOT UV_HANDLE_ACTIVE\<rparr>) l
        in if uv__has_ref (handles l1 h) then uv__active_handle_rm l1 else l1)"

definition uv__handle_ref :: "nat \<Rightarrow> uv_loop_t \<Rightarrow> uv_loop_t" where
  "uv__handle_ref h l =
     (if uv__has_ref (handles l h) then l
      else
        let l1 = set_handle h (\<lambda>t. t\<lparr>flags := flags t OR UV_HANDLE_REF\<rparr>) l
        in if flags (handles l1 h) AND UV_HANDLE_CLOSING \<noteq> 0 then l1
           else if uv__is_active (handles l1 h) then uv__active_handle_add l1 else l1)"

definition uv__handle_unref :: "nat \<Rightarrow> uv_loop_t \<Rightarrow> uv_loop_t" where
  "uv__handle_unref h l =
     (if \<not> uv__has_ref (handles l h) then l
      else
        let l1 = set_handle h (\<lambda>t. t\<lparr>flags := flags t AND NOT UV_HANDLE_REF\<rparr>) l
        in if flags (handles l1 h) AND UV_HANDLE_CLOSING \<noteq> 0 then l1
           else if uv__is_active (handles l1 h) then uv__active_handle_rm l1 else l1)"

definition uv__handle_init :: "nat \<Rightarrow> nat \<Rightarrow> uv_loop_t \<Rightarrow> uv_loop_t" where
  "uv__handle_init h ty l =
     (let l1 = set_handle h (\<lambda>t. t\<lparr>handle_type := ty, flags := UV_HANDLE_REF\<rparr>) l;
          l2 = l1\<lparr>handle_queue := QUEUE_INSERT_TAIL Loop_head (Handle_node h) (handle_queue l1)\<rparr>
      in set_handle h (\<lambda>t. t\<lparr>next_closing := None\<rparr>) l2)"

section \<open>Timers\<close>

definition timer_less_than :: "(nat \<Rightarrow> uv_timer_t) \<Rightarrow> nat \<Rightarrow> nat \<Rightarrow> bool" where
  "timer_less_than hs a b =
     (if timeout (hs a) < timeout (hs b) then True
      else if timeout (hs b) < timeout (hs a) then False
      else start_id (hs a) < start_id (hs b))"

definition uv_timer_init :: "nat \<Rightarrow> uv_loop_t \<Rightarrow> int \<times> uv_loop_t" where
  "uv_timer_init h l = (0, set_handle h (\<lambda>t. t\<lparr>timer_cb := None, repeat := 0\<rparr>) (uv__handle_init h UV_TIMER l))"

definition uv_timer_stop :: "nat \<Rightarrow> uv_loop_t \<Rightarrow> (int \<times> uv_loop_t) option" where
  "uv_timer_stop h l =
     (if \<not> uv__is_active (handles l h) then Some (0, l)
      else
        case heap_remove (timer_less_than (handles l)) (Some h) (timer_heap l) of
          None \<Rightarrow> None
        | Some hp \<Rightarrow> Some (0, uv__handle_stop h (l\<lparr>timer_heap := hp\<rparr>)))"

definition clamp_timeout :: "u64 \<Rightarrow> u64 \<Rightarrow> u64" where
  "clamp_timeout now t = (let clamped = now + t in if clamped < t then - 1 else clamped)"

definition uv_timer_start :: "nat \<Rightarrow> nat option \<Rightarrow> u64 \<Rightarrow> u64 \<Rightarrow> uv_loop_t \<Rightarrow> (int \<times> uv_loop_t) option" where
  "uv_timer_start h cb tmo rep l =
     (if uv__is_closing (handles l h) \<or> cb = None then Some (UV_EINVAL, l)
      else
        case (if uv__is_active (handles l h) then map_option snd (uv_timer_stop h l) else Some l) of
          None \<Rightarrow> None
        | Some l1 \<Rightarrow>
            let l2 = set_handle h (\<lambda>t. t\<lparr>timer_cb := cb, timeout := clamp_timeout (time l1) tmo, repeat := rep, start_id := timer_counter l1\<rparr>) l1;
                l3 = l2\<lparr>timer_counter := timer_counter l2 + 1\<rparr>
            in case heap_insert (timer_less_than (handles l3)) h (timer_heap l3) of
                 None \<Rightarrow> None
               | Some hp \<Rightarrow> Some (0, uv__handle_start h (l3\<lparr>timer_heap := hp\<rparr>)))"

definition uv_timer_again :: "nat \<Rightarrow> uv_loop_t \<Rightarrow> (int \<times> uv_loop_t) option" where
  "uv_timer_again h l =
     (if timer_cb (handles l h) = None then Some (UV_EINVAL, l)
      else if repeat (handles l h) \<noteq> 0 then
        case uv_timer_stop h l of
          None \<Rightarrow> None
        | Some (_, l1) \<Rightarrow>
            (case uv_timer_start h (timer_cb (handles l1 h)) (repeat (handles l1 h)) (repeat (handles l1 h)) l1 of
               None \<Rightarrow> None
             | Some (_, l2) \<Rightarrow> Some (0, l2))
      else Some (0, l))"

definition uv_timer_set_repeat :: "nat \<Rightarrow> u64 \<Rightarrow> uv_loop_t \<Rightarrow> uv_loop_t" where
  "uv_timer_set_repeat h rep l = set_handle h (\<lambda>t. t\<lparr>repeat := rep\<rparr>) l"

definition uv_timer_get_repeat :: "nat \<Rightarrow> uv_loop_t \<Rightarrow> u64" where
  "uv_timer_get_repeat h l = repeat (handles l h)"

definition INT_MAX :: u64 where "INT_MAX = 0x7FFFFFFF"

definition uv__next_timeout :: "uv_loop_t \<Rightarrow> int" where
  "uv__next_timeout l =
     (case heap_min (timer_heap l) of
        None \<Rightarrow> - 1
      | Some h \<Rightarrow>
          if timeout (handles l h) \<le> time l then 0
          else
            let diff = timeout (handles l h) - time l; diff = (if INT_MAX < diff then INT_MAX else diff)
            in uint diff)"

text \<open>The result has the handles whose callbacks were called, in order.\<close>

partial_function (option) uv__run_timers :: "(nat \<Rightarrow> nat \<Rightarrow> uv_loop_t \<Rightarrow> uv_loop_t option) \<Rightarrow> uv_loop_t \<Rightarrow> (nat list \<times> uv_loop_t) option" where
  "uv__run_timers env l =
     (case heap_min (timer_heap l) of
        None \<Rightarrow> Some ([], l)
      | Some h \<Rightarrow>
          if time l < timeout (handles l h) then Some ([], l)
          else
            case uv_timer_stop h l of
              None \<Rightarrow> None
            | Some (_, l1) \<Rightarrow>
                case uv_timer_again h l1 of
                  None \<Rightarrow> None
                | Some (_, l2) \<Rightarrow>
                    case timer_cb (handles l2 h) of
                      None \<Rightarrow> None
                    | Some cb \<Rightarrow>
                        case env cb h l2 of
                          None \<Rightarrow> None
                        | Some l3 \<Rightarrow> Option.bind (uv__run_timers env l3) (\<lambda>(called, l4). Some (h # called, l4)))"

declare uv__run_timers.simps [code]

definition uv__timer_close :: "nat \<Rightarrow> uv_loop_t \<Rightarrow> uv_loop_t option" where
  "uv__timer_close h l = map_option snd (uv_timer_stop h l)"

section \<open>The order of timers\<close>

interpretation timers: heap_order "timer_less_than hs" for hs
  by unfold_locales (auto simp: timer_less_than_def split: if_splits)

end
