(* ===== verification/Uv_Timer_Correct.thy ===== *)
theory Uv_Timer_Correct
  imports Uv_Timer
begin

text \<open>
  The timers are sound: the invariant \<open>loop_ok others l S\<close> says that the heap of the loop \<open>l\<close> holds exactly the active timers \<open>S\<close>,
  in the order of \<open>timer_less_than\<close>, that every active timer can be called, and that the loop counts the active referenced handles,
  \<open>others\<close> of which are no timers. Each operation keeps it, by the contract of the heap (\<open>timers.queue\<close>). The loop over the due
  timers ends because every round removes one timer from the due ones.
\<close>

section \<open>Flags\<close>

lemma is_active_bit: "uv__is_active t \<longleftrightarrow> bit (flags t) 2"
  and has_ref_bit: "uv__has_ref t \<longleftrightarrow> bit (flags t) 3"
  and is_closing_bit: "uv__is_closing t \<longleftrightarrow> bit (flags t) 0 \<or> bit (flags t) 1"
proof -
  have e: "w AND 2 ^ k = 0 \<longleftrightarrow> \<not> bit w k" for w :: u32 and k by (rule and_exp_eq_0_iff_not_bit)
  show "uv__is_active t \<longleftrightarrow> bit (flags t) 2" "uv__has_ref t \<longleftrightarrow> bit (flags t) 3"
    using e [of "flags t" 2] e [of "flags t" 3] by (simp_all add: uv__is_active_def uv__has_ref_def UV_HANDLE_ACTIVE_def UV_HANDLE_REF_def)
  have "flags t AND (UV_HANDLE_CLOSING OR UV_HANDLE_CLOSED) = (flags t AND 2 ^ 0) OR (flags t AND 2 ^ 1)"
    unfolding UV_HANDLE_CLOSING_def UV_HANDLE_CLOSED_def bit.conj_disj_distrib by simp
  then show "uv__is_closing t \<longleftrightarrow> bit (flags t) 0 \<or> bit (flags t) 1"
    using e [of "flags t" 0] e [of "flags t" 1] by (simp add: uv__is_closing_def or_eq_0_iff)
qed

lemma active_flag: "bit (f OR UV_HANDLE_ACTIVE) n \<longleftrightarrow> bit f n \<or> n = 2" "bit (f AND NOT UV_HANDLE_ACTIVE) n \<longleftrightarrow> bit f n \<and> n \<noteq> 2" for f :: u32
proof -
  have "bit (2 ^ 2 :: u32) n \<longleftrightarrow> n = 2" unfolding bit_exp_iff by auto
  then have a: "bit UV_HANDLE_ACTIVE n \<longleftrightarrow> n = 2" by (simp add: UV_HANDLE_ACTIVE_def)
  show "bit (f OR UV_HANDLE_ACTIVE) n \<longleftrightarrow> bit f n \<or> n = 2" "bit (f AND NOT UV_HANDLE_ACTIVE) n \<longleftrightarrow> bit f n \<and> n \<noteq> 2"
    by (auto simp: bit_or_iff bit_and_iff bit_not_iff a dest: bit_imp_le_length)
qed

lemma set_handle_simps [simp]:
  "handles (set_handle h f l) = (handles l)(h := f (handles l h))" "time (set_handle h f l) = time l"
  "timer_counter (set_handle h f l) = timer_counter l" "active_handles (set_handle h f l) = active_handles l"
  "timer_heap (set_handle h f l) = timer_heap l" "handle_queue (set_handle h f l) = handle_queue l"
  by (simp_all add: set_handle_def)

lemma handle_start_simps [simp]:
  "time (uv__handle_start h l) = time l" "timer_counter (uv__handle_start h l) = timer_counter l" "timer_heap (uv__handle_start h l) = timer_heap l"
  "handle_queue (uv__handle_start h l) = handle_queue l"
  "handles (uv__handle_start h l) = (handles l)(h := (handles l h)\<lparr>flags := flags (handles l h) OR UV_HANDLE_ACTIVE\<rparr>)"
proof -
  have "f OR UV_HANDLE_ACTIVE = f" if "bit f 2" for f :: u32
    by (rule bit_word_eqI) (use that in \<open>auto simp: active_flag\<close>)
  then show "handles (uv__handle_start h l) = (handles l)(h := (handles l h)\<lparr>flags := flags (handles l h) OR UV_HANDLE_ACTIVE\<rparr>)"
    by (auto simp: uv__handle_start_def Let_def uv__active_handle_add_def is_active_bit fun_eq_iff)
qed (simp_all add: uv__handle_start_def Let_def uv__active_handle_add_def)

lemma handle_stop_simps [simp]:
  "time (uv__handle_stop h l) = time l" "timer_counter (uv__handle_stop h l) = timer_counter l" "timer_heap (uv__handle_stop h l) = timer_heap l"
  "handle_queue (uv__handle_stop h l) = handle_queue l"
  "handles (uv__handle_stop h l) = (handles l)(h := (handles l h)\<lparr>flags := flags (handles l h) AND NOT UV_HANDLE_ACTIVE\<rparr>)"
proof -
  have "f AND NOT UV_HANDLE_ACTIVE = f" if "\<not> bit f 2" for f :: u32
    by (rule bit_word_eqI) (use that in \<open>auto simp: active_flag\<close>)
  then show "handles (uv__handle_stop h l) = (handles l)(h := (handles l h)\<lparr>flags := flags (handles l h) AND NOT UV_HANDLE_ACTIVE\<rparr>)"
    by (auto simp: uv__handle_stop_def Let_def uv__active_handle_rm_def is_active_bit fun_eq_iff)
qed (simp_all add: uv__handle_stop_def Let_def uv__active_handle_rm_def)

section \<open>The invariant\<close>

text \<open>The heap holds exactly the active timers, in order, and the loop counts the active handles that keep it alive;
  \<open>others\<close> is the number of those that are no timers.\<close>

definition referenced :: "uv_loop_t \<Rightarrow> nat set \<Rightarrow> nat set" where
  "referenced l S = {h \<in> S. uv__has_ref (handles l h)}"

definition timers_ok :: "nat \<Rightarrow> uv_loop_t \<Rightarrow> nat set \<Rightarrow> bool" where
  "timers_ok others l S \<longleftrightarrow>
     heap_holds (timer_less_than (handles l)) (timer_heap l) S \<and> (\<forall>h. uv__is_active (handles l h) \<longleftrightarrow> h \<in> S) \<and>
     active_handles l = word_of_nat (others + card (referenced l S))"

lemma timers_finite: "timers_ok others l S \<Longrightarrow> finite S"
  by (auto simp: timers_ok_def dest: timers.queue.holds_finite)

text \<open>Only the due times and starting numbers matter for the order.\<close>

lemma timer_order_cong:
  "timeout (hs' a) = timeout (hs a) \<Longrightarrow> timeout (hs' b) = timeout (hs b) \<Longrightarrow> start_id (hs' a) = start_id (hs a) \<Longrightarrow>
   start_id (hs' b) = start_id (hs b) \<Longrightarrow> timer_less_than hs' a b = timer_less_than hs a b"
  by (simp add: timer_less_than_def)

lemma stop_ok:
  assumes "timers_ok others l S"
  shows "\<exists>l'. uv_timer_stop h l = Some (0, l') \<and> timers_ok others l' (S - {h}) \<and> time l' = time l \<and> timer_counter l' = timer_counter l \<and>
    handles l' = (handles l)(h := (handles l h)\<lparr>flags := flags (handles l' h)\<rparr>) \<and>
    (\<forall>n. n \<noteq> 2 \<longrightarrow> bit (flags (handles l' h)) n = bit (flags (handles l h)) n)"
proof (cases "h \<in> S")
  case False
  with assms have "uv_timer_stop h l = Some (0, l)" by (simp add: uv_timer_stop_def timers_ok_def)
  with False assms show ?thesis by simp
next
  case True
  have a: "uv__is_active (handles l h)" and hh: "heap_holds (timer_less_than (handles l)) (timer_heap l) S"
    using assms True by (auto simp: timers_ok_def)
  from timers.queue.remove_holds [OF hh True] obtain hp where hp: "heap_remove (timer_less_than (handles l)) (Some h) (timer_heap l) = Some hp"
    "heap_holds (timer_less_than (handles l)) hp (S - {h})" by blast
  define l' where "l' = uv__handle_stop h (l\<lparr>timer_heap := hp\<rparr>)"
  have s: "uv_timer_stop h l = Some (0, l')" using a hp(1) by (simp add: uv_timer_stop_def l'_def)
  have hd: "handles l' = (handles l)(h := (handles l h)\<lparr>flags := flags (handles l h) AND NOT UV_HANDLE_ACTIVE\<rparr>)"
    by (simp add: l'_def)
  have "heap_holds (timer_less_than (handles l')) (timer_heap l') (S - {h})"
  proof -
    have "timer_less_than (handles l') a b = timer_less_than (handles l) a b" for a b
      by (rule timer_order_cong) (simp_all add: hd)
    from heap_holds_cong [OF hp(2) this] show ?thesis by (simp add: l'_def)
  qed
  moreover have "uv__is_active (handles l' g) \<longleftrightarrow> g \<in> S - {h}" for g
    using assms by (auto simp: hd timers_ok_def is_active_bit active_flag)
  moreover have "active_handles l' = word_of_nat (others + card (referenced l' (S - {h})))"
  proof -
    have fin: "finite (referenced l S)" using timers_finite [OF assms] by (simp add: referenced_def)
    have r: "referenced l' (S - {h}) = referenced l S - {h}" by (auto simp: referenced_def hd)
    have ah: "active_handles l = word_of_nat (others + card (referenced l S))" using assms by (simp add: timers_ok_def)
    show ?thesis
    proof (cases "uv__has_ref (handles l h)")
      case ref: True
      then have "h \<in> referenced l S" using True by (simp add: referenced_def)
      then obtain k where k: "card (referenced l S) = Suc k" "card (referenced l S - {h}) = k"
        using fin by (metis card_Suc_Diff1)
      have "active_handles l' = active_handles l - 1"
        using a ref by (auto simp: l'_def uv__handle_stop_def Let_def uv__active_handle_rm_def has_ref_bit active_flag)
      then show ?thesis unfolding r ah k by simp
    next
      case False
      then have "active_handles l' = active_handles l"
        using a by (auto simp: l'_def uv__handle_stop_def Let_def has_ref_bit active_flag)
      moreover have "referenced l S - {h} = referenced l S" using False by (auto simp: referenced_def)
      ultimately show ?thesis unfolding r ah by simp
    qed
  qed
  ultimately show ?thesis using s by (auto simp: timers_ok_def hd active_flag l'_def)
qed

lemma heap_holds_update:
  assumes "heap_holds (timer_less_than hs) hp S" "h \<notin> S"
  shows "heap_holds (timer_less_than (hs(h := t))) hp S"
  by (rule heap_holds_cong [OF assms(1)], rule timer_order_cong) (use assms(2) in auto)

text \<open>Adding a stopped timer: the last part of \<open>uv_timer_start\<close>.\<close>

lemma insert_ok:
  assumes ok: "timers_ok others l S" and h: "h \<notin> S" and n: "Suc (card S) < 2 ^ 32"
    and t: "handles l' = (handles l)(h := t\<lparr>flags := flags (handles l h)\<rparr>)" "timer_heap l' = timer_heap l" "active_handles l' = active_handles l"
  shows "\<exists>hp. heap_insert (timer_less_than (handles l')) h (timer_heap l') = Some hp \<and>
    timers_ok others (uv__handle_start h (l'\<lparr>timer_heap := hp\<rparr>)) (insert h S)"
proof -
  have "heap_holds (timer_less_than (handles l')) (timer_heap l') S"
    using ok h heap_holds_update by (simp add: timers_ok_def t)
  from timers.queue.ins_holds [OF this h n] obtain hp where
    hp: "heap_insert (timer_less_than (handles l')) h (timer_heap l') = Some hp" "heap_holds (timer_less_than (handles l')) hp (insert h S)" by blast
  define l'' where "l'' = uv__handle_start h (l'\<lparr>timer_heap := hp\<rparr>)"
  have hd: "handles l'' = (handles l')(h := (handles l' h)\<lparr>flags := flags (handles l' h) OR UV_HANDLE_ACTIVE\<rparr>)"
    by (simp add: l''_def)
  have "timer_less_than (handles l'') a b = timer_less_than (handles l') a b" for a b
    by (rule timer_order_cong) (simp_all add: hd)
  from heap_holds_cong [OF hp(2) this] have "heap_holds (timer_less_than (handles l'')) (timer_heap l'') (insert h S)" by (simp add: l''_def)
  moreover have na: "\<not> bit (flags (handles l h)) 2" and al: "\<forall>g. uv__is_active (handles l g) \<longleftrightarrow> g \<in> S"
    using ok h by (auto simp: timers_ok_def is_active_bit)
  then have "uv__is_active (handles l'' g) \<longleftrightarrow> g \<in> insert h S" for g
    by (auto simp: hd t is_active_bit active_flag)
  moreover have "active_handles l'' = word_of_nat (others + card (referenced l'' (insert h S)))"
  proof -
    have fin: "finite (referenced l S)" "h \<notin> referenced l S" using timers_finite [OF ok] h by (simp_all add: referenced_def)
    have r: "referenced l'' (insert h S) = (if bit (flags (handles l h)) 3 then insert h (referenced l S) else referenced l S)"
      using h by (auto simp: referenced_def hd t has_ref_bit active_flag)
    have ah: "active_handles l = word_of_nat (others + card (referenced l S))" using ok by (simp add: timers_ok_def)
    have "active_handles l'' = (if bit (flags (handles l h)) 3 then active_handles l + 1 else active_handles l)"
      using na by (auto simp: l''_def uv__handle_start_def Let_def uv__active_handle_add_def is_active_bit has_ref_bit active_flag t)
    then show ?thesis unfolding r ah using fin by (simp add: add_ac)
  qed
  ultimately show ?thesis using hp(1) by (auto simp: timers_ok_def l''_def)
qed

lemma start_ok:
  assumes ok: "timers_ok others l S" and c: "\<not> uv__is_closing (handles l h)" "cb \<noteq> None" and n: "Suc (card (S - {h})) < 2 ^ 32"
  shows "\<exists>l'. uv_timer_start h cb tmo rep l = Some (0, l') \<and> timers_ok others l' (insert h S) \<and> time l' = time l \<and> timer_counter l' = timer_counter l + 1 \<and>
    (\<forall>g. g \<noteq> h \<longrightarrow> handles l' g = handles l g) \<and> timer_cb (handles l' h) = cb \<and> timeout (handles l' h) = clamp_timeout (time l) tmo \<and>
    repeat (handles l' h) = rep \<and> start_id (handles l' h) = timer_counter l \<and> uv__is_closing (handles l' h) = uv__is_closing (handles l h)"
proof -
  obtain l1 where l1: "uv_timer_stop h l = Some (0, l1)" "timers_ok others l1 (S - {h})" "time l1 = time l" "timer_counter l1 = timer_counter l"
    "handles l1 = (handles l)(h := (handles l h)\<lparr>flags := flags (handles l1 h)\<rparr>)"
    "\<forall>n. n \<noteq> 2 \<longrightarrow> bit (flags (handles l1 h)) n = bit (flags (handles l h)) n"
    using stop_ok [OF ok, of h] by blast
  have step1: "(if uv__is_active (handles l h) then map_option snd (uv_timer_stop h l) else Some l) = Some l1"
    using l1(1) by (auto simp: uv_timer_stop_def)
  define l2 where "l2 = set_handle h (\<lambda>t. t\<lparr>timer_cb := cb, timeout := clamp_timeout (time l1) tmo, repeat := rep, start_id := timer_counter l1\<rparr>) l1"
  define l3 where "l3 = l2\<lparr>timer_counter := timer_counter l2 + 1\<rparr>"
  have h3: "handles l3 = (handles l1)(h := (handles l1 h)\<lparr>timer_cb := cb, timeout := clamp_timeout (time l1) tmo, repeat := rep, start_id := timer_counter l1\<rparr>)"
    "timer_heap l3 = timer_heap l1" "active_handles l3 = active_handles l1" "time l3 = time l" "timer_counter l3 = timer_counter l + 1"
    by (simp_all add: l3_def l2_def l1(3,4))
  have "handles l3 = (handles l1)(h := (handles l3 h)\<lparr>flags := flags (handles l1 h)\<rparr>)" by (simp add: h3)
  from insert_ok [OF l1(2) _ n this h3(2,3)] obtain hp where
    hp: "heap_insert (timer_less_than (handles l3)) h (timer_heap l3) = Some hp"
      "timers_ok others (uv__handle_start h (l3\<lparr>timer_heap := hp\<rparr>)) (insert h (S - {h}))" by auto
  have "uv_timer_start h cb tmo rep l = Some (0, uv__handle_start h (l3\<lparr>timer_heap := hp\<rparr>))"
    unfolding uv_timer_start_def step1 Let_def option.case l2_def [symmetric] l3_def [symmetric]
    using c hp(1) by auto
  moreover have "insert h (S - {h}) = insert h S" by blast
  moreover have "\<forall>g. g \<noteq> h \<longrightarrow> handles l1 g = handles l g" using fun_cong [OF l1(5)] by (metis fun_upd_other)
  ultimately show ?thesis using hp(2) l1(3,4,6) by (simp add: h3 is_closing_bit active_flag)
qed


section \<open>Clamping and the next timeout\<close>

lemma unat_clamp_timeout: "unat (clamp_timeout now t) = min (unat now + unat t) (2 ^ 64 - 1)"
proof -
  have m: "unat (- 1 :: u64) = 2 ^ 64 - 1" by (simp add: unsigned_minus_1_eq_mask mask_eq_exp_minus_1)
  show ?thesis
  proof (cases "unat now + unat t < 2 ^ 64")
    case True
    then have "unat (now + t) = unat now + unat t" by (simp add: unat_plus_if')
    with True show ?thesis by (simp add: clamp_timeout_def Let_def word_less_nat_alt)
  next
    case False
    then have u: "unat (now + t) = unat now + unat t - 2 ^ 64" by (simp add: unat_plus_if')
    have "unat now < 2 ^ 64" by (rule unat_lt_u64)
    with u False have "unat (now + t) < unat t" by linarith
    then have "clamp_timeout now t = - 1" by (simp add: clamp_timeout_def Let_def word_less_nat_alt)
    with False m show ?thesis by simp
  qed
qed

text \<open>The due times of the timers of a loop, and those that are due now.\<close>

definition due :: "uv_loop_t \<Rightarrow> nat set \<Rightarrow> nat set" where
  "due l S = {h \<in> S. timeout (handles l h) \<le> time l}"

definition callable :: "uv_loop_t \<Rightarrow> nat \<Rightarrow> bool" where
  "callable l h \<longleftrightarrow> timer_cb (handles l h) \<noteq> None \<and> \<not> uv__is_closing (handles l h)"

definition loop_ok :: "nat \<Rightarrow> uv_loop_t \<Rightarrow> nat set \<Rightarrow> bool" where
  "loop_ok others l S \<longleftrightarrow> timers_ok others l S \<and> card S < 2 ^ 32 \<and> (\<forall>h\<in>S. callable l h)"

lemma timer_least:
  assumes "timers_ok others l S"
  shows "heap_min (timer_heap l) = None \<longleftrightarrow> S = {}"
    and "heap_min (timer_heap l) = Some h \<Longrightarrow> h \<in> S \<and> (\<forall>g\<in>S. \<not> timer_less_than (handles l) g h)"
  using assms timers.queue.least_None [of "handles l" "timer_heap l" S] timers.queue.least_Some [of "handles l" "timer_heap l" S h]
  by (auto simp: timers_ok_def)

text \<open>The blocking time of the event loop: forever without timers, not at all when one is due, else until the first is.\<close>

lemma next_timeout_least:
  assumes ok: "timers_ok others l S"
  shows "uv__next_timeout l = (if S = {} then - 1 else min (2 ^ 31 - 1) (Min ((\<lambda>h. int (unat (timeout (handles l h)) - unat (time l))) ` S)))"
proof (cases "heap_min (timer_heap l)")
  case None
  then show ?thesis using timer_least(1) [OF ok] by (simp add: uv__next_timeout_def)
next
  case (Some h)
  define wait where "wait g = int (unat (timeout (handles l g)) - unat (time l))" for g
  have h: "h \<in> S" "\<forall>g\<in>S. \<not> timer_less_than (handles l) g h" using timer_least(2) [OF ok Some] by auto
  have "wait h \<le> wait g" if "g \<in> S" for g
    using h(2) that by (auto simp: wait_def timer_less_than_def word_less_nat_alt word_le_nat_alt split: if_splits)
  then have m: "Min (wait ` S) = wait h" using timers_finite [OF ok] h(1) by (intro Min_eqI) auto
  have "uv__next_timeout l = min (2 ^ 31 - 1) (wait h)"
  proof (cases "timeout (handles l h) \<le> time l")
    case True
    then show ?thesis using Some by (simp add: uv__next_timeout_def wait_def word_le_nat_alt)
  next
    case False
    then have "unat (timeout (handles l h) - time l) = unat (timeout (handles l h)) - unat (time l)"
      by (simp add: unat_sub word_le_nat_alt)
    then have u: "uint (timeout (handles l h) - time l) = wait h" by (simp add: wait_def uint_nat)
    have "uint INT_MAX = 2 ^ 31 - 1" by (simp add: INT_MAX_def)
    with False Some u show ?thesis by (auto simp: uv__next_timeout_def Let_def word_less_def)
  qed
  then show ?thesis using m h(1) by (auto simp: wait_def [symmetric])
qed


section \<open>The invariant of the loop\<close>

lemma callable_cong: "timer_cb (handles l' h) = timer_cb (handles l h) \<Longrightarrow> uv__is_closing (handles l' h) = uv__is_closing (handles l h) \<Longrightarrow> callable l' h = callable l h"
  by (simp add: callable_def)

lemma stop_loop_ok:
  assumes "loop_ok others l S"
  shows "\<exists>l'. uv_timer_stop h l = Some (0, l') \<and> loop_ok others l' (S - {h}) \<and> time l' = time l \<and> timer_counter l' = timer_counter l \<and>
    (\<forall>g. g \<noteq> h \<longrightarrow> handles l' g = handles l g) \<and> timer_cb (handles l' h) = timer_cb (handles l h) \<and> repeat (handles l' h) = repeat (handles l h) \<and>
    uv__is_closing (handles l' h) = uv__is_closing (handles l h)"
proof -
  have ok: "timers_ok others l S" using assms by (simp add: loop_ok_def)
  from stop_ok [OF this, of h] obtain l' where l': "uv_timer_stop h l = Some (0, l')" "timers_ok others l' (S - {h})" "time l' = time l"
    "timer_counter l' = timer_counter l" "handles l' = (handles l)(h := (handles l h)\<lparr>flags := flags (handles l' h)\<rparr>)"
    "\<forall>n. n \<noteq> 2 \<longrightarrow> bit (flags (handles l' h)) n = bit (flags (handles l h)) n" by blast
  have o: "handles l' g = handles l g" if "g \<noteq> h" for g using fun_cong [OF l'(5), of g] that by simp
  obtain w where "handles l' h = (handles l h)\<lparr>flags := w\<rparr>" using fun_cong [OF l'(5), of h] by auto
  then have f: "timer_cb (handles l' h) = timer_cb (handles l h)" "repeat (handles l' h) = repeat (handles l h)" by simp_all
  have "card (S - {h}) < 2 ^ 32" using assms card_Diff1_le [of S h] by (simp add: loop_ok_def)
  moreover have "callable l' g" if "g \<in> S - {h}" for g using assms that o [of g] by (auto simp: loop_ok_def callable_def)
  ultimately have "loop_ok others l' (S - {h})" using l'(2) by (simp add: loop_ok_def)
  then show ?thesis using l' o f by (auto simp: is_closing_bit)
qed

lemma start_loop_ok:
  assumes ok: "loop_ok others l S" and c: "\<not> uv__is_closing (handles l h)" "cb \<noteq> None" and n: "card (insert h S) < 2 ^ 32"
  shows "\<exists>l'. uv_timer_start h cb tmo rep l = Some (0, l') \<and> loop_ok others l' (insert h S) \<and> time l' = time l \<and> timer_counter l' = timer_counter l + 1 \<and>
    (\<forall>g. g \<noteq> h \<longrightarrow> handles l' g = handles l g) \<and> timer_cb (handles l' h) = cb \<and> timeout (handles l' h) = clamp_timeout (time l) tmo \<and>
    repeat (handles l' h) = rep \<and> start_id (handles l' h) = timer_counter l \<and> uv__is_closing (handles l' h) = uv__is_closing (handles l h)"
proof -
  have t: "timers_ok others l S" using ok by (simp add: loop_ok_def)
  have "Suc (card (S - {h})) = card (insert h S)" using timers_finite [OF t] by (simp add: card.insert_remove)
  with n have "Suc (card (S - {h})) < 2 ^ 32" by simp
  from start_ok [OF t c this] obtain l' where l': "uv_timer_start h cb tmo rep l = Some (0, l')" "timers_ok others l' (insert h S)" "time l' = time l"
    "timer_counter l' = timer_counter l + 1" "\<forall>g. g \<noteq> h \<longrightarrow> handles l' g = handles l g" "timer_cb (handles l' h) = cb"
    "timeout (handles l' h) = clamp_timeout (time l) tmo" "repeat (handles l' h) = rep" "start_id (handles l' h) = timer_counter l"
    "uv__is_closing (handles l' h) = uv__is_closing (handles l h)" by blast
  have "callable l' g" if "g \<in> insert h S" for g
    using that ok c l'(5,6,10) by (cases "g = h") (auto simp: callable_def loop_ok_def)
  then have "loop_ok others l' (insert h S)" using l'(2) n by (simp add: loop_ok_def)
  then show ?thesis using l' by blast
qed

lemma again_loop_ok:
  assumes ok: "loop_ok others l S" and c: "callable l h" and n: "card (insert h S) < 2 ^ 32"
  shows "\<exists>l'. uv_timer_again h l = Some (0, l') \<and> loop_ok others l' (if repeat (handles l h) \<noteq> 0 then insert h S else S) \<and> time l' = time l \<and>
    (\<forall>g. g \<noteq> h \<longrightarrow> handles l' g = handles l g) \<and> timer_cb (handles l' h) = timer_cb (handles l h) \<and>
    repeat (handles l' h) = repeat (handles l h) \<and> uv__is_closing (handles l' h) = uv__is_closing (handles l h) \<and>
    (repeat (handles l h) \<noteq> 0 \<longrightarrow> timeout (handles l' h) = clamp_timeout (time l) (repeat (handles l h)))"
proof (cases "repeat (handles l h) = 0")
  case True
  then show ?thesis using ok c by (auto simp: uv_timer_again_def callable_def)
next
  case False
  from stop_loop_ok [OF ok, of h] obtain l1 where l1: "uv_timer_stop h l = Some (0, l1)" "loop_ok others l1 (S - {h})" "time l1 = time l"
    "\<forall>g. g \<noteq> h \<longrightarrow> handles l1 g = handles l g" "timer_cb (handles l1 h) = timer_cb (handles l h)" "repeat (handles l1 h) = repeat (handles l h)"
    "uv__is_closing (handles l1 h) = uv__is_closing (handles l h)" by blast
  have "card (insert h (S - {h})) < 2 ^ 32" using n by simp
  from start_loop_ok [OF l1(2) _ _ this, of "timer_cb (handles l1 h)" "repeat (handles l1 h)" "repeat (handles l1 h)"] c l1(5,7)
  obtain l2 where l2: "uv_timer_start h (timer_cb (handles l1 h)) (repeat (handles l1 h)) (repeat (handles l1 h)) l1 = Some (0, l2)"
    "loop_ok others l2 (insert h (S - {h}))" "time l2 = time l1" "\<forall>g. g \<noteq> h \<longrightarrow> handles l2 g = handles l1 g" "timer_cb (handles l2 h) = timer_cb (handles l1 h)"
    "timeout (handles l2 h) = clamp_timeout (time l1) (repeat (handles l1 h))" "repeat (handles l2 h) = repeat (handles l1 h)"
    "uv__is_closing (handles l2 h) = uv__is_closing (handles l1 h)" by (auto simp: callable_def)
  have "uv_timer_again h l = Some (0, l2)" using False c l1(1) l2(1) by (auto simp: uv_timer_again_def callable_def)
  then show ?thesis using False l2 l1 by simp
qed

section \<open>Running the due timers\<close>

text \<open>One round of the loop, up to the callback.\<close>

lemma fire:
  assumes ok: "loop_ok others l S" and h: "h \<in> due l S" and t: "time l < - 1"
  shows "\<exists>l1 l2. uv_timer_stop h l = Some (0, l1) \<and> uv_timer_again h l1 = Some (0, l2) \<and> timer_cb (handles l2 h) = timer_cb (handles l h) \<and>
    loop_ok others l2 {g \<in> S. g = h \<longrightarrow> repeat (handles l h) \<noteq> 0} \<and> time l2 = time l \<and> (\<forall>g. g \<noteq> h \<longrightarrow> handles l2 g = handles l g) \<and>
    due l2 {g \<in> S. g = h \<longrightarrow> repeat (handles l h) \<noteq> 0} = due l S - {h} \<and> repeat (handles l2 h) = repeat (handles l h)"
proof -
  have hS: "h \<in> S" using h by (simp add: due_def)
  from stop_loop_ok [OF ok, of h] obtain l1 where l1: "uv_timer_stop h l = Some (0, l1)" "loop_ok others l1 (S - {h})" "time l1 = time l"
    "\<forall>g. g \<noteq> h \<longrightarrow> handles l1 g = handles l g" "timer_cb (handles l1 h) = timer_cb (handles l h)" "repeat (handles l1 h) = repeat (handles l h)"
    "uv__is_closing (handles l1 h) = uv__is_closing (handles l h)" by blast
  have "callable l h" "card S < 2 ^ 32" using ok hS by (auto simp: loop_ok_def)
  then have c: "callable l1 h" "card (insert h (S - {h})) < 2 ^ 32" using l1(5,7) hS by (auto simp: callable_def insert_absorb)
  from again_loop_ok [OF l1(2) c] obtain l2 where l2: "uv_timer_again h l1 = Some (0, l2)"
    "loop_ok others l2 (if repeat (handles l1 h) \<noteq> 0 then insert h (S - {h}) else S - {h})" "time l2 = time l1"
    "\<forall>g. g \<noteq> h \<longrightarrow> handles l2 g = handles l1 g" "timer_cb (handles l2 h) = timer_cb (handles l1 h)" "repeat (handles l2 h) = repeat (handles l1 h)"
    "repeat (handles l1 h) \<noteq> 0 \<longrightarrow> timeout (handles l2 h) = clamp_timeout (time l1) (repeat (handles l1 h))" by blast
  have S2: "(if repeat (handles l1 h) \<noteq> 0 then insert h (S - {h}) else S - {h}) = {g \<in> S. g = h \<longrightarrow> repeat (handles l h) \<noteq> 0}"
    using hS l1(6) by auto
  have late: "\<not> timeout (handles l2 h) \<le> time l" if "repeat (handles l h) \<noteq> 0"
  proof -
    have "unat (time l) < 2 ^ 64 - 1" using t by (simp add: word_less_nat_alt unsigned_minus_1_eq_mask mask_eq_exp_minus_1)
    moreover have "unat (repeat (handles l h)) \<noteq> 0" using that by (simp add: unat_eq_0)
    ultimately show ?thesis using l2(7) that l1(3,6) by (simp add: word_le_nat_alt unat_clamp_timeout)
  qed
  have "due l2 {g \<in> S. g = h \<longrightarrow> repeat (handles l h) \<noteq> 0} = due l S - {h}"
    using late l1(3,4) l2(3,4) by (auto simp: due_def)
  then show ?thesis using l1 l2 unfolding S2 by auto
qed


text \<open>Callbacks may do anything that keeps the loop sound, leaves the clock alone and makes no further timer due.\<close>

definition tame :: "nat \<Rightarrow> (nat \<Rightarrow> nat \<Rightarrow> uv_loop_t \<Rightarrow> uv_loop_t option) \<Rightarrow> bool" where
  "tame others env \<longleftrightarrow> (\<forall>cb h l S. loop_ok others l S \<longrightarrow>
     (\<exists>l' S'. env cb h l = Some l' \<and> loop_ok others l' S' \<and> time l' = time l \<and> due l' S' \<subseteq> due l S))"

lemma run_timers_unfold:
  assumes ok: "loop_ok others l S" and h: "heap_min (timer_heap l) = Some h" and t: "time l < - 1" and d: "h \<in> due l S"
    and cb: "timer_cb (handles l h) = Some cb" and st: "uv_timer_stop h l = Some (0, l1)" "uv_timer_again h l1 = Some (0, l2)" "timer_cb (handles l2 h) = timer_cb (handles l h)"
  shows "uv__run_timers env l = Option.bind (env cb h l2) (\<lambda>l3. Option.bind (uv__run_timers env l3) (\<lambda>(called, l4). Some (h # called, l4)))"
  using assms by (subst uv__run_timers.simps) (auto simp: due_def not_less split: option.splits)

lemma run_timers_done:
  assumes ok: "loop_ok others l S" and d: "due l S = {}"
  shows "uv__run_timers env l = Some ([], l)"
proof (cases "heap_min (timer_heap l)")
  case None
  then show ?thesis by (subst uv__run_timers.simps) simp
next
  case (Some h)
  then have "time l < timeout (handles l h)" using timer_least(2) [of others l S h] ok d by (auto simp: loop_ok_def due_def)
  with Some show ?thesis by (subst uv__run_timers.simps) simp
qed

lemma least_is_due:
  assumes ok: "loop_ok others l S" and d: "due l S \<noteq> {}"
  obtains h cb where "heap_min (timer_heap l) = Some h" "h \<in> due l S" "timer_cb (handles l h) = Some cb" "\<forall>g\<in>S. \<not> timer_less_than (handles l) g h"
proof -
  have t: "timers_ok others l S" using ok by (simp add: loop_ok_def)
  obtain g where g: "g \<in> S" "timeout (handles l g) \<le> time l" using d by (auto simp: due_def)
  then obtain h where h: "heap_min (timer_heap l) = Some h" using timer_least(1) [OF t] by fastforce
  have m: "h \<in> S" "\<forall>g\<in>S. \<not> timer_less_than (handles l) g h" using timer_least(2) [OF t h] by auto
  have "timeout (handles l h) \<le> timeout (handles l g)" using m(2) g(1) by (auto simp: timer_less_than_def split: if_splits)
  then have "h \<in> due l S" using g(2) m(1) by (simp add: due_def)
  moreover obtain cb where "timer_cb (handles l h) = Some cb" using ok m(1) by (auto simp: loop_ok_def callable_def)
  ultimately show ?thesis using that h m(2) by blast
qed

lemma finite_due: "loop_ok others l S \<Longrightarrow> finite (due l S)"
  using timers_finite by (auto simp: loop_ok_def due_def)

lemma run_timers_returns:
  assumes "tame others env"
  shows "loop_ok others l S \<Longrightarrow> time l < - 1 \<Longrightarrow>
    \<exists>called l' S'. uv__run_timers env l = Some (called, l') \<and> loop_ok others l' S' \<and> due l' S' = {} \<and> time l' = time l \<and> length called \<le> card (due l S)"
proof (induction "card (due l S)" arbitrary: l S rule: less_induct)
  case less
  note ok = less.prems(1)
  show ?case
  proof (cases "due l S = {}")
    case True
    then show ?thesis using run_timers_done [OF ok] ok by auto
  next
    case False
    from least_is_due [OF ok False] obtain h cb where h: "heap_min (timer_heap l) = Some h" "h \<in> due l S" "timer_cb (handles l h) = Some cb" by blast
    define S2 where "S2 = {g \<in> S. g = h \<longrightarrow> repeat (handles l h) \<noteq> 0}"
    from fire [OF ok h(2) less.prems(2)] obtain l1 l2 where f: "uv_timer_stop h l = Some (0, l1)" "uv_timer_again h l1 = Some (0, l2)"
      "timer_cb (handles l2 h) = timer_cb (handles l h)" "loop_ok others l2 S2" "time l2 = time l" "due l2 S2 = due l S - {h}"
      unfolding S2_def by blast
    obtain l3 S3 where c: "env cb h l2 = Some l3" "loop_ok others l3 S3" "time l3 = time l2" "due l3 S3 \<subseteq> due l2 S2"
      using assms f(4) unfolding tame_def by blast
    have less: "card (due l3 S3) < card (due l S)"
      using c(4) f(6) h(2) finite_due [OF ok] by (intro psubset_card_mono) auto
    moreover have "time l3 < - 1" using less.prems(2) c(3) f(5) by simp
    ultimately obtain called l' S' where r: "uv__run_timers env l3 = Some (called, l')" "loop_ok others l' S'" "due l' S' = {}" "time l' = time l3" "length called \<le> card (due l3 S3)"
      using less.hyps [OF less c(2)] by blast
    have "uv__run_timers env l = Some (h # called, l')"
      using run_timers_unfold [OF ok h(1) less.prems(2) h(2,3) f(1-3)] c(1) r(1) by simp
    moreover have "length (h # called) \<le> card (due l S)" using r(5) less by simp
    ultimately show ?thesis using r c(3) f(5) by metis
  qed
qed

text \<open>Callbacks that leave the loop alone: the calls are the due timers in order.\<close>

lemma run_timers_calls_due:
  assumes env: "\<And>cb h l. env cb h l = Some l"
  shows "loop_ok others l S \<Longrightarrow> time l < - 1 \<Longrightarrow>
    \<exists>called l'. uv__run_timers env l = Some (called, l') \<and> set called = due l S \<and> distinct called \<and>
      sorted_wrt (\<lambda>a b. \<not> timer_less_than (handles l) b a) called \<and>
      loop_ok others l' {h \<in> S. h \<in> due l S \<longrightarrow> repeat (handles l h) \<noteq> 0}"
proof (induction "card (due l S)" arbitrary: l S rule: less_induct)
  case less
  note ok = less.prems(1)
  show ?case
  proof (cases "due l S = {}")
    case True
    then show ?thesis using run_timers_done [OF ok] ok by auto
  next
    case False
    from least_is_due [OF ok False] obtain h cb where h: "heap_min (timer_heap l) = Some h" "h \<in> due l S" "timer_cb (handles l h) = Some cb"
      "\<forall>g\<in>S. \<not> timer_less_than (handles l) g h" by blast
    define S2 where "S2 = {g \<in> S. g = h \<longrightarrow> repeat (handles l h) \<noteq> 0}"
    from fire [OF ok h(2) less.prems(2)] obtain l1 l2 where f: "uv_timer_stop h l = Some (0, l1)" "uv_timer_again h l1 = Some (0, l2)"
      "timer_cb (handles l2 h) = timer_cb (handles l h)" "loop_ok others l2 S2" "time l2 = time l" "due l2 S2 = due l S - {h}"
      "\<forall>g. g \<noteq> h \<longrightarrow> handles l2 g = handles l g"
      unfolding S2_def by blast
    have smaller: "card (due l2 S2) < card (due l S)" using f(6) h(2) finite_due [OF ok] by (intro psubset_card_mono) auto
    moreover have "time l2 < - 1" using less.prems(2) f(5) by simp
    ultimately obtain called l' where r: "uv__run_timers env l2 = Some (called, l')" "set called = due l2 S2" "distinct called"
      "sorted_wrt (\<lambda>a b. \<not> timer_less_than (handles l2) b a) called" "loop_ok others l' {g \<in> S2. g \<in> due l2 S2 \<longrightarrow> repeat (handles l2 g) \<noteq> 0}"
      using less.hyps [OF _ f(4)] by blast
    have run: "uv__run_timers env l = Some (h # called, l')"
      using run_timers_unfold [OF ok h(1) less.prems(2) h(2,3) f(1-3)] r(1) env by simp
    have "sorted_wrt (\<lambda>a b. \<not> timer_less_than (handles l) b a) called"
    proof (rule sorted_wrt_mono_rel [OF _ r(4)])
      fix a b assume ab: "a \<in> set called" "b \<in> set called" "\<not> timer_less_than (handles l2) b a"
      then have "a \<noteq> h" "b \<noteq> h" using r(2) f(6) by auto
      then have "handles l2 a = handles l a" "handles l2 b = handles l b" using f(7) by simp_all
      then show "\<not> timer_less_than (handles l) b a" using ab(3) timer_order_cong [of "handles l2" b "handles l" a] by simp
    qed
    moreover have "\<forall>b\<in>set called. \<not> timer_less_than (handles l) b h" using r(2) f(6) h(4) by (auto simp: due_def)
    ultimately have so: "sorted_wrt (\<lambda>a b. \<not> timer_less_than (handles l) b a) (h # called)" by simp
    have left: "{g \<in> S2. g \<in> due l2 S2 \<longrightarrow> repeat (handles l2 g) \<noteq> 0} = {g \<in> S. g \<in> due l S \<longrightarrow> repeat (handles l g) \<noteq> 0}"
      unfolding f(6) using f(7) h(2) by (auto simp: S2_def)
    have "set (h # called) = due l S" "distinct (h # called)" using r(2,3) f(6) h(2) by auto
    then show ?thesis using run so r(5) [unfolded left] by blast
  qed
qed


section \<open>References\<close>

lemma ref_flag: "bit (f OR UV_HANDLE_REF) n \<longleftrightarrow> bit f n \<or> n = 3" "bit (f AND NOT UV_HANDLE_REF) n \<longleftrightarrow> bit f n \<and> n \<noteq> 3" for f :: u32
proof -
  have "bit (2 ^ 3 :: u32) n \<longleftrightarrow> n = 3" unfolding bit_exp_iff by auto
  then have a: "bit UV_HANDLE_REF n \<longleftrightarrow> n = 3" by (simp add: UV_HANDLE_REF_def)
  show "bit (f OR UV_HANDLE_REF) n \<longleftrightarrow> bit f n \<or> n = 3" "bit (f AND NOT UV_HANDLE_REF) n \<longleftrightarrow> bit f n \<and> n \<noteq> 3"
    by (auto simp: bit_or_iff bit_and_iff bit_not_iff a dest: bit_imp_le_length)
qed

lemma not_closing_flag: "\<not> uv__is_closing t \<Longrightarrow> flags t AND UV_HANDLE_CLOSING = 0"
  using and_exp_eq_0_iff_not_bit [of "flags t" 0] by (simp add: is_closing_bit UV_HANDLE_CLOSING_def)

text \<open>A handle whose flags change outside bit 2 and whose other fields, as far as the timers see them, stay.\<close>

lemma reflag_ok:
  assumes ok: "loop_ok others l S" and l': "handles l' = (handles l)(h := (handles l h)\<lparr>flags := f\<rparr>)" "timer_heap l' = timer_heap l"
    and f: "\<forall>n. n \<noteq> 3 \<longrightarrow> bit f n = bit (flags (handles l h)) n"
    and a: "active_handles l' = word_of_nat (others + card (referenced l' S))"
  shows "loop_ok others l' S"
proof -
  have "timer_less_than (handles l') a b = timer_less_than (handles l) a b" for a b
    by (rule timer_order_cong) (simp_all add: l')
  then have "heap_holds (timer_less_than (handles l')) (timer_heap l') S"
    using ok l'(2) by (auto simp: loop_ok_def timers_ok_def intro: heap_holds_cong)
  moreover have "uv__is_active (handles l' g) = uv__is_active (handles l g)" "callable l' g = callable l g" for g
    using f by (auto simp: l' is_active_bit is_closing_bit callable_def)
  ultimately show ?thesis using ok a by (auto simp: loop_ok_def timers_ok_def)
qed

lemma ref_loop_ok:
  assumes ok: "loop_ok others l S" and c: "\<not> uv__is_closing (handles l h)"
  shows "loop_ok others (uv__handle_ref h l) S"
proof (cases "uv__has_ref (handles l h)")
  case True
  then show ?thesis using ok by (simp add: uv__handle_ref_def)
next
  case False
  define l1 where "l1 = set_handle h (\<lambda>t. t\<lparr>flags := flags t OR UV_HANDLE_REF\<rparr>) l"
  define l' where "l' = uv__handle_ref h l"
  have c1: "flags (handles l1 h) AND UV_HANDLE_CLOSING = 0"
    by (rule not_closing_flag) (use c in \<open>simp add: l1_def is_closing_bit ref_flag\<close>)
  have act: "uv__is_active (handles l1 h) \<longleftrightarrow> h \<in> S" using ok by (simp add: l1_def is_active_bit ref_flag loop_ok_def timers_ok_def)
  have l': "l' = (if h \<in> S then uv__active_handle_add l1 else l1)"
    using False c1 act by (simp add: l'_def uv__handle_ref_def Let_def l1_def [symmetric])
  have hd: "handles l' = (handles l)(h := (handles l h)\<lparr>flags := flags (handles l h) OR UV_HANDLE_REF\<rparr>)" "timer_heap l' = timer_heap l"
    by (auto simp: l' uv__active_handle_add_def l1_def)
  have fin: "finite (referenced l S)" "h \<notin> referenced l S" using ok timers_finite False by (auto simp: referenced_def loop_ok_def)
  have "referenced l' S = (if h \<in> S then insert h (referenced l S) else referenced l S)"
    by (auto simp: referenced_def hd has_ref_bit ref_flag)
  moreover have "active_handles l' = (if h \<in> S then active_handles l + 1 else active_handles l)"
    by (simp add: l' uv__active_handle_add_def l1_def)
  ultimately have "active_handles l' = word_of_nat (others + card (referenced l' S))"
    using ok fin by (simp add: loop_ok_def timers_ok_def add_ac)
  then show ?thesis using reflag_ok [OF ok hd] by (simp add: ref_flag l'_def)
qed

lemma unref_loop_ok:
  assumes ok: "loop_ok others l S" and c: "\<not> uv__is_closing (handles l h)"
  shows "loop_ok others (uv__handle_unref h l) S"
proof (cases "uv__has_ref (handles l h)")
  case False
  then show ?thesis using ok by (simp add: uv__handle_unref_def)
next
  case True
  define l1 where "l1 = set_handle h (\<lambda>t. t\<lparr>flags := flags t AND NOT UV_HANDLE_REF\<rparr>) l"
  define l' where "l' = uv__handle_unref h l"
  have c1: "flags (handles l1 h) AND UV_HANDLE_CLOSING = 0"
    by (rule not_closing_flag) (use c in \<open>simp add: l1_def is_closing_bit ref_flag\<close>)
  have act: "uv__is_active (handles l1 h) \<longleftrightarrow> h \<in> S" using ok by (simp add: l1_def is_active_bit ref_flag loop_ok_def timers_ok_def)
  have l': "l' = (if h \<in> S then uv__active_handle_rm l1 else l1)"
    using True c1 act by (simp add: l'_def uv__handle_unref_def Let_def l1_def [symmetric])
  have hd: "handles l' = (handles l)(h := (handles l h)\<lparr>flags := flags (handles l h) AND NOT UV_HANDLE_REF\<rparr>)" "timer_heap l' = timer_heap l"
    by (auto simp: l' uv__active_handle_rm_def l1_def)
  have fin: "finite (referenced l S)" using ok timers_finite by (auto simp: referenced_def loop_ok_def)
  have r: "referenced l' S = referenced l S - {h}" by (auto simp: referenced_def hd has_ref_bit ref_flag)
  have ah: "active_handles l = word_of_nat (others + card (referenced l S))" using ok by (simp add: loop_ok_def timers_ok_def)
  have "active_handles l' = word_of_nat (others + card (referenced l' S))"
  proof (cases "h \<in> S")
    case hS: True
    then have "h \<in> referenced l S" using True by (simp add: referenced_def)
    then obtain k where k: "card (referenced l S) = Suc k" "card (referenced l S - {h}) = k" using fin by (metis card_Suc_Diff1)
    have "active_handles l' = active_handles l - 1" using hS by (simp add: l' uv__active_handle_rm_def l1_def)
    then show ?thesis unfolding r ah k by simp
  next
    case False
    then have "referenced l S - {h} = referenced l S" by (auto simp: referenced_def)
    then show ?thesis using False r ah by (simp add: l' l1_def)
  qed
  then show ?thesis using reflag_ok [OF ok hd] by (simp add: ref_flag l'_def)
qed

end
