(* ===== verification/Uv_Timer_Program.thy ===== *)
theory Uv_Timer_Program
  imports Uv_Timer_Correct
begin

text \<open>
  Whole programs that use timers: the states reachable by timer calls, the invariant of all of them, and the properties of timers.
\<close>

section \<open>Programs that use timers\<close>

text \<open>
  A loop and the calls a program makes between the ticks of the clock: it may set up a handle it has not set up before, start, stop
  and restart handles it has set up, change their repeat interval, reference and release them. Handles are numbered below
  \<open>2 ^ 32 - 1\<close>, for the heap counts them in 32 bits. \<open>timer_program\<close> relates the loop to the handles that were set up, in order.
\<close>

inductive timer_program :: "uv_loop_t \<Rightarrow> nat list \<Rightarrow> bool" where
  start_up: "timer_program \<lparr>time = t, timer_counter = 0, active_handles = 0, timer_heap = heap_init mem,
      handle_queue = QUEUE_INIT Loop_head q, handles = \<lambda>_. \<lparr>flags = 0, handle_type = 0, next_closing = None, timer_cb = None, timeout = 0, repeat = 0, start_id = 0\<rparr>\<rparr> []"
| tick: "timer_program l hs \<Longrightarrow> time l \<le> t \<Longrightarrow> t < - 1 \<Longrightarrow> timer_program (l\<lparr>time := t\<rparr>) hs"
| init: "timer_program l hs \<Longrightarrow> h \<notin> set hs \<Longrightarrow> h < 2 ^ 32 - 1 \<Longrightarrow> uv_timer_init h l = (e, l') \<Longrightarrow> timer_program l' (hs @ [h])"
| start: "timer_program l hs \<Longrightarrow> h \<in> set hs \<Longrightarrow> uv_timer_start h cb tmo rep l = Some (e, l') \<Longrightarrow> timer_program l' hs"
| stop: "timer_program l hs \<Longrightarrow> uv_timer_stop h l = Some (e, l') \<Longrightarrow> timer_program l' hs"
| again: "timer_program l hs \<Longrightarrow> h \<in> set hs \<Longrightarrow> uv_timer_again h l = Some (e, l') \<Longrightarrow> timer_program l' hs"
| set_repeat: "timer_program l hs \<Longrightarrow> timer_program (uv_timer_set_repeat h rep l) hs"
| ref: "timer_program l hs \<Longrightarrow> h \<in> set hs \<Longrightarrow> timer_program (uv__handle_ref h l) hs"
| unref: "timer_program l hs \<Longrightarrow> h \<in> set hs \<Longrightarrow> timer_program (uv__handle_unref h l) hs"

definition program_ok :: "uv_loop_t \<Rightarrow> nat list \<Rightarrow> nat set \<Rightarrow> bool" where
  "program_ok l hs S \<longleftrightarrow> loop_ok 0 l S \<and> S \<subseteq> set hs \<and> set hs \<subseteq> {..<2 ^ 32 - 1} \<and> (\<forall>h. \<not> uv__is_closing (handles l h)) \<and>
     ring (handle_queue l) Loop_head (map Handle_node hs)"

lemma program_room: "program_ok l hs S \<Longrightarrow> h \<in> set hs \<Longrightarrow> card (insert h S) < 2 ^ 32"
proof -
  assume "program_ok l hs S" "h \<in> set hs"
  then have "insert h S \<subseteq> {..<2 ^ 32 - 1}" by (auto simp: program_ok_def)
  from card_mono [OF _ this] show ?thesis by simp
qed

lemma queue_simps [simp]:
  "uv_timer_stop h l = Some (e, l') \<Longrightarrow> handle_queue l' = handle_queue l"
  by (auto simp: uv_timer_stop_def split: if_splits option.splits)

lemma start_queue: "uv_timer_start h cb tmo rep l = Some (e, l') \<Longrightarrow> handle_queue l' = handle_queue l"
  by (auto simp: uv_timer_start_def Let_def split: if_splits option.splits)

lemma again_queue: "uv_timer_again h l = Some (e, l') \<Longrightarrow> handle_queue l' = handle_queue l"
  by (auto simp: uv_timer_again_def split: if_splits option.splits prod.splits dest: start_queue)

lemma ref_frame:
  "handle_queue (uv__handle_ref h l) = handle_queue l" "handle_queue (uv__handle_unref h l) = handle_queue l"
  "uv__is_closing (handles (uv__handle_ref h l) g) = uv__is_closing (handles l g)"
  "uv__is_closing (handles (uv__handle_unref h l) g) = uv__is_closing (handles l g)"
  by (auto simp: uv__handle_ref_def uv__handle_unref_def Let_def uv__active_handle_add_def uv__active_handle_rm_def is_closing_bit ref_flag)

lemma loop_ok_quiet:
  assumes ok: "loop_ok others l S" and s: "timer_heap l' = timer_heap l" "active_handles l' = active_handles l"
    and h: "\<And>g. g \<in> S \<Longrightarrow> \<exists>r. handles l' g = (handles l g)\<lparr>repeat := r\<rparr>" "\<And>g. uv__is_active (handles l' g) = uv__is_active (handles l g)"
  shows "loop_ok others l' S"
proof -
  have f: "timeout (handles l' g) = timeout (handles l g)" "start_id (handles l' g) = start_id (handles l g)" "flags (handles l' g) = flags (handles l g)"
    "timer_cb (handles l' g) = timer_cb (handles l g)" if "g \<in> S" for g
    using h(1) [OF that] by auto
  have "timer_less_than (handles l') a b = timer_less_than (handles l) a b" if "a \<in> S" "b \<in> S" for a b
    by (rule timer_order_cong) (use that f in auto)
  then have "heap_holds (timer_less_than (handles l')) (timer_heap l') S"
    using ok s(1) by (auto simp: loop_ok_def timers_ok_def intro: heap_holds_cong)
  moreover have "referenced l' S = referenced l S" using f(3) by (auto simp: referenced_def has_ref_bit)
  moreover have "callable l' g = callable l g" if "g \<in> S" for g using f [OF that] by (simp add: callable_def is_closing_bit)
  ultimately show ?thesis using ok s(2) h(2) by (simp add: loop_ok_def timers_ok_def)
qed

lemma init_program_ok:
  assumes ok: "program_ok l hs S" and h: "h \<notin> set hs" "h < 2 ^ 32 - 1" and l': "uv_timer_init h l = (e, l')"
  shows "program_ok l' (hs @ [h]) S"
proof -
  have e: "handles l' = (handles l)(h := (handles l h)\<lparr>handle_type := UV_TIMER, flags := UV_HANDLE_REF, next_closing := None, timer_cb := None, repeat := 0\<rparr>)"
    "timer_heap l' = timer_heap l" "active_handles l' = active_handles l" "handle_queue l' = QUEUE_INSERT_TAIL Loop_head (Handle_node h) (handle_queue l)"
    using l' by (auto simp: uv_timer_init_def uv__handle_init_def Let_def)
  have hS: "h \<notin> S" and lok: "loop_ok 0 l S" using ok h(1) by (auto simp: program_ok_def)
  then have na: "\<not> uv__is_active (handles l h)" by (simp add: loop_ok_def timers_ok_def)
  have r: "UV_HANDLE_REF = 0 OR UV_HANDLE_REF" by simp
  have cl: "\<not> uv__is_closing (handles l' h)" "\<not> uv__is_active (handles l' h)"
    using ref_flag(1) [of 0] by (simp_all add: e is_closing_bit is_active_bit)
  have "loop_ok 0 l' S"
  proof (rule loop_ok_quiet [OF lok e(2,3)])
    show "\<exists>r. handles l' g = (handles l g)\<lparr>repeat := r\<rparr>" if "g \<in> S" for g
      using that hS by (intro exI [of _ "repeat (handles l g)"]) (auto simp: e)
    show "uv__is_active (handles l' g) = uv__is_active (handles l g)" for g using na cl(2) by (cases "g = h") (simp_all add: e)
  qed
  moreover have "ring (handle_queue l') Loop_head (map Handle_node (hs @ [h]))"
    using ok h(1) ring_insert_tail [of "handle_queue l" Loop_head "map Handle_node hs" "Handle_node h"] by (auto simp: program_ok_def e)
  moreover have "\<not> uv__is_closing (handles l' g)" for g using ok cl(1) by (cases "g = h") (auto simp: e program_ok_def)
  ultimately show ?thesis using ok h by (auto simp: program_ok_def)
qed

lemma program_step_ok:
  assumes ok: "program_ok l hs S"
  shows "\<exists>l'. uv_timer_stop h l = Some (0, l') \<and> program_ok l' hs (S - {h})"
    and "h \<in> set hs \<Longrightarrow> \<exists>e l'. uv_timer_start h cb tmo rep l = Some (e, l') \<and> (\<exists>S'. program_ok l' hs S')"
    and "h \<in> set hs \<Longrightarrow> \<exists>e l'. uv_timer_again h l = Some (e, l') \<and> (\<exists>S'. program_ok l' hs S')"
proof -
  have lok: "loop_ok 0 l S" and nc: "\<not> uv__is_closing (handles l g)" for g using ok by (simp_all add: program_ok_def)
  have frame: "program_ok l' hs S'" if "loop_ok 0 l' S'" "S' \<subseteq> set hs" "handle_queue l' = handle_queue l"
      "\<forall>g. g \<noteq> h \<longrightarrow> handles l' g = handles l g" "uv__is_closing (handles l' h) = uv__is_closing (handles l h)" for l' S'
  proof -
    have "\<not> uv__is_closing (handles l' g)" for g using nc that(4,5) by (cases "g = h") auto
    then show ?thesis using that(1-3) ok by (simp add: program_ok_def)
  qed
  have S: "S \<subseteq> set hs" using ok by (simp add: program_ok_def)
  obtain l' where l': "uv_timer_stop h l = Some (0, l')" "loop_ok 0 l' (S - {h})" "\<forall>g. g \<noteq> h \<longrightarrow> handles l' g = handles l g"
    "uv__is_closing (handles l' h) = uv__is_closing (handles l h)" using stop_loop_ok [OF lok, of h] by blast
  show "\<exists>l'. uv_timer_stop h l = Some (0, l') \<and> program_ok l' hs (S - {h})"
    using l'(1) frame [OF l'(2) _ _ l'(3,4)] S by auto
  {
    assume h: "h \<in> set hs"
    note room = program_room [OF ok h]
    show "\<exists>e l'. uv_timer_start h cb tmo rep l = Some (e, l') \<and> (\<exists>S'. program_ok l' hs S')"
    proof (cases "cb = None")
      case True
      then show ?thesis using ok by (auto simp: uv_timer_start_def)
    next
      case False
      obtain l' where l': "uv_timer_start h cb tmo rep l = Some (0, l')" "loop_ok 0 l' (insert h S)" "\<forall>g. g \<noteq> h \<longrightarrow> handles l' g = handles l g"
        "uv__is_closing (handles l' h) = uv__is_closing (handles l h)" using start_loop_ok [OF lok nc False room, of tmo rep] by blast
      from frame [OF l'(2) _ start_queue [OF l'(1)] l'(3,4)] show ?thesis using l'(1) S h by auto
    qed
    show "\<exists>e l'. uv_timer_again h l = Some (e, l') \<and> (\<exists>S'. program_ok l' hs S')"
    proof (cases "timer_cb (handles l h) = None")
      case True
      then show ?thesis using ok by (auto simp: uv_timer_again_def)
    next
      case False
      then have "callable l h" using nc by (simp add: callable_def)
      from again_loop_ok [OF lok this room] obtain l' where
        l': "uv_timer_again h l = Some (0, l')" "loop_ok 0 l' (if repeat (handles l h) \<noteq> 0 then insert h S else S)" "\<forall>g. g \<noteq> h \<longrightarrow> handles l' g = handles l g"
        "uv__is_closing (handles l' h) = uv__is_closing (handles l h)" by blast
      have "(if repeat (handles l h) \<noteq> 0 then insert h S else S) \<subseteq> set hs" using S h by simp
      from frame [OF l'(2) this again_queue [OF l'(1)] l'(3,4)] show ?thesis using l'(1) by blast
    qed
  }
qed

lemma timer_program_ok: "timer_program l hs \<Longrightarrow> \<exists>S. program_ok l hs S"
proof (induction rule: timer_program.induct)
  case (start_up t mem q)
  show ?case
    by (intro exI [of _ "{}"])
      (simp add: program_ok_def loop_ok_def timers_ok_def heap_init_holds is_active_bit is_closing_bit referenced_def ring_init)
next
  case (tick l hs t)
  then obtain S where S: "program_ok l hs S" by blast
  have lok: "loop_ok 0 l S" using S by (simp add: program_ok_def)
  have "loop_ok 0 (l\<lparr>time := t\<rparr>) S"
  proof (rule loop_ok_quiet [OF lok])
    show "\<exists>r. handles (l\<lparr>time := t\<rparr>) g = (handles l g)\<lparr>repeat := r\<rparr>" for g by (rule exI [of _ "repeat (handles l g)"]) simp
  qed simp_all
  then show ?case using S by (auto simp: program_ok_def)
next
  case (init l hs h e l')
  then show ?case using init_program_ok by blast
next
  case (start l hs h cb tmo rep e l')
  then obtain S where "program_ok l hs S" by blast
  from program_step_ok(2) [OF this start(2), of cb tmo rep] start(3) show ?case by auto
next
  case (stop l hs h e l')
  then obtain S where "program_ok l hs S" by blast
  from program_step_ok(1) [OF this, of h] stop(2) show ?case by auto
next
  case (again l hs h e l')
  then obtain S where "program_ok l hs S" by blast
  from program_step_ok(3) [OF this again(2)] again(3) show ?case by auto
next
  case (set_repeat l hs h rep)
  then obtain S where S: "program_ok l hs S" by blast
  have e: "handles (uv_timer_set_repeat h rep l) g = (handles l g)\<lparr>repeat := if g = h then rep else repeat (handles l g)\<rparr>" for g
    by (simp add: uv_timer_set_repeat_def)
  have lok: "loop_ok 0 l S" using S by (simp add: program_ok_def)
  have "loop_ok 0 (uv_timer_set_repeat h rep l) S"
    by (rule loop_ok_quiet [OF lok _ _ exI [of _ "if g = h then rep else repeat (handles l g)" for g]])
      (simp_all add: e is_active_bit, simp_all add: uv_timer_set_repeat_def)
  then show ?case using S by (auto simp: program_ok_def uv_timer_set_repeat_def is_closing_bit)
next
  case (ref l hs h)
  then obtain S where S: "program_ok l hs S" by blast
  then show ?case using ref_loop_ok [of 0 l S h] by (auto simp: program_ok_def ref_frame)
next
  case (unref l hs h)
  then obtain S where S: "program_ok l hs S" by blast
  then show ?case using unref_loop_ok [of 0 l S h] by (auto simp: program_ok_def ref_frame)
qed


lemma program_count:
  assumes "program_ok l hs S"
  shows "unat (active_handles l) = card {h. uv__is_active (handles l h) \<and> uv__has_ref (handles l h)}"
proof -
  have r: "referenced l S = {h. uv__is_active (handles l h) \<and> uv__has_ref (handles l h)}" "active_handles l = word_of_nat (card (referenced l S))"
    using assms by (auto simp: program_ok_def loop_ok_def timers_ok_def referenced_def)
  have "referenced l S \<subseteq> {..<2 ^ 32 - 1}" using assms by (auto simp: program_ok_def referenced_def)
  from card_mono [OF _ this] show ?thesis using r by (simp add: unat_word_of_nat)
qed

section \<open>Properties\<close>

text \<open>C8: whatever timer calls a program makes, no call fails, the heap holds exactly the active timers in order, the handle queue lists the
  handles that were set up in the order in which they were, and the loop's count is the number of active referenced timers.\<close>

theorem timers_stay_consistent:
  assumes "timer_program l hs"
  shows "\<exists>S. heap_holds (timer_less_than (handles l)) (timer_heap l) S \<and> S = {h. uv__is_active (handles l h)} \<and> S \<subseteq> set hs \<and>
    QUEUE_FOREACH Loop_head (handle_queue l) = Some (map Handle_node hs) \<and>
    unat (active_handles l) = card {h. uv__is_active (handles l h) \<and> uv__has_ref (handles l h)} \<and>
    (\<forall>h cb tmo rep. h \<in> set hs \<longrightarrow> uv_timer_stop h l \<noteq> None \<and> uv_timer_start h cb tmo rep l \<noteq> None \<and> uv_timer_again h l \<noteq> None)"
proof -
  obtain S where S: "program_ok l hs S" using timer_program_ok [OF assms] by blast
  then have "heap_holds (timer_less_than (handles l)) (timer_heap l) S" "S = {h. uv__is_active (handles l h)}" "S \<subseteq> set hs"
    by (auto simp: program_ok_def loop_ok_def timers_ok_def)
  moreover have "QUEUE_FOREACH Loop_head (handle_queue l) = Some (map Handle_node hs)"
    using S by (intro ring_foreach) (simp add: program_ok_def)
  moreover have "uv_timer_stop h l \<noteq> None \<and> uv_timer_start h cb tmo rep l \<noteq> None \<and> uv_timer_again h l \<noteq> None" if "h \<in> set hs" for h cb tmo rep
    using program_step_ok(1) [OF S, of h] program_step_ok(2,3) [OF S that] by fastforce
  ultimately show ?thesis using program_count [OF S] by auto
qed

definition new_loop :: "u64 \<Rightarrow> uv_loop_t" where
  "new_loop t = \<lparr>time = t, timer_counter = 0, active_handles = 0, timer_heap = heap_init (\<lambda>_. \<lparr>left = None, right = None, parent = None\<rparr>),
     handle_queue = QUEUE_INIT Loop_head \<lparr>qnext = \<lambda>a. a, qprev = \<lambda>a. a\<rparr>,
     handles = \<lambda>_. \<lparr>flags = 0, handle_type = 0, next_closing = None, timer_cb = None, timeout = 0, repeat = 0, start_id = 0\<rparr>\<rparr>"

text \<open>Two timers are set up and one is started, due after 5 and then every 7 units.\<close>

definition two_timers :: uv_loop_t where
  "two_timers = snd (the (uv_timer_start 2 (Some 0) 5 7 (snd (uv_timer_init 3 (snd (uv_timer_init 2 (new_loop 100)))))))"

lemma two_inits: "timer_program (snd (uv_timer_init 3 (snd (uv_timer_init 2 (new_loop 100))))) [2, 3]"
proof -
  have "timer_program (new_loop 100) []" unfolding new_loop_def by (rule start_up)
  then have "timer_program (snd (uv_timer_init 2 (new_loop 100))) ([] @ [2])"
    by (rule init [where e = 0]) (simp_all add: uv_timer_init_def)
  then have "timer_program (snd (uv_timer_init 3 (snd (uv_timer_init 2 (new_loop 100))))) (([] @ [2]) @ [3])"
    by (rule init [where e = 0]) (simp_all add: uv_timer_init_def)
  then show ?thesis by simp
qed

lemma two_timers_program: "timer_program two_timers [2, 3]"
proof -
  obtain S where "program_ok (snd (uv_timer_init 3 (snd (uv_timer_init 2 (new_loop 100))))) [2, 3] S"
    using timer_program_ok [OF two_inits] by blast
  from program_step_ok(2) [OF this, of 2 "Some 0" 5 7] obtain e l' where
    "uv_timer_start 2 (Some 0) 5 7 (snd (uv_timer_init 3 (snd (uv_timer_init 2 (new_loop 100))))) = Some (e, l')" by auto
  then show ?thesis using start [OF two_inits, of 2 "Some 0" 5 7 e l'] by (simp add: two_timers_def)
qed

theorem timers_stay_consistent_witness:
  "\<exists>S. heap_holds (timer_less_than (handles two_timers)) (timer_heap two_timers) S \<and> S \<subseteq> {2, 3} \<and>
    QUEUE_FOREACH Loop_head (handle_queue two_timers) = Some [Handle_node 2, Handle_node 3]"
  using timers_stay_consistent [OF two_timers_program] by auto

lemma two_timers_ok: "loop_ok 0 two_timers {2}" "timeout (handles two_timers 2) = 105" "repeat (handles two_timers 2) = 7"
  "time two_timers = 100"
proof -
  define l where "l = snd (uv_timer_init 3 (snd (uv_timer_init 2 (new_loop 100))))"
  obtain S where S: "program_ok l [2, 3] S" using timer_program_ok [OF two_inits] unfolding l_def by blast
  have "\<not> uv__is_active (handles l h)" for h
    by (simp add: l_def new_loop_def uv_timer_init_def uv__handle_init_def Let_def uv__is_active_def UV_HANDLE_REF_def UV_HANDLE_ACTIVE_def)
  then have "S = {}" using S by (auto simp: program_ok_def loop_ok_def timers_ok_def)
  with S have "loop_ok 0 l {}" "\<not> uv__is_closing (handles l 2)" by (auto simp: program_ok_def)
  from start_loop_ok [OF this, of "Some 0" 5 7] obtain l' where l': "uv_timer_start 2 (Some 0) 5 7 l = Some (0, l')" "loop_ok 0 l' {2}" "time l' = time l"
    "timeout (handles l' 2) = clamp_timeout (time l) 5" "repeat (handles l' 2) = 7" by auto
  have t: "time l = 100" by (simp add: l_def new_loop_def uv_timer_init_def uv__handle_init_def Let_def)
  have "two_timers = l'" using l'(1) by (simp add: two_timers_def l_def)
  then show "loop_ok 0 two_timers {2}" "timeout (handles two_timers 2) = 105" "repeat (handles two_timers 2) = 7" "time two_timers = 100"
    using l' t by (simp_all add: clamp_timeout_def)
qed

definition later :: uv_loop_t where "later = two_timers\<lparr>time := 200\<rparr>"

lemma later_ok: "loop_ok 0 later {2}" "time later < - 1" "due later {2} = {2}"
proof -
  show "loop_ok 0 later {2}"
  proof (rule loop_ok_quiet [OF two_timers_ok(1)])
    show "\<exists>r. handles later g = (handles two_timers g)\<lparr>repeat := r\<rparr>" for g by (rule exI [of _ "repeat (handles two_timers g)"]) (simp add: later_def)
  qed (simp_all add: later_def)
  show "time later < - 1" "due later {2} = {2}" by (auto simp: later_def due_def two_timers_ok)
qed

text \<open>C22: the event loop may sleep for exactly as long as no timer is due: \<open>uv__next_timeout\<close> is \<open>-1\<close> without active timers and otherwise
  the shortest time to a due time, 0 when one has passed, at most \<open>INT_MAX\<close>.\<close>

theorem next_timeout_is_least:
  assumes "loop_ok others l S"
  shows "uv__next_timeout l = (if S = {} then - 1 else min (2 ^ 31 - 1) (Min ((\<lambda>h. int (unat (timeout (handles l h)) - unat (time l))) ` S)))"
  by (rule next_timeout_least [of others]) (use assms in \<open>simp add: loop_ok_def\<close>)

theorem next_timeout_is_least_witness: "uv__next_timeout two_timers = 5"
  using next_timeout_is_least [OF two_timers_ok(1)] by (simp add: two_timers_ok)

lemma not_due_no_spin:
  assumes ok: "loop_ok others l S" and d: "due l S = {}"
  shows "uv__next_timeout l \<noteq> 0"
proof -
  have t: "timers_ok others l S" using ok by (simp add: loop_ok_def)
  have "0 < int (unat (timeout (handles l h)) - unat (time l))" if "h \<in> S" for h
    using d that by (auto simp: due_def word_le_nat_alt)
  then have "S \<noteq> {} \<Longrightarrow> 0 < Min ((\<lambda>h. int (unat (timeout (handles l h)) - unat (time l))) ` S)"
    using timers_finite [OF t] by (subst Min_gr_iff) auto
  then show ?thesis unfolding next_timeout_least [OF t] by (cases "S = {}") (simp_all add: min_def)
qed


text \<open>A callback that stops the timer whose number it is given.\<close>

lemma stopping_is_tame: "tame others (\<lambda>cb h l. map_option snd (uv_timer_stop cb l))"
  unfolding tame_def
proof (intro allI impI)
  fix cb and h :: nat and l S assume "loop_ok others l S"
  from stop_loop_ok [OF this, of cb] obtain l' where l': "uv_timer_stop cb l = Some (0, l')" "loop_ok others l' (S - {cb})" "time l' = time l"
    "\<forall>g. g \<noteq> cb \<longrightarrow> handles l' g = handles l g" by blast
  then have "due l' (S - {cb}) \<subseteq> due l S" by (auto simp: due_def)
  then show "\<exists>l' S'. map_option snd (uv_timer_stop cb l) = Some l' \<and> loop_ok others l' S' \<and> time l' = time l \<and> due l' S' \<subseteq> due l S"
    using l'(1-3) by auto
qed




text \<open>C29: starting and stopping a timer. \<open>uv_timer_start\<close> makes the timer active with the callback, the interval and the due time asked for, which
  never wraps around, and counts the start; \<open>uv_timer_stop\<close> takes back exactly that. Both keep the loop sound.\<close>

theorem timer_start_stop:
  assumes "loop_ok others l S" "\<not> uv__is_closing (handles l h)" "card (insert h S) < 2 ^ 32"
  shows "\<exists>l' l''. uv_timer_start h (Some cb) tmo rep l = Some (0, l') \<and> loop_ok others l' (insert h S) \<and> timer_cb (handles l' h) = Some cb \<and>
    unat (timeout (handles l' h)) = min (unat (time l) + unat tmo) (2 ^ 64 - 1) \<and> uv_timer_get_repeat h l' = rep \<and> timer_counter l' = timer_counter l + 1 \<and>
    uv_timer_stop h l' = Some (0, l'') \<and> loop_ok others l'' (S - {h}) \<and> (\<forall>g. g \<noteq> h \<longrightarrow> handles l'' g = handles l g)"
proof -
  obtain l' where l': "uv_timer_start h (Some cb) tmo rep l = Some (0, l')" "loop_ok others l' (insert h S)" "timer_counter l' = timer_counter l + 1"
    "\<forall>g. g \<noteq> h \<longrightarrow> handles l' g = handles l g" "timer_cb (handles l' h) = Some cb" "timeout (handles l' h) = clamp_timeout (time l) tmo" "repeat (handles l' h) = rep"
    using start_loop_ok [OF assms(1,2) _ assms(3), of "Some cb" tmo rep] by auto
  obtain l'' where l'': "uv_timer_stop h l' = Some (0, l'')" "loop_ok others l'' (insert h S - {h})" "\<forall>g. g \<noteq> h \<longrightarrow> handles l'' g = handles l' g"
    using stop_loop_ok [OF l'(2), of h] by blast
  have "insert h S - {h} = S - {h}" by blast
  then show ?thesis using l' l'' by (auto simp: unat_clamp_timeout uv_timer_get_repeat_def)
qed

theorem timer_start_stop_witness:
  "\<exists>l' l''. uv_timer_start 3 (Some 3) (- 1) 0 two_timers = Some (0, l') \<and> unat (timeout (handles l' 3)) = 2 ^ 64 - 1 \<and>
     uv_timer_stop 3 l' = Some (0, l'') \<and> loop_ok 0 l'' {2}"
proof -
  obtain S where "program_ok two_timers [2, 3] S" using timer_program_ok [OF two_timers_program] by blast
  then have "\<not> uv__is_closing (handles two_timers 3)" by (simp add: program_ok_def)
  from timer_start_stop [OF two_timers_ok(1) this, of 3 "- 1" 0] show ?thesis
    by (auto simp: two_timers_ok unsigned_minus_1_eq_mask mask_eq_exp_minus_1)
qed

end
