(* ===== verification/Spec2Isabelle.thy ===== *)
theory Spec2Isabelle
  imports Base64 Nanopb_Roundtrip Bytestring_ASN1 Bytestring_Unicode Bytestring_Builder Uv_Timer_Program
begin

text \<open>Header\<close>

end
